(* ===== verification/Lab_Prelude.thy ===== *)
theory Lab_Prelude
  imports Main "HOL-Library.Word" "HOL-Library.AList" "HOL-Library.Stream" "HOL-Library.Multiset"
begin

text \<open>
  The shared vocabulary of the development.

  \<^item> Outcomes of a Go call: a normal return, a run-time panic, a \<open>log.Fatal\<close> that ends the
    process, or a call that blocks for ever.
  \<^item> Machine integers (\<open>uint64\<close>, \<open>uint32\<close>, bytes), Go's truncating remainder, decimal printing.
  \<^item> Go maps as association lists with distinct keys; the list order stands for one of the
    unspecified iteration orders of \<open>range\<close>.
  \<^item> Random draws as a stream of choices.
  \<^item> Transition systems: reachable states, and a locale for invariants.
\<close>

named_theorems go_simps "unfolding rules for outcomes, sequencing and maps"
named_theorems gomap_simps "lookup, insertion and deletion in Go maps"
named_theorems inv_intros "one-step invariant preservation facts"

unbundle bit_operations_syntax

subsection \<open>Machine integers\<close>

type_synonym u64 = "64 word"
type_synonym u32 = "32 word"
type_synonym byte = "8 word"

subsection \<open>Outcomes of a Go call\<close>

datatype 'a go = Ret 'a | Panic string | Fatal string | Hang

definition go_bind :: "'a go \<Rightarrow> ('a \<Rightarrow> 'b go) \<Rightarrow> 'b go" where
  "go_bind m f = (case m of Ret x \<Rightarrow> f x | Panic e \<Rightarrow> Panic e | Fatal e \<Rightarrow> Fatal e | Hang \<Rightarrow> Hang)"

lemma go_bind_simps [simp, go_simps]:
  "go_bind (Ret x) f = f x" "go_bind (Panic e) f = Panic e"
  "go_bind (Fatal e) f = Fatal e" "go_bind Hang f = Hang"
  by (simp_all add: go_bind_def)

lemma go_bind_Ret_iff: "go_bind m f = Ret y \<longleftrightarrow> (\<exists>x. m = Ret x \<and> f x = Ret y)"
  by (cases m) auto

lemma go_bind_assoc: "go_bind (go_bind m f) g = go_bind m (\<lambda>x. go_bind (f x) g)"
  by (cases m) auto

text \<open>A loop \<open>for _, x := range xs\<close> whose body may panic, block or end the process.\<close>

fun go_foreach :: "('a \<Rightarrow> 's \<Rightarrow> 's go) \<Rightarrow> 'a list \<Rightarrow> 's \<Rightarrow> 's go" where
  "go_foreach body [] s = Ret s"
| "go_foreach body (x # xs) s = go_bind (body x s) (go_foreach body xs)"

lemma go_foreach_append:
  "go_foreach body (xs @ ys) s = go_bind (go_foreach body xs s) (go_foreach body ys)"
  by (induction xs arbitrary: s) (auto simp: go_bind_def split: go.splits)

text \<open>A loop invariant is kept by the whole loop when each iteration keeps it.\<close>

lemma go_foreach_inv:
  assumes "go_foreach body xs s = Ret s'" and "P s"
    and "\<And>x s s'. x \<in> set xs \<Longrightarrow> P s \<Longrightarrow> body x s = Ret s' \<Longrightarrow> P s'"
  shows "P s'"
  using assms
proof (induction xs arbitrary: s)
  case (Cons x xs)
  then obtain t where t: "body x s = Ret t" "go_foreach body xs t = Ret s'"
    by (auto simp: go_bind_Ret_iff)
  then show ?case using Cons.prems(2,3) Cons.IH [OF t(2)] by (meson list.set_intros)
qed simp

lemma go_foreach_Ret:
  assumes "\<And>x s. x \<in> set xs \<Longrightarrow> body x s = Ret (f x s)"
  shows "go_foreach body xs s = Ret (fold f xs s)"
  using assms by (induction xs arbitrary: s) auto

subsection \<open>Go's integer remainder\<close>

text \<open>Go's \<open>%\<close> truncates towards zero and panics on a zero divisor.\<close>

definition go_rem :: "int \<Rightarrow> int \<Rightarrow> int go" where
  "go_rem a b =
     (if b = 0 then Panic ''integer divide by zero'' else Ret (sgn a * (\<bar>a\<bar> mod \<bar>b\<bar>)))"

lemma go_rem_nonneg: "0 \<le> a \<Longrightarrow> 0 < b \<Longrightarrow> go_rem a b = Ret (a mod b)"
  by (cases "a = 0") (simp_all add: go_rem_def)

lemma go_rem_zero [simp]: "go_rem a 0 = Panic ''integer divide by zero''"
  by (simp add: go_rem_def)

lemma nat_int_minus [simp]: "nat (int a - int b) = a - b"
  by arith

subsection \<open>Indexing a slice\<close>

definition go_index :: "'a list \<Rightarrow> int \<Rightarrow> 'a go" where
  "go_index xs i =
     (if 0 \<le> i \<and> i < int (length xs) then Ret (xs ! nat i) else Panic ''index out of range'')"

lemma go_index_Ret: "i < length xs \<Longrightarrow> go_index xs (int i) = Ret (xs ! i)"
  by (simp add: go_index_def)

lemma go_index_Panic: "int (length xs) \<le> i \<Longrightarrow> go_index xs i = Panic ''index out of range''"
  by (simp add: go_index_def)

lemma go_index_Ret_iff: "go_index xs i = Ret x \<longleftrightarrow> 0 \<le> i \<and> i < int (length xs) \<and> x = xs ! nat i"
  by (auto simp: go_index_def)

subsection \<open>Decimal printing\<close>

fun decimal :: "nat \<Rightarrow> string" where
  "decimal n = (if n < 10 then [char_of (48 + n)] else decimal (n div 10) @ [char_of (48 + n mod 10)])"

declare decimal.simps [simp del]

definition pad_left :: "nat \<Rightarrow> string \<Rightarrow> string" where
  "pad_left w s = replicate (w - length s) (CHR ''0'') @ s"

lemma decimal_nonempty [simp]: "decimal n \<noteq> []"
  by (subst decimal.simps) simp

lemma decimal_less_10: "n < 10 \<Longrightarrow> decimal n = [char_of (48 + n)]"
  by (subst decimal.simps) simp

lemma decimal_less_100: "10 \<le> n \<Longrightarrow> n < 100 \<Longrightarrow> decimal n = [char_of (48 + n div 10), char_of (48 + n mod 10)]"
  by (subst decimal.simps) (simp add: decimal_less_10 less_mult_imp_div_less)

text \<open>Reading a decimal back, so that printing is injective.\<close>

definition undecimal :: "string \<Rightarrow> nat" where
  "undecimal = foldl (\<lambda>a c. 10 * a + (of_char c - 48)) 0"

lemma undecimal_decimal: "undecimal (decimal n) = n"
proof (induction n rule: decimal.induct)
  case (1 n)
  show ?case
  proof (cases "n < 10")
    case True
    then show ?thesis by (simp add: decimal_less_10 undecimal_def)
  next
    case False
    have "undecimal (decimal n) = 10 * undecimal (decimal (n div 10)) + n mod 10"
      by (subst decimal.simps) (simp add: False undecimal_def)
    then show ?thesis using 1 False by simp
  qed
qed

lemma decimal_inj [simp]: "decimal m = decimal n \<longleftrightarrow> m = n"
  by (metis undecimal_decimal)

text \<open>The bytes of a string.\<close>

definition bytes_of :: "string \<Rightarrow> byte list" where
  "bytes_of s = map of_char s"

lemma length_bytes_of [simp]: "length (bytes_of s) = length s"
  by (simp add: bytes_of_def)

lemma bytes_of_append [simp]: "bytes_of (s @ t) = bytes_of s @ bytes_of t"
  by (simp add: bytes_of_def)

subsection \<open>Go maps\<close>

type_synonym ('k, 'v) gomap = "('k \<times> 'v) list"

abbreviation gm_get :: "('k, 'v) gomap \<Rightarrow> 'k \<Rightarrow> 'v option" where
  "gm_get m k \<equiv> map_of m k"

abbreviation gm_put :: "'k \<Rightarrow> 'v \<Rightarrow> ('k, 'v) gomap \<Rightarrow> ('k, 'v) gomap" where
  "gm_put k v m \<equiv> AList.update k v m"

abbreviation gm_del :: "'k \<Rightarrow> ('k, 'v) gomap \<Rightarrow> ('k, 'v) gomap" where
  "gm_del k m \<equiv> AList.delete k m"

abbreviation gm_keys :: "('k, 'v) gomap \<Rightarrow> 'k list" where
  "gm_keys m \<equiv> map fst m"

definition gm_wf :: "('k, 'v) gomap \<Rightarrow> bool" where
  "gm_wf m \<longleftrightarrow> distinct (gm_keys m)"

text \<open>Reading an absent key gives the zero value of the element type.\<close>

definition gm_getz :: "'v \<Rightarrow> ('k, 'v) gomap \<Rightarrow> 'k \<Rightarrow> 'v" where
  "gm_getz z m k = (case gm_get m k of None \<Rightarrow> z | Some v \<Rightarrow> v)"

lemma gm_wf_Nil [simp, gomap_simps]: "gm_wf []"
  by (simp add: gm_wf_def)

lemma gm_wf_Cons [gomap_simps]: "gm_wf ((k, v) # m) \<longleftrightarrow> k \<notin> set (gm_keys m) \<and> gm_wf m"
  by (simp add: gm_wf_def)

lemma gm_wf_put [simp, intro]: "gm_wf m \<Longrightarrow> gm_wf (gm_put k v m)"
  by (simp add: gm_wf_def distinct_update)

lemma gm_wf_del [simp, intro]: "gm_wf m \<Longrightarrow> gm_wf (gm_del k m)"
  by (simp add: gm_wf_def distinct_delete)

lemma gm_get_put [simp, gomap_simps]: "gm_get (gm_put k v m) k' = (if k' = k then Some v else gm_get m k')"
  by (simp add: update_conv')

lemma gm_get_del [simp, gomap_simps]: "gm_get (gm_del k m) k' = (if k' = k then None else gm_get m k')"
  by (simp add: delete_conv')

lemma gm_getz_put [simp, gomap_simps]: "gm_getz z (gm_put k v m) k' = (if k' = k then v else gm_getz z m k')"
  by (simp add: gm_getz_def)

lemma gm_get_mem: "gm_wf m \<Longrightarrow> (k, v) \<in> set m \<longleftrightarrow> gm_get m k = Some v"
  by (simp add: gm_wf_def)

lemma gm_get_keys: "gm_get m k \<noteq> None \<longleftrightarrow> k \<in> set (gm_keys m)"
  by (simp add: map_of_eq_None_iff)

lemma gm_ball:
  "gm_wf m \<Longrightarrow> (\<forall>(k, v) \<in> set m. P k v) \<longleftrightarrow> (\<forall>k v. gm_get m k = Some v \<longrightarrow> P k v)"
  by (auto simp: gm_get_mem)

lemma gm_get_perm:
  assumes "mset m = mset m'" and "gm_wf m"
  shows "gm_get m k = gm_get m' k"
proof -
  have "gm_wf m'" using assms by (metis gm_wf_def mset_eq_imp_distinct_iff mset_map)
  moreover have "set m = set m'" using assms(1) by (rule mset_eq_setD)
  ultimately show ?thesis using assms(2) by (metis gm_wf_def map_of_eq_Some_iff not_None_eq)
qed

lemma gm_wf_perm: "mset m = mset m' \<Longrightarrow> gm_wf m \<longleftrightarrow> gm_wf m'"
  by (metis gm_wf_def mset_eq_imp_distinct_iff mset_map)

subsection \<open>Counting\<close>

text \<open>How many of a list of goroutines are in a state of interest.\<close>

definition num_in :: "('a \<Rightarrow> bool) \<Rightarrow> 'a list \<Rightarrow> nat" where
  "num_in P xs = length (filter P xs)"

lemma num_in_Nil [simp]: "num_in P [] = 0"
  by (simp add: num_in_def)

lemma num_in_snoc [simp]: "num_in P (xs @ [x]) = num_in P xs + (if P x then 1 else 0)"
  by (simp add: num_in_def)

lemma num_in_length: "num_in P xs \<le> length xs"
  by (simp add: num_in_def)

lemma num_in_zero: "num_in P xs = 0 \<longleftrightarrow> (\<forall>x \<in> set xs. \<not> P x)"
  by (simp add: num_in_def filter_empty_conv)

lemma num_in_all: "\<forall>x \<in> set xs. P x \<Longrightarrow> num_in P xs = length xs"
  by (simp add: num_in_def)

lemma num_in_mono: "(\<And>x. P x \<Longrightarrow> Q x) \<Longrightarrow> num_in P xs \<le> num_in Q xs"
  by (induction xs) (auto simp: num_in_def le_SucI)

lemma num_in_update:
  "i < length xs \<Longrightarrow> num_in P (xs[i := x]) + (if P (xs ! i) then 1 else 0) = num_in P xs + (if P x then 1 else 0)"
proof (induction xs arbitrary: i)
  case (Cons y ys)
  then show ?case by (cases i) (auto simp: num_in_def split: if_splits)
qed simp

lemma num_in_advance:
  assumes "i < length xs" "\<not> P (xs ! i) \<or> P x"
  shows "num_in P (xs[i := x]) = num_in P xs + (if P x \<and> \<not> P (xs ! i) then 1 else 0)"
  using num_in_update [OF assms(1), of P x] assms(2) by (auto split: if_splits)

subsection \<open>Random draws\<close>

text \<open>
  \<open>math/rand\<close> is a source of unconstrained choices: a stream of naturals. \<open>rand.Intn(n)\<close>
  reduces the next choice below \<open>n\<close> and panics unless \<open>n > 0\<close>, as the library documents.
\<close>

type_synonym rng = "nat stream"

definition Intn :: "int \<Rightarrow> rng \<Rightarrow> (int \<times> rng) go" where
  "Intn n r = (if n \<le> 0 then Panic ''invalid argument to Intn'' else Ret (int (shd r) mod n, stl r))"

definition draw :: "nat \<Rightarrow> rng \<Rightarrow> nat \<times> rng" where
  "draw n r = (shd r mod n, stl r)"

lemma draw_less: "0 < n \<Longrightarrow> fst (draw n r) < n"
  by (simp add: draw_def)

lemma Intn_draw: "0 < n \<Longrightarrow> Intn (int n) r = Ret (int (fst (draw n r)), snd (draw n r))"
  by (simp add: Intn_def draw_def zmod_int)

subsection \<open>Transition systems\<close>

inductive reach :: "('s \<Rightarrow> bool) \<Rightarrow> ('s \<Rightarrow> 's \<Rightarrow> bool) \<Rightarrow> 's \<Rightarrow> bool"
  for init :: "'s \<Rightarrow> bool" and step :: "'s \<Rightarrow> 's \<Rightarrow> bool" where
  reach_init: "init s \<Longrightarrow> reach init step s"
| reach_step: "reach init step s \<Longrightarrow> step s t \<Longrightarrow> reach init step t"

text \<open>An inductive invariant holds in every reachable state.\<close>

locale inv_system =
  fixes init :: "'s \<Rightarrow> bool" and step :: "'s \<Rightarrow> 's \<Rightarrow> bool" and inv :: "'s \<Rightarrow> bool"
  assumes inv_init: "init s \<Longrightarrow> inv s"
    and inv_step: "inv s \<Longrightarrow> step s t \<Longrightarrow> inv t"
begin

lemma reach_inv: "reach init step s \<Longrightarrow> inv s"
  by (induction rule: reach.induct) (auto intro: inv_init inv_step)

lemma reach_weaken: "reach init step s \<Longrightarrow> (\<And>s. inv s \<Longrightarrow> P s) \<Longrightarrow> P s"
  using reach_inv by blast

end

text \<open>Forward simulation: a concrete system refines an abstract one when related states step to related states. Every
  reachable concrete state is then related to a reachable abstract one.\<close>

locale simulation =
  fixes cinit :: "'c \<Rightarrow> bool" and cstep :: "'c \<Rightarrow> 'c \<Rightarrow> bool" and ainit :: "'a \<Rightarrow> bool" and astep :: "'a \<Rightarrow> 'a \<Rightarrow> bool"
    and rel :: "'c \<Rightarrow> 'a \<Rightarrow> bool"
  assumes sim_init: "cinit c \<Longrightarrow> \<exists>a. ainit a \<and> rel c a"
    and sim_step: "rel c a \<Longrightarrow> cstep c c' \<Longrightarrow> \<exists>a'. (astep a a' \<or> a' = a) \<and> rel c' a'"
begin

lemma reach_refines: "reach cinit cstep c \<Longrightarrow> \<exists>a. reach ainit astep a \<and> rel c a"
proof (induction rule: reach.induct)
  case (reach_init c)
  then show ?case using sim_init reach.reach_init by metis
next
  case (reach_step c c')
  then obtain a a' where "reach ainit astep a" "astep a a' \<or> a' = a" "rel c' a'" using sim_step by metis
  then show ?case using reach.reach_step by metis
qed

end

text \<open>Runs with labels: a label says what was asked for and what was observed. Under a simulation that keeps the labels, every run of
  the concrete system is a run of the abstract one with the same labels.\<close>

inductive trace :: "('s \<Rightarrow> 'l \<Rightarrow> 's \<Rightarrow> bool) \<Rightarrow> 's \<Rightarrow> 'l list \<Rightarrow> 's \<Rightarrow> bool" for step :: "'s \<Rightarrow> 'l \<Rightarrow> 's \<Rightarrow> bool" where
  trace_Nil: "trace step s [] s"
| trace_Cons: "step s l t \<Longrightarrow> trace step t ls u \<Longrightarrow> trace step s (l # ls) u"

inductive_simps trace_Nil_iff [simp]: "trace step s [] u"
inductive_simps trace_Cons_iff: "trace step s (l # ls) u"

locale labelled_simulation =
  fixes cstep :: "'c \<Rightarrow> 'l \<Rightarrow> 'c \<Rightarrow> bool" and astep :: "'a \<Rightarrow> 'l \<Rightarrow> 'a \<Rightarrow> bool" and rel :: "'c \<Rightarrow> 'a \<Rightarrow> bool"
  assumes label_step: "rel c a \<Longrightarrow> cstep c l c' \<Longrightarrow> \<exists>a'. astep a l a' \<and> rel c' a'"
begin

lemma trace_refines: "trace cstep c ls c' \<Longrightarrow> rel c a \<Longrightarrow> \<exists>a'. trace astep a ls a' \<and> rel c' a'"
proof (induction arbitrary: a rule: trace.induct)
  case (trace_Nil c)
  then show ?case by auto
next
  case (trace_Cons c l c1 ls c2)
  then show ?case using label_step trace.trace_Cons by metis
qed

end

end
