(* ===== verification/Fnv_Hash.thy ===== *)
theory Fnv_Hash
  imports Lab_Prelude
begin

text \<open>
  The FNV-1 hashes of Go's \<open>hash/fnv\<close> (\<open>New32\<close> and \<open>New64\<close>: multiply by the prime, then
  exclusive-or the byte), and the two places that place keys with them:
  \<open>kv.GetShardForKey\<close> (\<open>lab4/kv/util.go\<close>) and \<open>getUserId\<close> of the front end
  (\<open>lab1/cmd/frontend/frontend.go\<close>).
\<close>

definition fnv32 :: "byte list \<Rightarrow> u32" where
  "fnv32 bs = fold (\<lambda>b h. (h * 16777619) XOR ucast b) bs 2166136261"

definition fnv64 :: "byte list \<Rightarrow> u64" where
  "fnv64 bs = fold (\<lambda>b h. (h * 1099511628211) XOR ucast b) bs 14695981039346656037"

definition GetShardForKey :: "string \<Rightarrow> int \<Rightarrow> int go" where
  "GetShardForKey key numShards =
     go_bind (go_rem (uint (fnv32 (bytes_of key))) numShards) (\<lambda>r. Ret (r + 1))"

definition getUserId :: "string \<Rightarrow> u64" where
  "getUserId netId = fnv64 (bytes_of netId) mod 5000 + 200000"

text \<open>Published test vectors of the two hashes.\<close>

lemma fnv32_vectors: "fnv32 [] = 0x811c9dc5" "fnv32 (bytes_of ''a'') = 0x050c5d7e"
  by (simp_all add: fnv32_def bytes_of_def)

lemma fnv64_vectors: "fnv64 [] = 0xcbf29ce484222325" "fnv64 (bytes_of ''a'') = 0xaf63bd4c8601b7be"
  by (simp_all add: fnv64_def bytes_of_def)

lemma GetShardForKey_pos:
  "0 < n \<Longrightarrow> GetShardForKey key n = Ret (uint (fnv32 (bytes_of key)) mod n + 1)"
  by (simp add: GetShardForKey_def go_rem_nonneg)

lemma GetShardForKey_range:
  assumes "0 < n"
  shows "\<exists>shard. GetShardForKey key n = Ret shard \<and> 1 \<le> shard \<and> shard \<le> n"
  using pos_mod_bound [OF assms, of "uint (fnv32 (bytes_of key))"]
    pos_mod_sign [OF assms, of "uint (fnv32 (bytes_of key))"]
  by (auto simp: GetShardForKey_pos [OF assms])

lemma unat_getUserId: "unat (getUserId netId) = unat (fnv64 (bytes_of netId)) mod 5000 + 200000"
proof -
  let ?h = "fnv64 (bytes_of netId) mod 5000"
  have u: "unat ?h = unat (fnv64 (bytes_of netId)) mod 5000"
    by (simp add: unat_mod_distrib)
  have "unat ?h < 5000" by (simp add: u)
  then have "unat ?h + unat (200000 :: u64) < 2 ^ LENGTH(64)" by simp
  then have "unat (?h + 200000) = unat ?h + unat (200000 :: u64)"
    by (subst (asm) unat_add_lem) simp
  then show ?thesis by (simp add: getUserId_def u)
qed

lemma getUserId_bounds: "200000 \<le> unat (getUserId netId)" "unat (getUserId netId) < 205000"
  by (simp_all add: unat_getUserId)

end
