(* ===== verification/Shard_Map.thy ===== *)
theory Shard_Map
  imports Fnv_Hash
begin

text \<open>
  \<open>lab4/kv/shardmap.go\<close>: the shard map state, its validity check, the lookups in both
  directions, and the registration of listeners. \<open>ShardMap.state\<close> is an \<open>atomic.Value\<close>: it is
  empty before the first \<open>Update\<close>, and reading it then panics in the type assertion of
  \<open>GetState\<close>. Concurrent use of \<open>Update\<close>, \<open>MakeListener\<close> and \<open>Close\<close> is in
  \<open>Shard_Map_Conc\<close>.
\<close>

subsection \<open>The state\<close>

record NodeInfo =
  Address :: string
  Port :: "32 word"

record ShardMapState =
  Nodes :: "(string, NodeInfo) gomap"
  ShardsToNodes :: "(int, string list) gomap"
  NumShards :: int

type_synonym chan_id = nat

record ShardMap =
  sm_state :: "ShardMapState option"
  updateChannels :: "(int, chan_id) gomap"
  updateChannelCounter :: int

record ShardMapListener =
  l_ch :: chan_id
  l_id :: int

definition zero_ShardMap :: ShardMap where
  "zero_ShardMap = \<lparr>sm_state = None, updateChannels = [], updateChannelCounter = 0\<rparr>"

subsection \<open>IsValid\<close>

text \<open>The inner loop over the nodes of one shard; \<open>seen\<close> is the local \<open>nodeSet\<close>.\<close>

fun nodes_ok :: "(string, NodeInfo) gomap \<Rightarrow> string list \<Rightarrow> string list \<Rightarrow> bool" where
  "nodes_ok known seen [] = True"
| "nodes_ok known seen (node # nodes) =
     (if gm_get known node = None then False
      else if node \<in> set seen then False
      else nodes_ok known (node # seen) nodes)"

text \<open>The outer loop over the entries of \<open>ShardsToNodes\<close>.\<close>

fun shards_ok :: "ShardMapState \<Rightarrow> (int \<times> string list) list \<Rightarrow> bool" where
  "shards_ok st [] = True"
| "shards_ok st ((shard, nodes) # rest) =
     (if shard < 1 \<or> shard > NumShards st then False
      else if \<not> nodes_ok (Nodes st) [] nodes then False
      else shards_ok st rest)"

definition IsValid :: "ShardMapState \<Rightarrow> bool" where
  "IsValid st =
     (if int (length (ShardsToNodes st)) > NumShards st then False
      else shards_ok st (ShardsToNodes st))"

subsection \<open>Reading the map\<close>

definition GetState :: "ShardMap \<Rightarrow> ShardMapState go" where
  "GetState sm = (case sm_state sm of None \<Rightarrow> Panic ''interface conversion'' | Some st \<Rightarrow> Ret st)"

definition sm_Nodes :: "ShardMap \<Rightarrow> (string, NodeInfo) gomap go" where
  "sm_Nodes sm = go_bind (GetState sm) (\<lambda>st. Ret (Nodes st))"

definition sm_NumShards :: "ShardMap \<Rightarrow> int go" where
  "sm_NumShards sm = go_bind (GetState sm) (\<lambda>st. Ret (NumShards st))"

definition shards_for_node :: "ShardMapState \<Rightarrow> string \<Rightarrow> int list" where
  "shards_for_node st nodeName =
     [shard. (shard, nodes) \<leftarrow> ShardsToNodes st, node \<leftarrow> nodes, node = nodeName]"

definition ShardsForNode :: "ShardMap \<Rightarrow> string \<Rightarrow> int list go" where
  "ShardsForNode sm nodeName = go_bind (GetState sm) (\<lambda>st. Ret (shards_for_node st nodeName))"

definition nodes_for_shard :: "ShardMapState \<Rightarrow> int \<Rightarrow> string list" where
  "nodes_for_shard st shard =
     (case gm_get (ShardsToNodes st) shard of None \<Rightarrow> [] | Some nodeNames \<Rightarrow> nodeNames)"

definition NodesForShard :: "ShardMap \<Rightarrow> int \<Rightarrow> string list go" where
  "NodesForShard sm shard = go_bind (GetState sm) (\<lambda>st. Ret (nodes_for_shard st shard))"

subsection \<open>Listeners\<close>

text \<open>\<open>ch\<close> is the channel made by \<open>make(chan struct{})\<close>, fresh for the caller.\<close>

definition MakeListener :: "chan_id \<Rightarrow> ShardMap \<Rightarrow> ShardMapListener \<times> ShardMap" where
  "MakeListener ch sm =
     (let i = updateChannelCounter sm
      in (\<lparr>l_ch = ch, l_id = i\<rparr>,
          sm\<lparr>updateChannelCounter := i + 1, updateChannels := gm_put i ch (updateChannels sm)\<rparr>))"

definition UpdateChannel :: "ShardMapListener \<Rightarrow> chan_id" where
  "UpdateChannel l = l_ch l"

text \<open>The state change of \<open>Update\<close>, before it notifies the channels.\<close>

definition sm_Swap :: "ShardMapState \<Rightarrow> ShardMap \<Rightarrow> ShardMap" where
  "sm_Swap st sm = sm\<lparr>sm_state := Some st\<rparr>"

definition sm_Unregister :: "ShardMapListener \<Rightarrow> ShardMap \<Rightarrow> ShardMap" where
  "sm_Unregister l sm = sm\<lparr>updateChannels := gm_del (l_id l) (updateChannels sm)\<rparr>"

subsection \<open>Well-formed states\<close>

definition state_wf :: "ShardMapState \<Rightarrow> bool" where
  "state_wf st \<longleftrightarrow> gm_wf (Nodes st) \<and> gm_wf (ShardsToNodes st)"

text \<open>What a valid state is, without the loops.\<close>

definition valid_spec :: "ShardMapState \<Rightarrow> bool" where
  "valid_spec st \<longleftrightarrow>
     (\<forall>(shard, nodes) \<in> set (ShardsToNodes st).
        1 \<le> shard \<and> shard \<le> NumShards st \<and> distinct nodes \<and>
        set nodes \<subseteq> set (gm_keys (Nodes st)))
     \<and> 0 \<le> NumShards st"

subsection \<open>Facts about validity\<close>

lemma nodes_ok_iff:
  "nodes_ok known seen nodes \<longleftrightarrow>
     distinct nodes \<and> set nodes \<inter> set seen = {} \<and> set nodes \<subseteq> set (gm_keys known)"
  by (induction nodes arbitrary: seen) (auto simp: map_of_eq_None_iff)

lemma shards_ok_iff:
  "shards_ok st xs \<longleftrightarrow>
     (\<forall>(shard, nodes) \<in> set xs.
        1 \<le> shard \<and> shard \<le> NumShards st \<and> distinct nodes \<and> set nodes \<subseteq> set (gm_keys (Nodes st)))"
  by (induction xs) (simp, fastforce simp: nodes_ok_iff split: if_splits)

lemma shards_ok_length:
  assumes "shards_ok st (ShardsToNodes st)" and "gm_wf (ShardsToNodes st)" and "0 \<le> NumShards st"
  shows "int (length (ShardsToNodes st)) \<le> NumShards st"
proof -
  let ?ks = "gm_keys (ShardsToNodes st)"
  have sub: "set ?ks \<subseteq> {1..NumShards st}"
    using assms(1) by (auto simp: shards_ok_iff)
  have "length ?ks = card (set ?ks)"
    using assms(2) distinct_card [of ?ks] by (simp add: gm_wf_def)
  also have "\<dots> \<le> card {1..NumShards st}"
    using sub by (intro card_mono) auto
  finally show ?thesis using assms(3) by simp
qed

lemma IsValid_imp_spec: "IsValid st \<Longrightarrow> valid_spec st"
  by (auto simp: IsValid_def valid_spec_def shards_ok_iff split: if_splits)

lemma IsValid_iff_spec: "state_wf st \<Longrightarrow> IsValid st \<longleftrightarrow> valid_spec st"
  using shards_ok_length [of st]
  by (auto simp: state_wf_def IsValid_def valid_spec_def shards_ok_iff split: if_splits)

lemma IsValid_gm_iff:
  assumes "state_wf st"
  shows "IsValid st \<longleftrightarrow>
    0 \<le> NumShards st \<and>
    (\<forall>shard nodes. gm_get (ShardsToNodes st) shard = Some nodes \<longrightarrow>
       1 \<le> shard \<and> shard \<le> NumShards st \<and> distinct nodes \<and>
       (\<forall>node \<in> set nodes. gm_get (Nodes st) node \<noteq> None))"
proof -
  have wf: "gm_wf (ShardsToNodes st)" using assms by (simp add: state_wf_def)
  show ?thesis
    unfolding IsValid_iff_spec [OF assms] valid_spec_def gm_ball [OF wf] gm_get_keys
    by auto
qed

text \<open>Replacing the nodes of one shard.\<close>

abbreviation put_shard :: "int \<Rightarrow> string list \<Rightarrow> ShardMapState \<Rightarrow> ShardMapState" where
  "put_shard shard ns st \<equiv> st\<lparr>ShardsToNodes := gm_put shard ns (ShardsToNodes st)\<rparr>"

lemma nodes_for_shard_put [simp]:
  "nodes_for_shard (put_shard shard ns st) x = (if x = shard then ns else nodes_for_shard st x)"
  by (simp add: nodes_for_shard_def)

lemma put_shard_wf [simp, intro]: "state_wf st \<Longrightarrow> state_wf (put_shard shard ns st)"
  by (simp add: state_wf_def)

lemma put_shard_valid [intro]:
  assumes "IsValid st" "state_wf st" "1 \<le> shard" "shard \<le> NumShards st" "distinct ns"
    "set ns \<subseteq> set (gm_keys (Nodes st))"
  shows "IsValid (put_shard shard ns st)"
proof -
  have "gm_get (Nodes st) n \<noteq> None" if "n \<in> set ns" for n
    using assms(6) that by (auto simp: map_of_eq_None_iff)
  then show ?thesis
    using assms(1,3-5) unfolding IsValid_gm_iff [OF assms(2)] IsValid_gm_iff [OF put_shard_wf [OF assms(2)]]
    by auto
qed

lemma IsValid_nodes_for_shard:
  assumes "IsValid st" and "state_wf st"
  shows "distinct (nodes_for_shard st shard)"
    and "set (nodes_for_shard st shard) \<subseteq> set (gm_keys (Nodes st))"
  using IsValid_imp_spec [OF assms(1)]
  by (cases "gm_get (ShardsToNodes st) shard";
      fastforce simp: valid_spec_def nodes_for_shard_def dest: map_of_SomeD)+

subsection \<open>Facts about the lookups\<close>

lemma shards_for_node_iff_mem:
  "shard \<in> set (shards_for_node st node) \<longleftrightarrow>
     (\<exists>nodes. (shard, nodes) \<in> set (ShardsToNodes st) \<and> node \<in> set nodes)"
  by (auto simp: shards_for_node_def)

lemma shards_for_node_dual:
  "gm_wf (ShardsToNodes st) \<Longrightarrow>
     shard \<in> set (shards_for_node st node) \<longleftrightarrow> node \<in> set (nodes_for_shard st shard)"
  by (cases "gm_get (ShardsToNodes st) shard")
    (auto simp: shards_for_node_iff_mem nodes_for_shard_def gm_get_mem)

lemma filter_eq_distinct: "distinct xs \<Longrightarrow> filter (\<lambda>y. y = x) xs = (if x \<in> set xs then [x] else [])"
  by (induction xs) auto

lemma shards_for_node_entry:
  "[shard. node \<leftarrow> nodes, node = x] = replicate (count_list nodes x) shard"
  by (induction nodes) auto

lemma shards_for_node_count:
  "shards_for_node st x = concat (map (\<lambda>(shard, nodes). replicate (count_list nodes x) shard) (ShardsToNodes st))"
  by (simp add: shards_for_node_def shards_for_node_entry case_prod_unfold)

lemma count_list_le_1: "distinct xs \<Longrightarrow> count_list xs x = (if x \<in> set xs then 1 else 0)"
  by (induction xs) auto

lemma distinct_concat_replicate:
  assumes "distinct (map fst xs)" and "\<forall>(k, v) \<in> set xs. f v \<le> (1 :: nat)"
  shows "distinct (concat (map (\<lambda>(k, v). replicate (f v) k) xs))"
  using assms
proof (induction xs)
  case (Cons p xs)
  obtain k v where p: "p = (k, v)" by (cases p)
  have "f v = 0 \<or> f v = 1" using Cons.prems(2) p by auto
  moreover have "k \<notin> set (concat (map (\<lambda>(k, v). replicate (f v) k) xs))"
    using Cons.prems(1) p by (force split: prod.splits if_splits)
  moreover have "distinct (concat (map (\<lambda>(k, v). replicate (f v) k) xs))"
    using Cons by auto
  ultimately show ?case by (auto simp: p)
qed simp

lemma shards_for_node_distinct:
  assumes "IsValid st" and "gm_wf (ShardsToNodes st)"
  shows "distinct (shards_for_node st node)"
  unfolding shards_for_node_count
  using assms(2) IsValid_imp_spec [OF assms(1)]
  by (intro distinct_concat_replicate [where f = "\<lambda>ns. count_list ns node"])
    (auto simp: gm_wf_def valid_spec_def count_list_le_1)

lemma shards_for_node_perm:
  assumes "mset (ShardsToNodes st) = mset (ShardsToNodes st')"
  shows "mset (shards_for_node st node) = mset (shards_for_node st' node)"
proof -
  let ?f = "\<lambda>(shard, nodes). mset (replicate (count_list nodes node) shard)"
  have "mset (shards_for_node s node) = sum_mset (image_mset ?f (mset (ShardsToNodes s)))" for s
    unfolding shards_for_node_count
    by (induction "ShardsToNodes s" arbitrary: s)
      (auto simp: mset_concat sum_mset_sum_list [symmetric] case_prod_unfold comp_def)
  then show ?thesis using assms by simp
qed

subsection \<open>A directory of replicas\<close>

text \<open>
  What the clients of the shard map rely on: the two lookups are converse to each other, and
  neither lists anything twice. The workflows of the test setup and the root theory use the
  consequences through the interpretation below.
\<close>

locale shard_directory =
  fixes nodes_of :: "'st \<Rightarrow> 'shard \<Rightarrow> 'node list"
    and shards_of :: "'st \<Rightarrow> 'node \<Rightarrow> 'shard list"
    and good :: "'st \<Rightarrow> bool"
  assumes dual: "good st \<Longrightarrow> x \<in> set (shards_of st n) \<longleftrightarrow> n \<in> set (nodes_of st x)"
    and distinct_nodes: "good st \<Longrightarrow> distinct (nodes_of st x)"
    and distinct_shards: "good st \<Longrightarrow> distinct (shards_of st n)"
begin

lemma unhosted: "good st \<Longrightarrow> shards_of st n = [] \<longleftrightarrow> (\<forall>x. n \<notin> set (nodes_of st x))"
  using dual by (metis empty_iff ex_in_conv set_empty)

text \<open>Counting replicas by node or by shard gives the same number.\<close>

lemma replica_count:
  assumes "good st" "finite N" "finite S"
    and "\<And>n. n \<in> N \<Longrightarrow> set (shards_of st n) \<subseteq> S" "\<And>x. x \<in> S \<Longrightarrow> set (nodes_of st x) \<subseteq> N"
  shows "(\<Sum>n\<in>N. length (shards_of st n)) = (\<Sum>x\<in>S. length (nodes_of st x))"
proof -
  have "(\<Sum>n\<in>N. length (shards_of st n)) = (\<Sum>n\<in>N. card {x \<in> S. n \<in> set (nodes_of st x)})"
  proof (rule sum.cong [OF refl])
    fix n assume "n \<in> N"
    then have "set (shards_of st n) = {x \<in> S. n \<in> set (nodes_of st x)}"
      using assms(1,4) dual by blast
    then show "length (shards_of st n) = card {x \<in> S. n \<in> set (nodes_of st x)}"
      using distinct_shards [OF assms(1)] distinct_card by metis
  qed
  also have "\<dots> = (\<Sum>x\<in>S. card {n \<in> N. n \<in> set (nodes_of st x)})"
    using sum_multicount_gen [OF assms(2,3), of "\<lambda>n x. n \<in> set (nodes_of st x)"
        "\<lambda>x. card {n \<in> N. n \<in> set (nodes_of st x)}"] by simp
  also have "\<dots> = (\<Sum>x\<in>S. length (nodes_of st x))"
  proof (rule sum.cong [OF refl])
    fix x assume "x \<in> S"
    then have "{n \<in> N. n \<in> set (nodes_of st x)} = set (nodes_of st x)" using assms(5) by blast
    then show "card {n \<in> N. n \<in> set (nodes_of st x)} = length (nodes_of st x)"
      using distinct_nodes [OF assms(1)] distinct_card by metis
  qed
  finally show ?thesis .
qed

end

interpretation sd: shard_directory nodes_for_shard shards_for_node "\<lambda>st. IsValid st \<and> state_wf st"
  by unfold_locales
    (auto simp: state_wf_def shards_for_node_dual shards_for_node_distinct IsValid_nodes_for_shard)

subsection \<open>Properties\<close>

definition example_state :: ShardMapState where
  "example_state =
     \<lparr>Nodes = [(''n1'', \<lparr>Address = '''', Port = 1\<rparr>), (''n2'', \<lparr>Address = '''', Port = 2\<rparr>),
               (''n3'', \<lparr>Address = '''', Port = 3\<rparr>)],
      ShardsToNodes = [(1, [''n1'', ''n2'']), (2, [''n2'']), (3, [])],
      NumShards = 3\<rparr>"

lemma example_state_valid: "IsValid example_state" "state_wf example_state"
  by (simp_all add: example_state_def IsValid_def state_wf_def gm_wf_def)

text \<open>
  C7: the loops of \<open>IsValid\<close> accept exactly the states in which every shard number lies in
  \<open>1..NumShards\<close>, and the nodes listed for a shard are known and pairwise different.
\<close>

theorem IsValid_correct:
  assumes "state_wf st"
  shows "IsValid st \<longleftrightarrow>
    0 \<le> NumShards st \<and>
    (\<forall>shard nodes. gm_get (ShardsToNodes st) shard = Some nodes \<longrightarrow>
       1 \<le> shard \<and> shard \<le> NumShards st \<and> distinct nodes \<and>
       (\<forall>node \<in> set nodes. gm_get (Nodes st) node \<noteq> None))"
  using assms by (rule IsValid_gm_iff)

theorem IsValid_correct_witness:
  "IsValid example_state \<and> NumShards example_state = 3 \<and> distinct [''n1'', ''n2'']"
proof -
  have "gm_get (ShardsToNodes example_state) 1 = Some [''n1'', ''n2'']"
    by (simp add: example_state_def)
  then have "distinct [''n1'', ''n2'']"
    using IsValid_correct [OF example_state_valid(2)] example_state_valid(1) by blast
  then show ?thesis using example_state_valid(1) by (simp add: example_state_def)
qed

text \<open>
  The verdict of \<open>IsValid\<close> does not depend on the order in which Go happens to iterate over
  its two maps.
\<close>

theorem IsValid_order_independent:
  assumes "state_wf st"
    and "mset (Nodes st) = mset (Nodes st')"
    and "mset (ShardsToNodes st) = mset (ShardsToNodes st')"
    and "NumShards st = NumShards st'"
  shows "IsValid st = IsValid st'"
proof -
  have "state_wf st'"
    using assms(1) gm_wf_perm [OF assms(2)] gm_wf_perm [OF assms(3)] by (simp add: state_wf_def)
  moreover have "set (Nodes st) = set (Nodes st')" "set (ShardsToNodes st) = set (ShardsToNodes st')"
    using assms(2,3) by (auto dest: mset_eq_setD)
  ultimately show ?thesis
    using assms(1,4) by (simp add: IsValid_iff_spec valid_spec_def)
qed

theorem IsValid_order_independent_witness:
  "IsValid (example_state\<lparr>ShardsToNodes := rev (ShardsToNodes example_state)\<rparr>)"
proof -
  have "IsValid example_state = IsValid (example_state\<lparr>ShardsToNodes := rev (ShardsToNodes example_state)\<rparr>)"
    by (rule IsValid_order_independent) (simp_all add: example_state_valid)
  then show ?thesis using example_state_valid(1) by blast
qed

text \<open>
  C12: on a valid state \<open>ShardsForNode\<close> and \<open>NodesForShard\<close> answer the same question from both
  sides: a shard is listed for a node exactly when the node is listed for the shard, nothing is
  listed twice, and every node listed is a node of the cluster.
\<close>

theorem ShardsForNode_NodesForShard:
  assumes "sm_state sm = Some st" and "IsValid st" and "state_wf st"
  shows "\<exists>shards nodes.
    ShardsForNode sm node = Ret shards \<and> NodesForShard sm shard = Ret nodes \<and>
    (shard \<in> set shards \<longleftrightarrow> node \<in> set nodes) \<and>
    distinct shards \<and> distinct nodes \<and> (\<forall>n \<in> set nodes. gm_get (Nodes st) n \<noteq> None)"
proof (intro exI conjI)
  show "ShardsForNode sm node = Ret (shards_for_node st node)"
    and "NodesForShard sm shard = Ret (nodes_for_shard st shard)"
    using assms(1) by (simp_all add: ShardsForNode_def NodesForShard_def GetState_def)
  show "\<forall>n \<in> set (nodes_for_shard st shard). gm_get (Nodes st) n \<noteq> None"
    using IsValid_nodes_for_shard(2) [OF assms(2,3), of shard] by (auto simp: map_of_eq_None_iff)
qed (use assms(2,3) sd.dual sd.distinct_nodes sd.distinct_shards in auto)

theorem ShardsForNode_NodesForShard_witness:
  "\<exists>shards nodes.
     ShardsForNode (zero_ShardMap\<lparr>sm_state := Some example_state\<rparr>) ''n2'' = Ret shards \<and>
     NodesForShard (zero_ShardMap\<lparr>sm_state := Some example_state\<rparr>) 1 = Ret nodes \<and>
     (1 \<in> set shards \<longleftrightarrow> ''n2'' \<in> set nodes)"
  using ShardsForNode_NodesForShard [of "zero_ShardMap\<lparr>sm_state := Some example_state\<rparr>"
      example_state "''n2''" 1] example_state_valid by auto

text \<open>
  On a valid state the number of replicas is the same whether it is counted over the nodes
  of the cluster (\<open>ShardsForNode\<close>) or over the shards \<open>1..NumShards\<close> (\<open>NodesForShard\<close>).
\<close>

theorem replicas_counted_both_ways:
  assumes "IsValid st" and "state_wf st"
  shows "(\<Sum>node \<in> set (gm_keys (Nodes st)). length (shards_for_node st node)) =
         (\<Sum>shard \<in> {1..NumShards st}. length (nodes_for_shard st shard))"
proof (rule sd.replica_count)
  show "set (shards_for_node st node) \<subseteq> {1..NumShards st}" for node
    using IsValid_imp_spec [OF assms(1)] by (auto simp: shards_for_node_iff_mem valid_spec_def)
qed (use assms IsValid_nodes_for_shard in auto)

theorem replicas_counted_both_ways_witness:
  "(\<Sum>shard \<in> {1..3}. length (nodes_for_shard example_state shard)) = 3"
proof -
  have "NumShards example_state = 3" by (simp add: example_state_def)
  then show ?thesis
    using replicas_counted_both_ways [OF example_state_valid]
    by (simp add: example_state_def shards_for_node_def)
qed

text \<open>
  \<open>GetShardForKey\<close> places every key on one of the shards \<open>1..numShards\<close>; with no
  shards at all it panics.
\<close>

theorem GetShardForKey_in_range:
  "(0 < numShards \<longrightarrow> (\<exists>shard. GetShardForKey key numShards = Ret shard \<and> 1 \<le> shard \<and> shard \<le> numShards))
   \<and> GetShardForKey key 0 = Panic ''integer divide by zero''"
  using GetShardForKey_range by (simp add: GetShardForKey_def)

theorem GetShardForKey_in_range_witness:
  "\<exists>shard. GetShardForKey ''abc'' 5 = Ret shard \<and> 1 \<le> shard \<and> shard \<le> 5"
  using GetShardForKey_in_range [of 5 "''abc''"] by simp

end
