(* ===== verification/Test_Setup.thy ===== *)
theory Test_Setup
  imports Shard_Map
begin

text \<open>
  \<open>lab4/kv/test/test_setup.go\<close>: the replica adjustment and shard movement workflows that
  drive the cluster. Each workflow copies the state, edits the copy through
  \<open>addReplicasForShard\<close> and \<open>dropReplicasForShard\<close>, and publishes it with
  \<open>UpdateShardMapping\<close>. \<open>error\<close> results are \<open>string option\<close> (\<open>None\<close> is \<open>nil\<close>); slice
  accesses that could be out of range are explicit panics.
\<close>

subsection \<open>rand.Perm\<close>

text \<open>The library's loop: \<open>j := Intn(i+1); m[i] = m[j]; m[j] = i\<close>.\<close>

fun Perm_loop :: "nat \<Rightarrow> nat \<Rightarrow> nat list \<Rightarrow> rng \<Rightarrow> nat list \<times> rng" where
  "Perm_loop 0 i m r = (m, r)"
| "Perm_loop (Suc k) i m r =
     (let (j, r') = draw (Suc i) r
      in Perm_loop k (Suc i) ((m @ [i])[i := (m @ [i]) ! j, j := i]) r')"

definition Perm :: "nat \<Rightarrow> rng \<Rightarrow> nat list \<times> rng" where
  "Perm n r = Perm_loop n 0 [] r"

subsection \<open>Helpers\<close>

definition nodesExcept :: "string list \<Rightarrow> string \<Rightarrow> string list" where
  "nodesExcept nodes nodeToRemove = [node \<leftarrow> nodes. node \<noteq> nodeToRemove]"

definition sliceToMap :: "string list \<Rightarrow> (string, unit) gomap" where
  "sliceToMap nodes = fold (\<lambda>node nodeSet. gm_put node () nodeSet) nodes []"

definition copyShardMapState :: "ShardMapState \<Rightarrow> ShardMapState" where
  "copyShardMapState src =
     \<lparr>Nodes = fold (\<lambda>(nodeName, node) m. gm_put nodeName node m) (Nodes src) [],
      ShardsToNodes = fold (\<lambda>(shard, nodes) m. gm_put shard nodes m) (ShardsToNodes src) [],
      NumShards = NumShards src\<rparr>"

definition UpdateShardMapping :: "(int, string list) gomap \<Rightarrow> ShardMap \<Rightarrow> ShardMap go" where
  "UpdateShardMapping shardsToNodes sm =
     go_bind (sm_Nodes sm) (\<lambda>nodes. go_bind (sm_NumShards sm) (\<lambda>num.
       let state = \<lparr>Nodes = nodes, ShardsToNodes = shardsToNodes, NumShards = num\<rparr>
       in Ret (sm_Swap state (sm_Swap state sm))))"

text \<open>The loop \<open>for i := 0; i < cnt; i++ { nodes = append(nodes, opts[perm[i]]) }\<close>.\<close>

definition append_picks :: "string list \<Rightarrow> nat list \<Rightarrow> int \<Rightarrow> string list \<Rightarrow> string list go" where
  "append_picks opts perm cnt nodes =
     go_foreach (\<lambda>i acc. go_bind (go_index perm (int i)) (\<lambda>p.
       go_bind (go_index opts (int p)) (\<lambda>x. Ret (acc @ [x])))) [0..<nat cnt] nodes"

subsection \<open>Adding and dropping replicas\<close>

text \<open>The loop that adds \<open>dstNodes\<close> first; \<open>None\<close> when a node is already present.\<close>

fun add_dstNodes :: "string list \<Rightarrow> (string, unit) gomap \<Rightarrow> string list \<Rightarrow>
    (string list \<times> (string, unit) gomap) option" where
  "add_dstNodes nodes nodesSet [] = Some (nodes, nodesSet)"
| "add_dstNodes nodes nodesSet (node # dst) =
     (if gm_get nodesSet node \<noteq> None then None
      else add_dstNodes (nodes @ [node]) (gm_put node () nodesSet) dst)"

definition addReplicasForShard :: "ShardMapState \<Rightarrow> int \<Rightarrow> int \<Rightarrow> string list \<Rightarrow> rng \<Rightarrow>
    (string option \<times> ShardMapState \<times> rng) go" where
  "addReplicasForShard st shard numReplicasToAdd dstNodes r =
     (let nodes = gm_getz [] (ShardsToNodes st) shard in
      if int (length nodes) + numReplicasToAdd > int (length (Nodes st))
      then Ret (Some ''not enough nodes available to satisfy replication requirement'', st, r)
      else (case add_dstNodes nodes (sliceToMap nodes) dstNodes of
        None \<Rightarrow> Ret (Some ''dstNode already added'', st, r)
      | Some (nodes, nodesSet) \<Rightarrow>
          if length (Nodes st) < length nodes then Panic ''makeslice: cap out of range''
          else
            let dstOptions = [node \<leftarrow> gm_keys (Nodes st). gm_get nodesSet node = None];
                (perm, r') = Perm (length dstOptions) r
            in go_bind (append_picks dstOptions perm (numReplicasToAdd - int (length dstNodes)) nodes)
                 (\<lambda>nodes. Ret (None, st\<lparr>ShardsToNodes := gm_put shard nodes (ShardsToNodes st)\<rparr>, r'))))"

text \<open>The loop that drops \<open>srcNodes\<close>: the remaining candidates and what is left of the set.\<close>

fun drop_srcNodes :: "string list \<Rightarrow> (string, unit) gomap \<Rightarrow> string list \<times> (string, unit) gomap" where
  "drop_srcNodes [] srcNodesSet = ([], srcNodesSet)"
| "drop_srcNodes (node # nodes) srcNodesSet =
     (if gm_get srcNodesSet node = None
      then (let (candidates, rest) = drop_srcNodes nodes srcNodesSet in (node # candidates, rest))
      else drop_srcNodes nodes (gm_del node srcNodesSet))"

definition dropReplicasForShard :: "ShardMapState \<Rightarrow> int \<Rightarrow> int \<Rightarrow> string list \<Rightarrow> rng \<Rightarrow>
    (string option \<times> ShardMapState \<times> rng) go" where
  "dropReplicasForShard st shard numReplicasToDrop srcNodes r =
     (let nodes = gm_getz [] (ShardsToNodes st) shard;
          numCurrentNodes = int (length nodes) in
      if numCurrentNodes < numReplicasToDrop
      then Ret (Some ''attempting to drop too many replicas'', st, r)
      else if int (length srcNodes) > numReplicasToDrop
      then Ret (Some ''provided too many srcNodes'', st, r)
      else
        let (candidates, srcNodesSet) = drop_srcNodes nodes (sliceToMap srcNodes) in
        if srcNodesSet \<noteq> [] then Ret (Some ''srcNodes not in the node set'', st, r)
        else
          let (perm, r') = Perm (nat (numCurrentNodes - int (length srcNodes))) r
          in go_bind (append_picks candidates perm (numCurrentNodes - numReplicasToDrop) [])
               (\<lambda>nodes. Ret (None, st\<lparr>ShardsToNodes := gm_put shard nodes (ShardsToNodes st)\<rparr>, r')))"

subsection \<open>The workflows\<close>

text \<open>The loop of \<open>RemoveNode\<close> and \<open>DrainNode\<close> that drops a node from a list of shards.\<close>

fun drop_from_shards :: "string \<Rightarrow> int list \<Rightarrow> ShardMapState \<Rightarrow> rng \<Rightarrow>
    (string option \<times> ShardMapState \<times> rng) go" where
  "drop_from_shards node [] st r = Ret (None, st, r)"
| "drop_from_shards node (shard # shards) st r =
     go_bind (dropReplicasForShard st shard 1 [node] r) (\<lambda>(e, st', r').
       case e of Some _ \<Rightarrow> Ret (e, st', r') | None \<Rightarrow> drop_from_shards node shards st' r')"

text \<open>The loop of \<open>DrainNode\<close> that first adds one replica where there is room.\<close>

fun add_to_shards :: "nat \<Rightarrow> int list \<Rightarrow> ShardMapState \<Rightarrow> rng \<Rightarrow>
    (string option \<times> ShardMapState \<times> rng) go" where
  "add_to_shards numNodes [] st r = Ret (None, st, r)"
| "add_to_shards numNodes (shard # shards) st r =
     (if length (gm_getz [] (ShardsToNodes st) shard) < numNodes
      then go_bind (addReplicasForShard st shard 1 [] r) (\<lambda>(e, st', r').
             case e of Some _ \<Rightarrow> Ret (e, st', r') | None \<Rightarrow> add_to_shards numNodes shards st' r')
      else add_to_shards numNodes shards st r)"

definition RemoveNode :: "string \<Rightarrow> ShardMap \<Rightarrow> rng \<Rightarrow> (string option \<times> ShardMap \<times> rng) go" where
  "RemoveNode nodeToRemove sm r =
     go_bind (GetState sm) (\<lambda>st. go_bind (ShardsForNode sm nodeToRemove) (\<lambda>shards.
     go_bind (drop_from_shards nodeToRemove shards (copyShardMapState st) r) (\<lambda>(e, st', r').
     case e of Some _ \<Rightarrow> Ret (e, sm, r')
     | None \<Rightarrow> go_bind (UpdateShardMapping (ShardsToNodes st') sm) (\<lambda>sm'. Ret (None, sm', r')))))"

definition DrainNode :: "string \<Rightarrow> ShardMap \<Rightarrow> rng \<Rightarrow> (string option \<times> ShardMap \<times> rng) go" where
  "DrainNode nodeToDrain sm r =
     go_bind (GetState sm) (\<lambda>st. go_bind (ShardsForNode sm nodeToDrain) (\<lambda>shards.
     go_bind (add_to_shards (length (Nodes st)) shards (copyShardMapState st) r) (\<lambda>(e, st', r').
     case e of Some _ \<Rightarrow> Ret (e, sm, r')
     | None \<Rightarrow> go_bind (UpdateShardMapping (ShardsToNodes st') sm) (\<lambda>sm'.
         go_bind (GetState sm') (\<lambda>st''.
         go_bind (drop_from_shards nodeToDrain shards (copyShardMapState st'') r') (\<lambda>(e, st3, r'').
         case e of Some _ \<Rightarrow> Ret (e, sm', r'')
         | None \<Rightarrow> go_bind (UpdateShardMapping (ShardsToNodes st3) sm') (\<lambda>sm3. Ret (None, sm3, r''))))))))"

definition MoveShard :: "int \<Rightarrow> string \<Rightarrow> string \<Rightarrow> ShardMap \<Rightarrow> rng \<Rightarrow> (string option \<times> ShardMap \<times> rng) go" where
  "MoveShard shardToMove srcNode dstNode sm r =
     (if srcNode = dstNode then Ret (None, sm, r)
      else go_bind (GetState sm) (\<lambda>st.
        go_bind (addReplicasForShard (copyShardMapState st) shardToMove 1 [dstNode] r) (\<lambda>(e, st', r').
        case e of Some _ \<Rightarrow> Ret (e, sm, r')
        | None \<Rightarrow> go_bind (UpdateShardMapping (ShardsToNodes st') sm) (\<lambda>sm'.
            go_bind (GetState sm') (\<lambda>st''.
            go_bind (dropReplicasForShard (copyShardMapState st'') shardToMove 1 [srcNode] r') (\<lambda>(e, st3, r'').
            case e of Some _ \<Rightarrow> Ret (e, sm', r'')
            | None \<Rightarrow> go_bind (UpdateShardMapping (ShardsToNodes st3) sm') (\<lambda>sm3. Ret (None, sm3, r''))))))))"

definition DropShard :: "int \<Rightarrow> ShardMap \<Rightarrow> rng \<Rightarrow> (string option \<times> ShardMap \<times> rng) go" where
  "DropShard shardToDrop sm r =
     go_bind (GetState sm) (\<lambda>st0. let st = copyShardMapState st0 in
     go_bind (dropReplicasForShard st shardToDrop
                (int (length (gm_getz [] (ShardsToNodes st) shardToDrop))) [] r) (\<lambda>(e, st', r').
     case e of Some _ \<Rightarrow> Ret (e, sm, r')
     | None \<Rightarrow> go_bind (UpdateShardMapping (ShardsToNodes st') sm) (\<lambda>sm'. Ret (None, sm', r'))))"

definition DropRandomShard :: "ShardMap \<Rightarrow> rng \<Rightarrow> (string option \<times> ShardMap \<times> rng) go" where
  "DropRandomShard sm r =
     go_bind (sm_NumShards sm) (\<lambda>n.
     go_bind (go_rem (int (shd r)) n) (\<lambda>x. DropShard (x + 1) sm (stl r)))"

text \<open>
  \<open>MoveRandomShard\<close> draws shards until it finds one that has a host but not everywhere. The
  search may go on for ever (when no shard qualifies), so it is a partial function.
\<close>

partial_function (option) pick_movable :: "ShardMapState \<Rightarrow> rng \<Rightarrow> (int \<times> rng) option" where
  "pick_movable st r =
     (let shard = int (shd r) mod \<bar>NumShards st\<bar> + 1; nodes = nodes_for_shard st shard
      in if 0 < length nodes \<and> length nodes < length (Nodes st) then Some (shard, stl r)
         else pick_movable st (stl r))"

definition MoveRandomShard :: "ShardMap \<Rightarrow> rng \<Rightarrow> (string option \<times> ShardMap \<times> rng) go" where
  "MoveRandomShard sm r =
     go_bind (GetState sm) (\<lambda>st.
     if NumShards st = 0 then Panic ''integer divide by zero''
     else (case pick_movable st r of None \<Rightarrow> Hang
     | Some (shardToMove, r) \<Rightarrow>
         let nodes = nodes_for_shard st shardToMove;
             nodesMap = sliceToMap nodes;
             (i, r) = draw (length nodes) r;
             dstCandidate = [node \<leftarrow> gm_keys (Nodes st). gm_get nodesMap node = None];
             (j, r) = draw (length dstCandidate) r
         in if dstCandidate = [] then Panic ''integer divide by zero''
            else MoveShard shardToMove (nodes ! i) (dstCandidate ! j) sm r))"

subsection \<open>Facts about the helpers\<close>

lemma Perm_loop_mset:
  "length m = i \<Longrightarrow> mset m = mset [0..<i] \<Longrightarrow> mset (fst (Perm_loop k i m r)) = mset [0..<i + k]"
proof (induction k i m r rule: Perm_loop.induct)
  case (2 k i m r)
  obtain j r' where j: "draw (Suc i) r = (j, r')" by (cases "draw (Suc i) r")
  have "j < Suc i" using draw_less [of "Suc i" r] j by simp
  let ?m = "(m @ [i])[i := (m @ [i]) ! j, j := i]"
  have "(m @ [i]) ! i = i" using "2.prems"(1) by (metis nth_append_length)
  then have "mset ?m = mset (m @ [i])"
    using mset_swap [of j "m @ [i]" i] \<open>j < Suc i\<close> "2.prems"(1) by simp
  then have "mset ?m = mset [0..<Suc i]" using "2.prems"(2) by simp
  then show ?case using "2.IH" [OF j [symmetric] refl] "2.prems"(1) j by simp
qed simp

lemma Perm_mset: "mset (fst (Perm n r)) = mset [0..<n]"
  using Perm_loop_mset [of "[]" 0 n r] by (simp add: Perm_def)

lemma Perm_facts:
  "length (fst (Perm n r)) = n" "distinct (fst (Perm n r))" "set (fst (Perm n r)) = {0..<n}"
  using mset_eq_length [OF Perm_mset, of n r] mset_eq_imp_distinct_iff [OF Perm_mset, of n r]
    mset_eq_setD [OF Perm_mset, of n r]
  by simp_all

lemma sliceToMap_get: "gm_get (sliceToMap nodes) x = (if x \<in> set nodes then Some () else None)"
proof -
  have "gm_get (fold (\<lambda>node nodeSet. gm_put node () nodeSet) nodes m) x =
      (if x \<in> set nodes then Some () else gm_get m x)" for m
    by (induction nodes arbitrary: m) auto
  then show ?thesis by (simp add: sliceToMap_def)
qed

lemma fold_gm_put_distinct:
  "distinct (gm_keys m @ gm_keys acc) \<Longrightarrow>
     fold (\<lambda>(k, v) m. gm_put k v m) m acc = acc @ m"
proof (induction m arbitrary: acc)
  case (Cons p m)
  obtain k v where p: "p = (k, v)" by (cases p)
  have "k \<notin> set (gm_keys acc)" using Cons.prems p by auto
  then have "gm_put k v acc = acc @ [(k, v)]" by (induction acc) auto
  then show ?case using Cons.IH [of "acc @ [(k, v)]"] Cons.prems p by simp
qed simp

lemma copyShardMapState_id: "state_wf st \<Longrightarrow> copyShardMapState st = st"
  using fold_gm_put_distinct [of "Nodes st" "[]"] fold_gm_put_distinct [of "ShardsToNodes st" "[]"]
  by (simp add: copyShardMapState_def state_wf_def gm_wf_def)

lemma gm_getz_nodes: "gm_getz [] (ShardsToNodes st) shard = nodes_for_shard st shard"
  by (simp add: gm_getz_def nodes_for_shard_def)

text \<open>Picking through a permutation: enough entries, and every entry in range.\<close>

lemma append_picks_Ret:
  assumes "nat cnt \<le> length perm" and "\<forall>p \<in> set perm. p < length opts"
  shows "append_picks opts perm cnt nodes = Ret (nodes @ map ((!) opts) (take (nat cnt) perm))"
proof -
  have "append_picks opts perm cnt nodes =
      Ret (fold (\<lambda>i acc. acc @ [opts ! (perm ! i)]) [0..<nat cnt] nodes)"
    unfolding append_picks_def
    using assms by (intro go_foreach_Ret) (auto simp: go_index_Ret)
  also have "fold (\<lambda>i acc. acc @ [opts ! (perm ! i)]) [0..<n] nodes
      = nodes @ map (\<lambda>i. opts ! (perm ! i)) [0..<n]" for n
    by (induction n) auto
  also have "map (\<lambda>i. opts ! (perm ! i)) [0..<nat cnt] = map ((!) opts) (take (nat cnt) perm)"
    using assms(1) by (auto simp: list_eq_iff_nth_eq)
  finally show ?thesis .
qed

lemma picks_facts:
  assumes "distinct perm" and "\<forall>p \<in> set perm. p < length opts" and "distinct opts"
  shows "distinct (map ((!) opts) (take n perm))" and "set (map ((!) opts) (take n perm)) \<subseteq> set opts"
  using assms set_take_subset [of n perm]
  by (auto simp: distinct_map inj_on_def nth_eq_iff_index_eq subset_iff)

lemma unit_option_cases [simp]: "(u :: unit option) \<noteq> Some () \<longleftrightarrow> u = None"
  by (cases u) auto

lemma add_dstNodes_Some:
  assumes "add_dstNodes nodes m dst = Some (nodes', m')"
  shows "nodes' = nodes @ dst \<and> distinct dst \<and> (\<forall>x \<in> set dst. gm_get m x = None) \<and>
    (\<forall>x. gm_get m' x = (if x \<in> set dst then Some () else gm_get m x))"
  using assms
proof (induction nodes m dst rule: add_dstNodes.induct)
  case (2 nodes m node dst)
  then have n: "gm_get m node = None"
    and e: "add_dstNodes (nodes @ [node]) (gm_put node () m) dst = Some (nodes', m')"
    by (auto split: if_splits)
  have IH: "nodes' = (nodes @ [node]) @ dst" "distinct dst"
    "\<And>x. x \<in> set dst \<Longrightarrow> gm_get (gm_put node () m) x = None"
    "\<And>x. gm_get m' x = (if x \<in> set dst then Some () else gm_get (gm_put node () m) x)"
    using "2.IH" [OF _ e] n by blast+
  have "node \<notin> set dst" using IH(3) [of node] by auto
  moreover have "gm_get m x = None" if "x \<in> set dst" for x
    using IH(3) [OF that] by (simp split: if_splits)
  ultimately show ?case using IH(1,2) n by (simp add: IH(4))
qed simp

lemma add_dstNodes_ok:
  assumes "distinct dst" and "\<forall>x \<in> set dst. gm_get m x = None"
  shows "\<exists>m'. add_dstNodes nodes m dst = Some (nodes @ dst, m')"
  using assms by (induction nodes m dst rule: add_dstNodes.induct) (simp, force)

lemma drop_srcNodes_fst:
  "distinct nodes \<Longrightarrow> fst (drop_srcNodes nodes m) = [x \<leftarrow> nodes. gm_get m x = None]"
proof (induction nodes m rule: drop_srcNodes.induct)
  case (2 x nodes m)
  have "[y \<leftarrow> nodes. gm_get (gm_del x m) y = None] = [y \<leftarrow> nodes. gm_get m y = None]"
    using "2.prems" by (intro filter_cong) auto
  then show ?case using 2 by (auto split: prod.splits)
qed simp

lemma drop_srcNodes_snd:
  "gm_get (snd (drop_srcNodes nodes m)) x = (if x \<in> set nodes then None else gm_get m x)"
  by (induction nodes m rule: drop_srcNodes.induct) (auto split: prod.splits)

lemma map_of_empty_iff: "(\<forall>x. gm_get m x = None) \<longleftrightarrow> m = []"
  by (cases m) auto

lemma drop_srcNodes_all_dropped:
  "snd (drop_srcNodes nodes (sliceToMap src)) = [] \<longleftrightarrow> set src \<subseteq> set nodes"
  by (subst map_of_empty_iff [symmetric]) (auto simp: drop_srcNodes_snd sliceToMap_get)

subsection \<open>Adding and dropping replicas are correct\<close>

lemma length_filter_notin:
  assumes "distinct xs" and "distinct ys" and "set ys \<subseteq> set xs"
  shows "length [x \<leftarrow> xs. x \<notin> set ys] = length xs - length ys"
proof -
  have "length [x \<leftarrow> xs. x \<notin> set ys] = card (set xs - set ys)"
    using assms(1) by (subst distinct_card [symmetric]) (auto intro: arg_cong [where f = card])
  also have "\<dots> = length xs - length ys"
    using assms by (simp add: card_Diff_subset distinct_card)
  finally show ?thesis .
qed

lemma addReplicasForShard_ok:
  assumes good: "IsValid st" "state_wf st" "1 \<le> shard" "shard \<le> NumShards st"
    and dst: "length dst \<le> k" "distinct dst" "set dst \<subseteq> set (gm_keys (Nodes st))"
      "set dst \<inter> set (nodes_for_shard st shard) = {}"
    and room: "length (nodes_for_shard st shard) + k \<le> length (Nodes st)"
  obtains extra r' where
    "addReplicasForShard st shard (int k) dst r =
       Ret (None, put_shard shard (nodes_for_shard st shard @ dst @ extra) st, r')"
    "length extra = k - length dst" "distinct (nodes_for_shard st shard @ dst @ extra)"
    "set extra \<subseteq> set (gm_keys (Nodes st))"
proof -
  let ?nodes = "nodes_for_shard st shard" and ?keys = "gm_keys (Nodes st)"
  have nd: "distinct ?nodes" "set ?nodes \<subseteq> set ?keys"
    using IsValid_nodes_for_shard good by blast+
  obtain m' where add: "add_dstNodes ?nodes (sliceToMap ?nodes) dst = Some (?nodes @ dst, m')"
    using add_dstNodes_ok [of dst "sliceToMap ?nodes"] dst by (fastforce simp: sliceToMap_get)
  have m': "gm_get m' x = None \<longleftrightarrow> x \<notin> set (?nodes @ dst)" for x
    using add_dstNodes_Some [OF add] by (auto simp: sliceToMap_get)
  define opts where "opts = [node \<leftarrow> ?keys. gm_get m' node = None]"
  have opts: "opts = [node \<leftarrow> ?keys. node \<notin> set (?nodes @ dst)]" by (simp only: opts_def m')
  have keys: "distinct ?keys" using good(2) by (simp add: state_wf_def gm_wf_def)
  have len: "length opts = length (Nodes st) - (length ?nodes + length dst)"
    unfolding opts using length_filter_notin [OF keys, of "?nodes @ dst"] nd dst by auto
  obtain perm r' where perm: "Perm (length opts) r = (perm, r')" by fastforce
  have pf: "length perm = length opts" "distinct perm" "\<forall>p \<in> set perm. p < length opts"
    using Perm_facts [of "length opts" r] perm by auto
  define extra where "extra = map ((!) opts) (take (k - length dst) perm)"
  have ex: "distinct extra" "set extra \<subseteq> set opts" "length extra = k - length dst"
    using picks_facts [OF pf(2,3), of "k - length dst"] keys pf(1) len room
    by (auto simp: extra_def opts_def min_def)
  have "append_picks opts perm (int k - int (length dst)) (?nodes @ dst) = Ret (?nodes @ dst @ extra)"
    using append_picks_Ret [of "int k - int (length dst)" perm opts "?nodes @ dst"] pf len room
    by (simp add: extra_def)
  then have "addReplicasForShard st shard (int k) dst r =
       Ret (None, put_shard shard (?nodes @ dst @ extra) st, r')"
    using room dst(1) add perm by (simp add: addReplicasForShard_def gm_getz_nodes opts_def [symmetric] del: length_filter_map)
  moreover have "distinct (?nodes @ dst @ extra)"
    using nd dst ex by (auto simp: opts)
  moreover have "set extra \<subseteq> set ?keys" using ex by (auto simp: opts)
  ultimately show ?thesis using that ex(3) by blast
qed

lemma dropReplicasForShard_ok:
  assumes good: "IsValid st" "state_wf st"
    and src: "length src \<le> k" "set src \<subseteq> set (nodes_for_shard st shard)"
    and k: "k \<le> length (nodes_for_shard st shard)"
  obtains rest r' where
    "dropReplicasForShard st shard (int k) src r = Ret (None, put_shard shard rest st, r')"
    "length rest = length (nodes_for_shard st shard) - k" "distinct rest"
    "set rest \<subseteq> set (nodes_for_shard st shard) - set src"
proof -
  let ?nodes = "nodes_for_shard st shard"
  have nd: "distinct ?nodes" using IsValid_nodes_for_shard good by blast
  define cands where "cands = [x \<leftarrow> ?nodes. x \<notin> set src]"
  have cands: "drop_srcNodes ?nodes (sliceToMap src) = (cands, [])"
    using drop_srcNodes_fst [OF nd, of "sliceToMap src"] drop_srcNodes_all_dropped [of ?nodes src] src(2)
    by (cases "drop_srcNodes ?nodes (sliceToMap src)") (auto simp: cands_def sliceToMap_get cong: if_cong)
  have "length cands = length ?nodes - length (remdups src)"
    using length_filter_notin [OF nd, of "remdups src"] src(2) by (simp add: cands_def)
  then have len: "length ?nodes - length src \<le> length cands"
    using length_remdups_leq [of src] by linarith
  let ?n = "length ?nodes - length src"
  have n: "nat (int (length ?nodes) - int (length src)) = ?n" by simp
  obtain perm r' where perm: "Perm ?n r = (perm, r')" by fastforce
  have pf: "length perm = ?n" "distinct perm" "\<forall>p \<in> set perm. p < length cands"
    using Perm_facts [of ?n r] perm len by auto
  define rest where "rest = map ((!) cands) (take (length ?nodes - k) perm)"
  have "distinct cands" using nd by (simp add: cands_def)
  then have re: "distinct rest" "set rest \<subseteq> set cands" "length rest = length ?nodes - k"
    using picks_facts [OF pf(2,3)] pf(1) src(1) by (auto simp: rest_def min_def)
  have "append_picks cands perm (int (length ?nodes) - int k) [] = Ret rest"
    using append_picks_Ret [of "int (length ?nodes) - int k" perm cands "[]"] pf src(1)
    by (simp add: rest_def)
  then have "dropReplicasForShard st shard (int k) src r = Ret (None, put_shard shard rest st, r')"
    using k src(1) perm by (simp add: dropReplicasForShard_def gm_getz_nodes cands n)
  moreover have "set rest \<subseteq> set ?nodes - set src" using re(2) by (auto simp: cands_def)
  ultimately show ?thesis using that re by blast
qed

subsection \<open>The loops of the workflows\<close>

lemma nodes_for_shard_le:
  assumes "IsValid st" "state_wf st"
  shows "length (nodes_for_shard st shard) \<le> length (Nodes st)"
proof -
  have "length (nodes_for_shard st shard) = card (set (nodes_for_shard st shard))"
    using IsValid_nodes_for_shard(1) [OF assms] by (metis distinct_card)
  also have "\<dots> \<le> card (set (gm_keys (Nodes st)))"
    by (rule card_mono) (use IsValid_nodes_for_shard(2) [OF assms] in auto)
  also have "\<dots> \<le> length (Nodes st)" using card_length [of "gm_keys (Nodes st)"] by simp
  finally show ?thesis .
qed

lemma hosted_in_range:
  assumes "IsValid st" "state_wf st" "node \<in> set (nodes_for_shard st shard)"
  shows "1 \<le> shard" "shard \<le> NumShards st"
  using assms IsValid_gm_iff [OF assms(2)]
  by (cases "gm_get (ShardsToNodes st) shard"; auto simp: nodes_for_shard_def)+

lemma drop_one_ok:
  assumes "IsValid st" "state_wf st" "node \<in> set (nodes_for_shard st shard)"
  obtains rest r' where
    "dropReplicasForShard st shard 1 [node] r = Ret (None, put_shard shard rest st, r')"
    "set rest = set (nodes_for_shard st shard) - {node}" "distinct rest"
    "length rest = length (nodes_for_shard st shard) - 1"
    "IsValid (put_shard shard rest st)"
proof -
  let ?nodes = "nodes_for_shard st shard"
  have nd: "distinct ?nodes" "set ?nodes \<subseteq> set (gm_keys (Nodes st))"
    using IsValid_nodes_for_shard assms by blast+
  have "1 \<le> length ?nodes" using assms(3) by (cases ?nodes) auto
  then obtain rest r' where res:
    "dropReplicasForShard st shard 1 [node] r = Ret (None, put_shard shard rest st, r')"
    "length rest = length ?nodes - 1" "distinct rest" "set rest \<subseteq> set ?nodes - {node}"
    using dropReplicasForShard_ok [OF assms(1,2), of "[node]" 1 shard r] assms(3) by auto
  have "card (set rest) = card (set ?nodes - {node})"
    using res(2,3) nd(1) assms(3) by (simp add: distinct_card)
  then have eq: "set rest = set ?nodes - {node}"
    using res(4) by (intro card_subset_eq) auto
  moreover have "IsValid (put_shard shard rest st)"
    using assms hosted_in_range [OF assms] res(3) eq nd(2) by (intro put_shard_valid) auto
  ultimately show ?thesis using that res by blast
qed

text \<open>
  What the loops establish, as one predicate: the nodes and the number of shards are kept, the
  result is valid, and every shard satisfies \<open>Q shard old new\<close>.
\<close>

definition edited :: "(int \<Rightarrow> string list \<Rightarrow> string list \<Rightarrow> bool) \<Rightarrow> ShardMapState \<Rightarrow> ShardMapState \<Rightarrow> bool" where
  "edited Q st st' \<longleftrightarrow> IsValid st' \<and> state_wf st' \<and> Nodes st' = Nodes st \<and> NumShards st' = NumShards st \<and>
     (\<forall>shard. Q shard (nodes_for_shard st shard) (nodes_for_shard st' shard))"

lemma edited_put:
  assumes "edited Q1 (put_shard shard ns st) st'"
    and "\<And>new. Q1 shard ns new \<Longrightarrow> Q shard (nodes_for_shard st shard) new"
    and "\<And>x new. x \<noteq> shard \<Longrightarrow> Q1 x (nodes_for_shard st x) new \<Longrightarrow> Q x (nodes_for_shard st x) new"
  shows "edited Q st st'"
  using assms unfolding edited_def by (simp, metis)

text \<open>The change to one shard made by the dropping and by the adding loop.\<close>

definition dropped :: "string \<Rightarrow> int list \<Rightarrow> int \<Rightarrow> string list \<Rightarrow> string list \<Rightarrow> bool" where
  "dropped node shards shard old new \<longleftrightarrow>
     (if shard \<in> set shards
      then set new = set old - {node} \<and> distinct new \<and> length new = length old - 1
      else new = old)"

definition added :: "nat \<Rightarrow> int list \<Rightarrow> int \<Rightarrow> string list \<Rightarrow> string list \<Rightarrow> bool" where
  "added numNodes shards shard old new \<longleftrightarrow>
     (if shard \<in> set shards \<and> length old < numNodes then \<exists>x. new = old @ [x] else new = old)"

lemma drain_one:
  assumes "added n shards x old mid" "dropped node shards x mid new"
    and "x \<in> set shards \<longleftrightarrow> node \<in> set old" "length old \<le> n"
  shows "set old - {node} \<subseteq> set new" "node \<notin> set new"
    and "length new = (if node \<in> set old \<and> length old = n then length old - 1 else length old)"
proof -
  consider "x \<notin> set shards" "mid = old" "new = old"
    | y where "x \<in> set shards" "length old < n" "mid = old @ [y]"
    | "x \<in> set shards" "length old = n" "mid = old"
    using assms(1,2,4) unfolding added_def dropped_def by (metis le_neq_implies_less)
  then have "set old - {node} \<subseteq> set new \<and> node \<notin> set new \<and>
      length new = (if node \<in> set old \<and> length old = n then length old - 1 else length old)"
    using assms(2,3) by cases (auto simp: dropped_def)
  then show "set old - {node} \<subseteq> set new" "node \<notin> set new"
    and "length new = (if node \<in> set old \<and> length old = n then length old - 1 else length old)"
    by blast+
qed

lemma drop_from_shards_ok:
  assumes "IsValid st" "state_wf st" "distinct shards"
    and "\<forall>shard \<in> set shards. node \<in> set (nodes_for_shard st shard)"
  shows "\<exists>st' r'. drop_from_shards node shards st r = Ret (None, st', r') \<and>
    edited (dropped node shards) st st'"
  using assms
proof (induction shards arbitrary: st r)
  case (Cons shard shards)
  from Cons.prems have "IsValid st" "state_wf st" "node \<in> set (nodes_for_shard st shard)" by auto
  then obtain rest r' where step:
    "dropReplicasForShard st shard 1 [node] r = Ret (None, put_shard shard rest st, r')"
    "set rest = set (nodes_for_shard st shard) - {node}" "distinct rest"
    "length rest = length (nodes_for_shard st shard) - 1" "IsValid (put_shard shard rest st)"
    by (rule drop_one_ok)
  have "\<exists>st' r''. drop_from_shards node shards (put_shard shard rest st) r' = Ret (None, st', r'') \<and>
      edited (dropped node shards) (put_shard shard rest st) st'"
    using Cons.prems step(5) by (intro Cons.IH) auto
  then obtain st' r'' where
    rest: "drop_from_shards node shards (put_shard shard rest st) r' = Ret (None, st', r'')"
    and ed: "edited (dropped node shards) (put_shard shard rest st) st'"
    by blast
  have "drop_from_shards node (shard # shards) st r = Ret (None, st', r'')" using step(1) rest by simp
  moreover have "edited (dropped node (shard # shards)) st st'"
    using step(2-4) Cons.prems(3) by (intro edited_put [OF ed]) (auto simp: dropped_def)
  ultimately show ?case by blast
qed (auto simp: edited_def dropped_def)

lemma add_to_shards_ok:
  assumes "IsValid st" "state_wf st" "distinct shards"
    and "\<forall>shard \<in> set shards. 1 \<le> shard \<and> shard \<le> NumShards st"
  shows "\<exists>st' r'. add_to_shards (length (Nodes st)) shards st r = Ret (None, st', r') \<and>
    edited (added (length (Nodes st)) shards) st st'"
  using assms
proof (induction shards arbitrary: st r)
  case (Cons shard shards)
  let ?nodes = "nodes_for_shard st shard"
  show ?case
  proof (cases "length ?nodes < length (Nodes st)")
    case True
    then obtain extra r' where add:
      "addReplicasForShard st shard 1 [] r = Ret (None, put_shard shard (?nodes @ extra) st, r')"
      "length extra = 1" "distinct (?nodes @ extra)" "set extra \<subseteq> set (gm_keys (Nodes st))"
      using addReplicasForShard_ok [of st shard "[]" 1 r] Cons.prems by auto
    let ?st = "put_shard shard (?nodes @ extra) st"
    obtain x where x: "extra = [x]" using add(2) by (auto simp: length_Suc_conv)
    have ok: "IsValid ?st"
      using Cons.prems add(3,4) IsValid_nodes_for_shard(2) [OF Cons.prems(1,2), of shard]
      by (intro put_shard_valid) auto
    have "\<exists>st' r''. add_to_shards (length (Nodes ?st)) shards ?st r' = Ret (None, st', r'') \<and>
      edited (added (length (Nodes ?st)) shards) ?st st'"
      using Cons.prems ok by (intro Cons.IH) auto
    then obtain st' r'' where rest: "add_to_shards (length (Nodes st)) shards ?st r' = Ret (None, st', r'')"
      and ed: "edited (added (length (Nodes st)) shards) ?st st'"
      by auto
    have "add_to_shards (length (Nodes st)) (shard # shards) st r = Ret (None, st', r'')"
      using True add(1) rest by (simp add: gm_getz_nodes)
    moreover have "edited (added (length (Nodes st)) (shard # shards)) st st'"
      using x True Cons.prems(3) by (intro edited_put [OF ed]) (auto simp: added_def)
    ultimately show ?thesis by blast
  next
    case False
    have "\<exists>st' r'. add_to_shards (length (Nodes st)) shards st r = Ret (None, st', r') \<and>
      edited (added (length (Nodes st)) shards) st st'"
      using Cons.prems by (intro Cons.IH) auto
    then show ?thesis
      using False by (fastforce simp: edited_def added_def gm_getz_nodes)
  qed
qed (auto simp: edited_def added_def)

lemma UpdateShardMapping_Ret:
  "sm_state sm = Some st \<Longrightarrow>
     UpdateShardMapping m sm = Ret (sm\<lparr>sm_state := Some (st\<lparr>ShardsToNodes := m\<rparr>)\<rparr>)"
  by (simp add: UpdateShardMapping_def sm_Nodes_def sm_NumShards_def GetState_def sm_Swap_def)

lemma edited_update: "edited Q st st' \<Longrightarrow> st\<lparr>ShardsToNodes := ShardsToNodes st'\<rparr> = st'"
  by (simp add: edited_def)

lemmas workflow_simps = GetState_def ShardsForNode_def UpdateShardMapping_Ret copyShardMapState_id

lemma shards_for_node_hosted:
  assumes "IsValid st" "state_wf st"
  shows "distinct (shards_for_node st node)"
    and "\<forall>shard \<in> set (shards_for_node st node). node \<in> set (nodes_for_shard st shard)"
    and "shard \<notin> set (shards_for_node st node) \<Longrightarrow> node \<notin> set (nodes_for_shard st shard)"
  using assms sd.dual sd.distinct_shards by blast+

text \<open>The change to one shard made by \<open>DrainNode\<close> and by \<open>MoveShard\<close>.\<close>

definition drained :: "string \<Rightarrow> nat \<Rightarrow> int \<Rightarrow> string list \<Rightarrow> string list \<Rightarrow> bool" where
  "drained node numNodes shard old new \<longleftrightarrow> set old - {node} \<subseteq> set new \<and> node \<notin> set new \<and>
     length new = (if node \<in> set old \<and> length old = numNodes then length old - 1 else length old) \<and>
     (node \<notin> set old \<longrightarrow> new = old)"

definition moved :: "int \<Rightarrow> string \<Rightarrow> string \<Rightarrow> int \<Rightarrow> string list \<Rightarrow> string list \<Rightarrow> bool" where
  "moved shard src dst x old new \<longleftrightarrow>
     (if x = shard then set new = insert dst (set old - {src}) \<and> length new = length old else new = old)"

lemma DrainNode_edited:
  assumes "sm_state sm = Some st" "IsValid st" "state_wf st"
  shows "\<exists>st' r'. DrainNode node sm r = Ret (None, sm\<lparr>sm_state := Some st'\<rparr>, r') \<and>
    edited (drained node (length (Nodes st))) st st'"
proof -
  let ?shards = "shards_for_node st node" and ?n = "length (Nodes st)"
  note host = shards_for_node_hosted [OF assms(2,3)]
  have range: "\<forall>shard \<in> set ?shards. 1 \<le> shard \<and> shard \<le> NumShards st"
    using host(2) hosted_in_range [OF assms(2,3)] by blast
  obtain st1 r1 where add: "add_to_shards ?n ?shards st r = Ret (None, st1, r1)"
    and ed1: "edited (added ?n ?shards) st st1"
    using add_to_shards_ok [OF assms(2,3) host(1) range] by blast
  have good1: "IsValid st1" "state_wf st1" using ed1 by (auto simp: edited_def)
  have ad: "added ?n ?shards x (nodes_for_shard st x) (nodes_for_shard st1 x)" for x
    using ed1 by (simp add: edited_def)
  have "\<forall>shard \<in> set ?shards. node \<in> set (nodes_for_shard st1 shard)"
  proof
    fix x assume "x \<in> set ?shards"
    then have "node \<in> set (nodes_for_shard st x)" using host(2) by blast
    then show "node \<in> set (nodes_for_shard st1 x)" using ad [of x] by (auto simp: added_def split: if_splits)
  qed
  then obtain st2 r2 where drop: "drop_from_shards node ?shards st1 r1 = Ret (None, st2, r2)"
    and ed2: "edited (dropped node ?shards) st1 st2"
    using drop_from_shards_ok [OF good1 host(1)] by blast
  have good2: "IsValid st2" "state_wf st2" using ed2 by (auto simp: edited_def)
  have dr: "dropped node ?shards x (nodes_for_shard st1 x) (nodes_for_shard st2 x)" for x
    using ed2 by (simp add: edited_def)
  have le: "length (nodes_for_shard st x) \<le> ?n" for x
    by (rule nodes_for_shard_le [OF assms(2,3)])
  have each: "set (nodes_for_shard st x) - {node} \<subseteq> set (nodes_for_shard st2 x)"
    "length (nodes_for_shard st2 x) = (if node \<in> set (nodes_for_shard st x) \<and> length (nodes_for_shard st x) = ?n
      then length (nodes_for_shard st x) - 1 else length (nodes_for_shard st x))"
    "node \<notin> set (nodes_for_shard st2 x)" for x
    using drain_one [OF ad dr _ le, of x] sd.dual [of st x node] assms(2,3) by blast+
  have "new = old" if "node \<notin> set old" "added ?n ?shards x old mid" "dropped node ?shards x mid new" "x \<in> set ?shards \<longleftrightarrow> node \<in> set old"
    for x old mid new using that by (auto simp: added_def dropped_def)
  then have "edited (drained node ?n) st st2"
    using each ad dr ed1 ed2 sd.dual [of st _ node] assms(2,3) unfolding edited_def drained_def by metis
  then show ?thesis
    using assms(1,3) add drop edited_update [OF ed1] edited_update [OF ed2] good1 good2
    by (auto simp: DrainNode_def workflow_simps)
qed

lemma MoveShard_edited:
  assumes "sm_state sm = Some st" "IsValid st" "state_wf st"
    and "src \<in> set (nodes_for_shard st shard)"
    and "dst \<notin> set (nodes_for_shard st shard)" "gm_get (Nodes st) dst \<noteq> None"
  shows "\<exists>st' r'. MoveShard shard src dst sm r = Ret (None, sm\<lparr>sm_state := Some st'\<rparr>, r') \<and>
    edited (moved shard src dst) st st'"
proof -
  let ?nodes = "nodes_for_shard st shard" and ?keys = "gm_keys (Nodes st)"
  have nd: "distinct ?nodes" "set ?nodes \<subseteq> set ?keys"
    using IsValid_nodes_for_shard [OF assms(2,3)] by blast+
  have dk: "dst \<in> set ?keys" using assms(6) gm_get_keys by metis
  have "card (insert dst (set ?nodes)) \<le> card (set ?keys)"
    using nd(2) dk by (intro card_mono) auto
  then have room: "length ?nodes + 1 \<le> length (Nodes st)"
    using assms(5) nd(1) card_length [of ?keys] by (simp add: distinct_card)
  note rng = hosted_in_range [OF assms(2-4)]
  have pre: "length [dst] \<le> 1" "distinct [dst]" "set [dst] \<subseteq> set ?keys" "set [dst] \<inter> set ?nodes = {}"
    using dk assms(5) by auto
  obtain extra r1 where add: "addReplicasForShard st shard (int 1) [dst] r =
      Ret (None, put_shard shard (?nodes @ [dst] @ extra) st, r1)"
    and "length extra = 1 - length [dst]"
    by (rule addReplicasForShard_ok [OF assms(2,3) rng pre room, where r = r])
  then have add': "addReplicasForShard st shard 1 [dst] r = Ret (None, put_shard shard (?nodes @ [dst]) st, r1)"
    by simp
  let ?st1 = "put_shard shard (?nodes @ [dst]) st"
  have good1: "IsValid ?st1" using assms(2,3,5) nd rng dk by (intro put_shard_valid) auto
  have "src \<in> set (nodes_for_shard ?st1 shard)" using assms(4) by simp
  with good1 put_shard_wf [OF assms(3)] obtain rest r2 where
    drop: "dropReplicasForShard ?st1 shard 1 [src] r1 = Ret (None, put_shard shard rest ?st1, r2)"
      "set rest = set (nodes_for_shard ?st1 shard) - {src}"
      "length rest = length (nodes_for_shard ?st1 shard) - 1"
      "IsValid (put_shard shard rest ?st1)"
    by (rule drop_one_ok)
  have "src \<noteq> dst" using assms(4,5) by blast
  then have "MoveShard shard src dst sm r =
      Ret (None, sm\<lparr>sm_state := Some (put_shard shard rest ?st1)\<rparr>, r2)"
    using assms(1,3) add' drop(1) by (simp add: MoveShard_def workflow_simps)
  moreover have "edited (moved shard src dst) st (put_shard shard rest ?st1)"
    using drop(2-4) assms(3) \<open>src \<noteq> dst\<close> by (auto simp: edited_def moved_def)
  ultimately show ?thesis by blast
qed

subsection \<open>Properties\<close>

abbreviation example_sm :: ShardMap where
  "example_sm \<equiv> zero_ShardMap\<lparr>sm_state := Some example_state\<rparr>"

text \<open>
  Within its documented preconditions \<open>addReplicasForShard\<close> succeeds whatever the random
  permutation is: the old nodes stay, all of \<open>dstNodes\<close> and exactly as many further nodes as
  requested are added, all of them known and different, the other shards keep their nodes, and
  the state stays valid.
\<close>

theorem addReplicasForShard_correct:
  assumes "IsValid st" "state_wf st" "1 \<le> shard" "shard \<le> NumShards st"
    and "length dst \<le> k" "distinct dst" "\<forall>n \<in> set dst. gm_get (Nodes st) n \<noteq> None"
    and "set dst \<inter> set (nodes_for_shard st shard) = {}"
    and "length (nodes_for_shard st shard) + k \<le> length (Nodes st)"
  shows "\<exists>st' r' extra. addReplicasForShard st shard (int k) dst r = Ret (None, st', r') \<and>
    nodes_for_shard st' shard = nodes_for_shard st shard @ dst @ extra \<and>
    length (nodes_for_shard st' shard) = length (nodes_for_shard st shard) + k \<and>
    (\<forall>x. x \<noteq> shard \<longrightarrow> nodes_for_shard st' x = nodes_for_shard st x) \<and> IsValid st' \<and> state_wf st'"
proof -
  have dst: "set dst \<subseteq> set (gm_keys (Nodes st))"
    using assms(7) by (auto simp: map_of_eq_None_iff)
  obtain extra r' where res:
    "addReplicasForShard st shard (int k) dst r =
       Ret (None, put_shard shard (nodes_for_shard st shard @ dst @ extra) st, r')"
    "length extra = k - length dst" "distinct (nodes_for_shard st shard @ dst @ extra)"
    "set extra \<subseteq> set (gm_keys (Nodes st))"
    by (rule addReplicasForShard_ok [OF assms(1-6) dst assms(8,9)])
  let ?ns = "nodes_for_shard st shard @ dst @ extra"
  have "set ?ns \<subseteq> set (gm_keys (Nodes st))"
    using IsValid_nodes_for_shard(2) [OF assms(1,2), of shard] dst res(4) by auto
  then have "IsValid (put_shard shard ?ns st)"
    using assms res(3) by (intro put_shard_valid) auto
  then show ?thesis
    using res(1,2) assms(2,5)
    by (intro exI [of _ "put_shard shard ?ns st"] exI [of _ r'] exI [of _ extra]) auto
qed

theorem addReplicasForShard_correct_witness:
  "\<exists>st' r' extra. addReplicasForShard example_state 2 2 [''n3''] (sconst 0) = Ret (None, st', r') \<and>
    nodes_for_shard st' 2 = nodes_for_shard example_state 2 @ [''n3''] @ extra \<and> IsValid st'"
  using addReplicasForShard_correct [of example_state 2 "[''n3'']" 2 "sconst 0"] example_state_valid
  by (auto simp: example_state_def nodes_for_shard_def)

text \<open>
  Within its documented preconditions \<open>dropReplicasForShard\<close> succeeds whatever the random
  permutation is: exactly \<open>k\<close> replicas go, the named ones among them, the rest were there
  before, and the other shards keep their nodes.
\<close>

theorem dropReplicasForShard_correct:
  assumes "IsValid st" "state_wf st"
    and "length src \<le> k" "set src \<subseteq> set (nodes_for_shard st shard)"
    and "k \<le> length (nodes_for_shard st shard)"
  shows "\<exists>st' r'. dropReplicasForShard st shard (int k) src r = Ret (None, st', r') \<and>
    length (nodes_for_shard st' shard) = length (nodes_for_shard st shard) - k \<and>
    distinct (nodes_for_shard st' shard) \<and>
    set (nodes_for_shard st' shard) \<subseteq> set (nodes_for_shard st shard) - set src \<and>
    (\<forall>x. x \<noteq> shard \<longrightarrow> nodes_for_shard st' x = nodes_for_shard st x)"
proof -
  obtain rest r' where
    "dropReplicasForShard st shard (int k) src r = Ret (None, put_shard shard rest st, r')"
    "length rest = length (nodes_for_shard st shard) - k" "distinct rest"
    "set rest \<subseteq> set (nodes_for_shard st shard) - set src"
    by (rule dropReplicasForShard_ok [OF assms])
  then show ?thesis
    by (intro exI [of _ "put_shard shard rest st"] exI [of _ r']) simp
qed

theorem dropReplicasForShard_correct_witness:
  "\<exists>st' r'. dropReplicasForShard example_state 1 1 [''n1''] (sconst 0) = Ret (None, st', r') \<and>
    set (nodes_for_shard st' 1) \<subseteq> {''n2''} \<and> length (nodes_for_shard st' 1) = 1"
  using dropReplicasForShard_correct [of example_state "[''n1'']" 1 1 "sconst 0"] example_state_valid
  by (auto simp: example_state_def nodes_for_shard_def)

text \<open>
  \<open>RemoveNode\<close> on a valid map always succeeds. Afterwards the node hosts nothing, every
  shard keeps exactly its other hosts, and the map is still valid.
\<close>

theorem RemoveNode_correct:
  assumes "sm_state sm = Some st" "IsValid st" "state_wf st"
  shows "\<exists>sm' st' r'. RemoveNode node sm r = Ret (None, sm', r') \<and> sm_state sm' = Some st' \<and>
    IsValid st' \<and> state_wf st' \<and> ShardsForNode sm' node = Ret [] \<and>
    (\<forall>shard. set (nodes_for_shard st' shard) = set (nodes_for_shard st shard) - {node})"
proof -
  let ?shards = "shards_for_node st node"
  note host = shards_for_node_hosted [OF assms(2,3)]
  obtain st' r' where drop: "drop_from_shards node ?shards st r = Ret (None, st', r')"
    and ed: "edited (dropped node ?shards) st st'"
    using drop_from_shards_ok [OF assms(2,3) host(1,2)] by blast
  have hosts: "set (nodes_for_shard st' x) = set (nodes_for_shard st x) - {node}" for x
    using ed host(3) [of x node] by (auto simp: edited_def dropped_def split: if_splits)
  have good: "IsValid st'" "state_wf st'" using ed by (auto simp: edited_def)
  have "shards_for_node st' node = []"
    using hosts sd.unhosted [of st' node] good by auto
  then show ?thesis
    using assms(1,3) drop edited_update [OF ed] good hosts
    by (auto simp: RemoveNode_def workflow_simps)
qed

theorem RemoveNode_correct_witness:
  "\<exists>sm' r'. RemoveNode ''n2'' example_sm (sconst 0) = Ret (None, sm', r') \<and>
     ShardsForNode sm' ''n2'' = Ret []"
  using RemoveNode_correct [of example_sm example_state "''n2''" "sconst 0"] example_state_valid
  by auto

text \<open>
  C20: \<open>DrainNode\<close> on a valid map always succeeds. Afterwards the node hosts nothing; every
  shard keeps its other hosts, and a shard the node hosted has as many replicas as before unless
  it was already on every node of the cluster, in which case it has one less.
\<close>

theorem DrainNode_correct:
  assumes "sm_state sm = Some st" "IsValid st" "state_wf st"
  shows "\<exists>sm' st' r'. DrainNode node sm r = Ret (None, sm', r') \<and> sm_state sm' = Some st' \<and>
    IsValid st' \<and> ShardsForNode sm' node = Ret [] \<and>
    (\<forall>shard. set (nodes_for_shard st shard) - {node} \<subseteq> set (nodes_for_shard st' shard) \<and>
       length (nodes_for_shard st' shard) =
         (if node \<in> set (nodes_for_shard st shard) \<and> length (nodes_for_shard st shard) = length (Nodes st)
          then length (nodes_for_shard st shard) - 1 else length (nodes_for_shard st shard)))"
proof -
  obtain st' r' where run: "DrainNode node sm r = Ret (None, sm\<lparr>sm_state := Some st'\<rparr>, r')"
    and ed: "edited (drained node (length (Nodes st))) st st'" using DrainNode_edited [OF assms] by blast
  have good: "IsValid st'" "state_wf st'" using ed by (simp_all add: edited_def)
  have each: "drained node (length (Nodes st)) x (nodes_for_shard st x) (nodes_for_shard st' x)" for x using ed by (simp add: edited_def)
  then have "shards_for_node st' node = []" using sd.unhosted [of st' node] good by (simp add: drained_def)
  then show ?thesis using run good each
    by (intro exI [of _ "sm\<lparr>sm_state := Some st'\<rparr>"] exI [of _ st'] exI [of _ r']) (simp add: drained_def ShardsForNode_def GetState_def)
qed

theorem DrainNode_correct_witness:
  "\<exists>sm' st' r'. DrainNode ''n2'' example_sm (sconst 0) = Ret (None, sm', r') \<and> sm_state sm' = Some st' \<and>
     ShardsForNode sm' ''n2'' = Ret [] \<and> length (nodes_for_shard st' 2) = 1"
proof -
  have "nodes_for_shard example_state 2 = [''n2'']" "length (Nodes example_state) = 3"
    by (simp_all add: example_state_def nodes_for_shard_def)
  then show ?thesis
    using DrainNode_correct [of example_sm example_state "''n2''" "sconst 0"] example_state_valid by fastforce
qed

text \<open>
  Moving a shard from a node that hosts it to a known node that does not succeeds: the
  source is replaced by the destination, the number of replicas is unchanged, no other shard
  changes and the map stays valid.
\<close>

theorem MoveShard_correct:
  assumes "sm_state sm = Some st" "IsValid st" "state_wf st"
    and "src \<in> set (nodes_for_shard st shard)"
    and "dst \<notin> set (nodes_for_shard st shard)" "gm_get (Nodes st) dst \<noteq> None"
  shows "\<exists>sm' st' r'. MoveShard shard src dst sm r = Ret (None, sm', r') \<and> sm_state sm' = Some st' \<and>
    set (nodes_for_shard st' shard) = insert dst (set (nodes_for_shard st shard) - {src}) \<and>
    length (nodes_for_shard st' shard) = length (nodes_for_shard st shard) \<and>
    (\<forall>x. x \<noteq> shard \<longrightarrow> nodes_for_shard st' x = nodes_for_shard st x) \<and> IsValid st'"
proof -
  obtain st' r' where run: "MoveShard shard src dst sm r = Ret (None, sm\<lparr>sm_state := Some st'\<rparr>, r')"
    and ed: "edited (moved shard src dst) st st'" using MoveShard_edited [OF assms] by blast
  then have "moved shard src dst x (nodes_for_shard st x) (nodes_for_shard st' x)" for x by (simp add: edited_def)
  then show ?thesis using run ed
    by (intro exI [of _ "sm\<lparr>sm_state := Some st'\<rparr>"] exI [of _ st'] exI [of _ r']) (simp add: moved_def edited_def)
qed

theorem MoveShard_correct_witness:
  "\<exists>sm' st' r'. MoveShard 2 ''n2'' ''n3'' example_sm (sconst 0) = Ret (None, sm', r') \<and>
     sm_state sm' = Some st' \<and> set (nodes_for_shard st' 2) = {''n3''}"
  using MoveShard_correct [of example_sm example_state "''n2''" 2 "''n3''" "sconst 0"] example_state_valid
  by (auto simp: example_state_def nodes_for_shard_def)

end
