(* ===== verification/Test_Workflows.thy ===== *)
theory Test_Workflows
  imports Test_Setup
begin

text \<open>
  The tests of the key-value lab change the shard map by sequences of the workflows of
  \<open>lab4/kv/test/test_setup.go\<close>. Seen from outside, a shard map is a placement: the set of nodes that host each
  shard. This theory gives the effect of each workflow on a placement as an abstract step that carries the workflow and
  whether it reports an error, and shows that every workflow, on every path through it, refines the step with its own label
  and keeps the shard map valid.
\<close>

subsection \<open>Workflows\<close>

datatype workflow =
    WRemoveNode string
  | WDrainNode string
  | WMoveShard int string string
  | WMoveRandomShard
  | WDropShard int
  | WDropRandomShard

primrec run_workflow :: "workflow \<Rightarrow> ShardMap \<Rightarrow> rng \<Rightarrow> (string option \<times> ShardMap \<times> rng) go" where
  "run_workflow (WRemoveNode node) sm r = RemoveNode node sm r"
| "run_workflow (WDrainNode node) sm r = DrainNode node sm r"
| "run_workflow (WMoveShard shard src dst) sm r = MoveShard shard src dst sm r"
| "run_workflow WMoveRandomShard sm r = MoveRandomShard sm r"
| "run_workflow (WDropShard shard) sm r = DropShard shard sm r"
| "run_workflow WDropRandomShard sm r = DropRandomShard sm r"

text \<open>A test may go on after an error.\<close>

fun run_workflows :: "workflow list \<Rightarrow> ShardMap \<Rightarrow> rng \<Rightarrow> (ShardMap \<times> rng) go" where
  "run_workflows [] sm r = Ret (sm, r)"
| "run_workflows (w # ws) sm r = go_bind (run_workflow w sm r) (\<lambda>(err, sm', r'). run_workflows ws sm' r')"

text \<open>What a workflow may be asked: shards of the map, and destinations that are nodes of the map.\<close>

primrec sensible :: "ShardMapState \<Rightarrow> workflow \<Rightarrow> bool" where
  "sensible st (WRemoveNode node) = True"
| "sensible st (WDrainNode node) = True"
| "sensible st (WMoveShard shard src dst) \<longleftrightarrow> 1 \<le> shard \<and> shard \<le> NumShards st \<and> gm_get (Nodes st) dst \<noteq> None"
| "sensible st WMoveRandomShard \<longleftrightarrow> 0 < NumShards st"
| "sensible st (WDropShard shard) \<longleftrightarrow> 1 \<le> shard \<and> shard \<le> NumShards st"
| "sensible st WDropRandomShard \<longleftrightarrow> 0 < NumShards st"

lemma sensible_cong: "Nodes st' = Nodes st \<Longrightarrow> NumShards st' = NumShards st \<Longrightarrow> sensible st' w = sensible st w"
  by (cases w) simp_all

subsection \<open>Placements\<close>

type_synonym placement = "int \<Rightarrow> string set"

definition placement :: "ShardMapState \<Rightarrow> placement" where
  "placement st shard = set (nodes_for_shard st shard)"

text \<open>
  What each workflow does to the placement on a cluster of nodes \<open>N\<close> with \<open>n\<close> shards. A step carries the workflow that was asked for, and
  whether it reports an error. Removing a node, moving a shard and dropping a shard leave no choice; draining chooses new
  hosts, the random ones choose what to move or drop. A move to a node that hosts the shard already is refused; when
  the source does not host it, the move fails after its first half.
\<close>

inductive place_step :: "string set \<Rightarrow> int \<Rightarrow> placement \<Rightarrow> workflow \<times> bool \<Rightarrow> placement \<Rightarrow> bool"
  for N :: "string set" and n :: int where
  pl_remove: "place_step N n P (WRemoveNode node, False) (\<lambda>shard. P shard - {node})"
| pl_drain: "(\<And>shard. P shard - {node} \<subseteq> P' shard \<and> P' shard \<subseteq> N - {node} \<and> (node \<notin> P shard \<longrightarrow> P' shard = P shard) \<and>
      card (P' shard) = (if node \<in> P shard \<and> card (P shard) = card N then card (P shard) - 1 else card (P shard))) \<Longrightarrow>
    place_step N n P (WDrainNode node, False) P'"
| pl_stay: "place_step N n P (WMoveShard shard src src, False) P"
| pl_moved: "src \<in> P shard \<Longrightarrow> dst \<in> N - P shard \<Longrightarrow>
    place_step N n P (WMoveShard shard src dst, False) (P(shard := insert dst (P shard - {src})))"
| pl_refused: "src \<noteq> dst \<Longrightarrow> dst \<in> P shard \<Longrightarrow> place_step N n P (WMoveShard shard src dst, True) P"
| pl_copied: "src \<noteq> dst \<Longrightarrow> src \<notin> P shard \<Longrightarrow> dst \<in> N - P shard \<Longrightarrow>
    place_step N n P (WMoveShard shard src dst, True) (P(shard := insert dst (P shard)))"
| pl_move_random: "1 \<le> shard \<Longrightarrow> shard \<le> n \<Longrightarrow> src \<in> P shard \<Longrightarrow> dst \<in> N - P shard \<Longrightarrow>
    place_step N n P (WMoveRandomShard, False) (P(shard := insert dst (P shard - {src})))"
| pl_drop: "place_step N n P (WDropShard shard, False) (P(shard := {}))"
| pl_drop_random: "1 \<le> shard \<Longrightarrow> shard \<le> n \<Longrightarrow> place_step N n P (WDropRandomShard, False) (P(shard := {}))"

inductive_cases place_stepE: "place_step N n P l P'"

text \<open>What the clients of the placement rely on: every host is a node of the cluster.\<close>

lemma place_step_within:
  assumes "place_step N n P l P'" "\<forall>shard. P shard \<subseteq> N"
  shows "P' shard \<subseteq> N"
  using assms by (cases rule: place_step.cases) auto

text \<open>One workflow refines its step when it returns with a valid map for the same nodes and shards.\<close>

definition refines_step :: "workflow \<Rightarrow> ShardMap \<Rightarrow> ShardMapState \<Rightarrow> ShardMapState \<Rightarrow> (string option \<times> ShardMap \<times> rng) go \<Rightarrow> bool" where
  "refines_step w sm st st' out \<longleftrightarrow> (\<exists>err r'. out = Ret (err, sm\<lparr>sm_state := Some st'\<rparr>, r') \<and>
       place_step (set (gm_keys (Nodes st))) (NumShards st) (placement st) (w, err \<noteq> None) (placement st')) \<and>
     IsValid st' \<and> state_wf st' \<and> Nodes st' = Nodes st \<and> NumShards st' = NumShards st"

lemma refines_same:
  assumes "sm_state sm = Some st" "IsValid st" "state_wf st" "out = Ret (err, sm, r')"
    and "place_step (set (gm_keys (Nodes st))) (NumShards st) (placement st) (w, failed) (placement st)" "failed = (err \<noteq> None)"
  shows "\<exists>st'. refines_step w sm st st' out"
proof -
  have "sm\<lparr>sm_state := Some st\<rparr> = sm" using assms(1) by simp
  then show ?thesis using assms(2-6) by (auto simp: refines_step_def intro!: exI [of _ st])
qed

lemma refines_edited:
  assumes "edited Q st st'" "out = Ret (err, sm\<lparr>sm_state := Some st'\<rparr>, r')"
    and "place_step (set (gm_keys (Nodes st))) (NumShards st) (placement st) (w, failed) (placement st')" "failed = (err \<noteq> None)"
  shows "\<exists>st'. refines_step w sm st st' out"
  using assms by (auto simp: refines_step_def edited_def intro!: exI [of _ st'])

subsection \<open>Each workflow\<close>

lemma placement_edited: "edited Q st st' \<Longrightarrow> Q shard (nodes_for_shard st shard) (nodes_for_shard st' shard)"
  by (simp add: edited_def)

lemma RemoveNode_refines:
  assumes "sm_state sm = Some st" "IsValid st" "state_wf st"
  shows "\<exists>st'. refines_step (WRemoveNode node) sm st st' (RemoveNode node sm r)"
proof -
  let ?shards = "shards_for_node st node"
  note host = shards_for_node_hosted [OF assms(2,3)]
  obtain st' r' where drop: "drop_from_shards node ?shards st r = Ret (None, st', r')" and ed: "edited (dropped node ?shards) st st'"
    using drop_from_shards_ok [OF assms(2,3) host(1,2)] by blast
  have "placement st' = (\<lambda>shard. placement st shard - {node})"
    using placement_edited [OF ed] host(3) by (fastforce simp: placement_def dropped_def fun_eq_iff split: if_splits)
  then have step: "place_step (set (gm_keys (Nodes st))) (NumShards st) (placement st) (WRemoveNode node, False) (placement st')"
    by (simp add: pl_remove)
  have "RemoveNode node sm r = Ret (None, sm\<lparr>sm_state := Some st'\<rparr>, r')"
    using assms(1,3) drop edited_update [OF ed] by (simp add: RemoveNode_def workflow_simps)
  then show ?thesis by (rule refines_edited [OF ed _ step]) simp
qed

lemma card_placement: "IsValid st \<Longrightarrow> state_wf st \<Longrightarrow> card (placement st shard) = length (nodes_for_shard st shard)"
  by (simp add: placement_def distinct_card IsValid_nodes_for_shard(1))

lemma card_nodes: "state_wf st \<Longrightarrow> card (set (gm_keys (Nodes st))) = length (Nodes st)"
  by (simp add: state_wf_def gm_wf_def distinct_card del: set_map)

lemma DrainNode_refines:
  assumes "sm_state sm = Some st" "IsValid st" "state_wf st"
  shows "\<exists>st'. refines_step (WDrainNode node) sm st st' (DrainNode node sm r)"
proof -
  obtain st' r' where run: "DrainNode node sm r = Ret (None, sm\<lparr>sm_state := Some st'\<rparr>, r')"
    and ed: "edited (drained node (length (Nodes st))) st st'" using DrainNode_edited [OF assms] by blast
  have good: "IsValid st'" "state_wf st'" "Nodes st' = Nodes st" using ed by (simp_all add: edited_def)
  have "place_step (set (gm_keys (Nodes st))) (NumShards st) (placement st) (WDrainNode node, False) (placement st')"
  proof (rule pl_drain)
    fix shard
    have d: "drained node (length (Nodes st)) shard (nodes_for_shard st shard) (nodes_for_shard st' shard)" by (rule placement_edited [OF ed])
    have "placement st' shard \<subseteq> set (gm_keys (Nodes st))" using IsValid_nodes_for_shard(2) [OF good(1,2)] good(3) by (simp add: placement_def)
    then show "placement st shard - {node} \<subseteq> placement st' shard \<and> placement st' shard \<subseteq> set (gm_keys (Nodes st)) - {node} \<and>
      (node \<notin> placement st shard \<longrightarrow> placement st' shard = placement st shard) \<and>
      card (placement st' shard) = (if node \<in> placement st shard \<and> card (placement st shard) = card (set (gm_keys (Nodes st)))
        then card (placement st shard) - 1 else card (placement st shard))"
      unfolding card_placement [OF assms(2,3)] card_placement [OF good(1,2)] card_nodes [OF assms(3)]
      using d by (auto simp: drained_def placement_def)
  qed
  then show ?thesis by (rule refines_edited [OF ed run]) simp
qed

text \<open>The two halves of a move, with their failures.\<close>

lemma add_one_cases:
  assumes "IsValid st" "state_wf st" "1 \<le> shard" "shard \<le> NumShards st" "gm_get (Nodes st) dst \<noteq> None"
  obtains (failed) e where "dst \<in> set (nodes_for_shard st shard)" "addReplicasForShard st shard 1 [dst] r = Ret (Some e, st, r)"
  | (added) r' where "dst \<notin> set (nodes_for_shard st shard)"
      "addReplicasForShard st shard 1 [dst] r = Ret (None, put_shard shard (nodes_for_shard st shard @ [dst]) st, r')"
      "IsValid (put_shard shard (nodes_for_shard st shard @ [dst]) st)"
proof -
  let ?nodes = "nodes_for_shard st shard" and ?keys = "gm_keys (Nodes st)"
  have nd: "distinct ?nodes" "set ?nodes \<subseteq> set ?keys" using IsValid_nodes_for_shard assms(1,2) by blast+
  have dk: "dst \<in> set ?keys" using assms(5) gm_get_keys by metis
  consider "length ?nodes + 1 > length (Nodes st)" | "length ?nodes + 1 \<le> length (Nodes st)" "dst \<in> set ?nodes"
    | "length ?nodes + 1 \<le> length (Nodes st)" "dst \<notin> set ?nodes" by linarith
  then show ?thesis
  proof cases
    case 1
    have "card (set ?keys) \<le> card (set ?nodes)" using 1 nd(1) card_nodes [OF assms(2)] by (simp add: distinct_card)
    then have "set ?nodes = set ?keys" by (rule card_seteq [OF finite_set nd(2)])
    then show ?thesis using 1 failed dk by (simp add: addReplicasForShard_def gm_getz_nodes)
  next
    case 2
    then show ?thesis using failed by (simp add: addReplicasForShard_def gm_getz_nodes sliceToMap_get)
  next
    case 3
    have pre: "length [dst] \<le> 1" "distinct [dst]" "set [dst] \<subseteq> set ?keys" "set [dst] \<inter> set ?nodes = {}" using dk 3(2) by auto
    obtain extra r1 where "addReplicasForShard st shard (int 1) [dst] r = Ret (None, put_shard shard (?nodes @ [dst] @ extra) st, r1)"
      "length extra = 1 - length [dst]"
      by (rule addReplicasForShard_ok [OF assms(1-4) pre 3(1), where r = r])
    moreover have "IsValid (put_shard shard (?nodes @ [dst]) st)" using assms nd dk 3(2) by (intro put_shard_valid) auto
    ultimately show ?thesis using added 3(2) by simp
  qed
qed

lemma drop_one_missing:
  assumes "IsValid st" "state_wf st" "src \<notin> set (nodes_for_shard st shard)"
  shows "\<exists>e. dropReplicasForShard st shard 1 [src] r = Ret (Some e, st, r)"
proof (cases "nodes_for_shard st shard")
  case Nil
  then show ?thesis by (simp add: dropReplicasForShard_def gm_getz_nodes)
next
  case (Cons n ns)
  have "distinct (nodes_for_shard st shard)" using IsValid_nodes_for_shard(1) [OF assms(1,2)] .
  then have "gm_get (snd (drop_srcNodes (nodes_for_shard st shard) (sliceToMap [src]))) src = Some ()"
    using assms(3) drop_srcNodes_snd by (simp add: sliceToMap_get)
  then have "snd (drop_srcNodes (nodes_for_shard st shard) (sliceToMap [src])) \<noteq> []" by auto
  then show ?thesis using Cons by (simp add: dropReplicasForShard_def gm_getz_nodes Let_def case_prod_beta)
qed

text \<open>A move that can be done, as it was asked for or as the random one chose it.\<close>

lemma MoveShard_done:
  assumes "sm_state sm = Some st" "IsValid st" "state_wf st"
    and "src \<in> set (nodes_for_shard st shard)" "dst \<notin> set (nodes_for_shard st shard)" "gm_get (Nodes st) dst \<noteq> None"
  obtains st' r' where "MoveShard shard src dst sm r = Ret (None, sm\<lparr>sm_state := Some st'\<rparr>, r')" "edited (moved shard src dst) st st'"
    "placement st' = (placement st)(shard := insert dst (placement st shard - {src}))"
    "src \<in> placement st shard" "dst \<in> set (gm_keys (Nodes st)) - placement st shard"
proof -
  obtain st' r' where run: "MoveShard shard src dst sm r = Ret (None, sm\<lparr>sm_state := Some st'\<rparr>, r')"
    and ed: "edited (moved shard src dst) st st'" using MoveShard_edited [OF assms] by blast
  have "placement st' = (placement st)(shard := insert dst (placement st shard - {src}))"
    using placement_edited [OF ed] by (auto simp: placement_def moved_def fun_eq_iff split: if_splits)
  moreover have "dst \<in> set (gm_keys (Nodes st)) - placement st shard" using assms(5,6) gm_get_keys by (fastforce simp: placement_def)
  ultimately show thesis using that [OF run ed] assms(4) by (simp add: placement_def)
qed

lemma MoveShard_refines:
  assumes "sm_state sm = Some st" "IsValid st" "state_wf st" "sensible st (WMoveShard shard src dst)"
  shows "\<exists>st'. refines_step (WMoveShard shard src dst) sm st st' (MoveShard shard src dst sm r)"
proof (cases "src = dst")
  case True
  then have "MoveShard shard src dst sm r = Ret (None, sm, r)" by (simp add: MoveShard_def)
  then show ?thesis unfolding True by (rule refines_same [OF assms(1-3) _ pl_stay]) simp
next
  case False
  let ?N = "set (gm_keys (Nodes st))"
  have ok: "1 \<le> shard" "shard \<le> NumShards st" "gm_get (Nodes st) dst \<noteq> None" using assms(4) by simp_all
  from assms(2,3) ok show ?thesis
  proof (cases rule: add_one_cases [where r = r])
    case (failed e)
    then have "MoveShard shard src dst sm r = Ret (Some e, sm, r)" using assms(1,3) False by (simp add: MoveShard_def workflow_simps)
    moreover have "place_step ?N (NumShards st) (placement st) (WMoveShard shard src dst, True) (placement st)"
      using False failed(1) by (intro pl_refused) (simp_all add: placement_def)
    ultimately show ?thesis by (rule refines_same [OF assms(1-3)]) simp
  next
    case (added r1)
    let ?st1 = "put_shard shard (nodes_for_shard st shard @ [dst]) st"
    show ?thesis
    proof (cases "src \<in> set (nodes_for_shard st shard)")
      case True
      obtain st' r' where mv: "MoveShard shard src dst sm r = Ret (None, sm\<lparr>sm_state := Some st'\<rparr>, r')" "edited (moved shard src dst) st st'"
        "placement st' = (placement st)(shard := insert dst (placement st shard - {src}))"
        "src \<in> placement st shard" "dst \<in> ?N - placement st shard"
        by (rule MoveShard_done [OF assms(1-3) True added(1) ok(3)])
      have "place_step ?N (NumShards st) (placement st) (WMoveShard shard src dst, False) (placement st')"
        unfolding mv(3) by (rule pl_moved [of _ "placement st", OF mv(4,5)])
      then show ?thesis by (rule refines_edited [OF mv(2,1)]) simp
    next
      case missing: False
      then have "src \<notin> set (nodes_for_shard ?st1 shard)" using False by simp
      then obtain e where "dropReplicasForShard ?st1 shard 1 [src] r1 = Ret (Some e, ?st1, r1)"
        using drop_one_missing [OF added(3) put_shard_wf [OF assms(3)]] by blast
      then have run: "MoveShard shard src dst sm r = Ret (Some e, sm\<lparr>sm_state := Some ?st1\<rparr>, r1)"
        using assms(1,3) False added(2) by (simp add: MoveShard_def workflow_simps)
      have "placement ?st1 = (placement st)(shard := insert dst (placement st shard))" by (auto simp: placement_def fun_eq_iff)
      moreover have "dst \<in> ?N - placement st shard" using ok(3) gm_get_keys added(1) by (fastforce simp: placement_def)
      moreover have "src \<notin> placement st shard" using missing by (simp add: placement_def)
      ultimately have "place_step ?N (NumShards st) (placement st) (WMoveShard shard src dst, True) (placement ?st1)"
        using pl_copied [of src dst "placement st" shard] False by simp
      then have "refines_step (WMoveShard shard src dst) sm st ?st1 (MoveShard shard src dst sm r)"
        using run added(3) assms(3) by (simp add: refines_step_def)
      then show ?thesis by blast
    qed
  qed
qed

lemma pick_movable_Some:
  assumes "pick_movable st r = Some (shard, r')"
  shows "0 < length (nodes_for_shard st shard) \<and> length (nodes_for_shard st shard) < length (Nodes st)"
proof -
  have "(case y of (shard, r') \<Rightarrow> 0 < length (nodes_for_shard st shard) \<and> length (nodes_for_shard st shard) < length (Nodes st))"
    if "pick_movable st r = Some y" for y
    using that
  proof (induction rule: pick_movable.raw_induct [rotated, consumes 1])
    case (1 f st r y)
    then show ?case by (auto simp: Let_def split: if_splits)
  qed
  from this [OF assms] show ?thesis by simp
qed

lemma shard_in_range:
  assumes "IsValid st" "state_wf st" "node \<in> set (nodes_for_shard st shard)"
  shows "1 \<le> shard \<and> shard \<le> NumShards st"
  using assms(1,3) unfolding IsValid_gm_iff [OF assms(2)] nodes_for_shard_def by (force split: option.splits)

lemma MoveRandomShard_refines:
  assumes "sm_state sm = Some st" "IsValid st" "state_wf st" "0 < NumShards st"
  shows "MoveRandomShard sm r = Hang \<or> (\<exists>st'. refines_step WMoveRandomShard sm st st' (MoveRandomShard sm r))"
proof (cases "pick_movable st r")
  case None
  then show ?thesis using assms(1,4) by (simp add: MoveRandomShard_def GetState_def)
next
  case (Some p)
  then obtain shard r1 where p: "pick_movable st r = Some (shard, r1)" by (cases p) auto
  let ?nodes = "nodes_for_shard st shard" and ?keys = "gm_keys (Nodes st)"
  define cands where "cands = [node \<leftarrow> ?keys. gm_get (sliceToMap ?nodes) node = None]"
  note movable = pick_movable_Some [OF p]
  have nd: "distinct ?nodes" "set ?nodes \<subseteq> set ?keys" using IsValid_nodes_for_shard assms(2,3) by blast+
  have "distinct ?keys" using assms(3) by (simp add: state_wf_def gm_wf_def)
  then have "length cands = length (Nodes st) - length ?nodes"
    using length_filter_notin [OF _ nd, of ] by (simp add: cands_def sliceToMap_get if_split_eq1 cong: if_cong)
  then have c: "0 < length cands" using movable by simp
  obtain i r2 where i: "draw (length ?nodes) r1 = (i, r2)" by fastforce
  obtain j r3 where j: "draw (length cands) r2 = (j, r3)" by fastforce
  have "i < length ?nodes" using draw_less [of "length ?nodes" r1] movable i by simp
  then have src: "?nodes ! i \<in> set ?nodes" by simp
  have "j < length cands" using draw_less [of "length cands" r2] c j by simp
  then have "cands ! j \<in> set cands" by simp
  then have dst: "cands ! j \<notin> set ?nodes" "gm_get (Nodes st) (cands ! j) \<noteq> None"
    unfolding gm_get_keys by (auto simp: cands_def sliceToMap_get split: if_splits)
  have eq: "MoveRandomShard sm r = MoveShard shard (?nodes ! i) (cands ! j) sm r3"
    using assms(1,4) p i j c by (simp add: MoveRandomShard_def GetState_def Let_def cands_def [symmetric] del: length_filter_map)
  have range: "1 \<le> shard" "shard \<le> NumShards st" using shard_in_range [OF assms(2,3) src] by simp_all
  obtain st' r' where mv: "MoveShard shard (?nodes ! i) (cands ! j) sm r3 = Ret (None, sm\<lparr>sm_state := Some st'\<rparr>, r')"
    "edited (moved shard (?nodes ! i) (cands ! j)) st st'"
    "placement st' = (placement st)(shard := insert (cands ! j) (placement st shard - {?nodes ! i}))"
    "?nodes ! i \<in> placement st shard" "cands ! j \<in> set ?keys - placement st shard"
    by (rule MoveShard_done [OF assms(1-3) src dst])
  have "place_step (set ?keys) (NumShards st) (placement st) (WMoveRandomShard, False) (placement st')"
    unfolding mv(3) by (rule pl_move_random [of _ _ _ "placement st", OF range mv(4,5)])
  then have "\<exists>st'. refines_step WMoveRandomShard sm st st' (MoveRandomShard sm r)" unfolding eq by (rule refines_edited [OF mv(2,1)]) simp
  then show ?thesis ..
qed

lemma DropShard_refines:
  assumes "sm_state sm = Some st" "IsValid st" "state_wf st" "1 \<le> shard" "shard \<le> NumShards st"
    and "w = WDropShard shard \<or> w = WDropRandomShard"
  shows "\<exists>st'. refines_step w sm st st' (DropShard shard sm r)"
proof -
  obtain rest r' where drop: "dropReplicasForShard st shard (int (length (nodes_for_shard st shard))) [] r = Ret (None, put_shard shard rest st, r')"
    "length rest = length (nodes_for_shard st shard) - length (nodes_for_shard st shard)"
    by (rule dropReplicasForShard_ok [OF assms(2,3), of "[]" "length (nodes_for_shard st shard)" shard r]) simp_all
  then have "rest = []" by simp
  then have run: "DropShard shard sm r = Ret (None, sm\<lparr>sm_state := Some (put_shard shard [] st)\<rparr>, r')"
    using assms(1,3) drop(1) by (simp add: DropShard_def workflow_simps gm_getz_nodes)
  have "placement (put_shard shard [] st) = (placement st)(shard := {})" by (auto simp: placement_def fun_eq_iff)
  then have "place_step (set (gm_keys (Nodes st))) (NumShards st) (placement st) (w, False) (placement (put_shard shard [] st))"
    using assms(4-6) by (auto intro: pl_drop pl_drop_random)
  moreover have "IsValid (put_shard shard [] st)" using assms by (intro put_shard_valid) auto
  ultimately have "refines_step w sm st (put_shard shard [] st) (DropShard shard sm r)" using run assms(3) by (simp add: refines_step_def)
  then show ?thesis by blast
qed

lemma DropRandomShard_refines:
  assumes "sm_state sm = Some st" "IsValid st" "state_wf st" "0 < NumShards st"
  shows "\<exists>st'. refines_step WDropRandomShard sm st st' (DropRandomShard sm r)"
proof -
  let ?shard = "int (shd r) mod NumShards st + 1"
  have "DropRandomShard sm r = DropShard ?shard sm (stl r)"
    using assms(1,4) by (simp add: DropRandomShard_def sm_NumShards_def GetState_def go_rem_nonneg)
  moreover have "1 \<le> ?shard" "?shard \<le> NumShards st" using pos_mod_bound [OF assms(4)] pos_mod_sign [OF assms(4)] by (simp_all add: zless_imp_add1_zle)
  ultimately show ?thesis using DropShard_refines [OF assms(1-3)] by metis
qed

lemma run_workflow_refines:
  assumes "sm_state sm = Some st" "IsValid st" "state_wf st" "sensible st w"
  shows "(w = WMoveRandomShard \<and> run_workflow w sm r = Hang) \<or> (\<exists>st'. refines_step w sm st st' (run_workflow w sm r))"
  using assms RemoveNode_refines [OF assms(1-3)] DrainNode_refines [OF assms(1-3)] MoveShard_refines [OF assms(1-3)]
    MoveRandomShard_refines [OF assms(1-3)] DropShard_refines [OF assms(1-3)] DropRandomShard_refines [OF assms(1-3)]
  by (cases w) auto

subsection \<open>Sequences of workflows\<close>

text \<open>A shard map with a valid state of the given nodes and number of shards.\<close>

definition cluster :: "(string, NodeInfo) gomap \<Rightarrow> int \<Rightarrow> ShardMap \<Rightarrow> bool" where
  "cluster nodes n sm \<longleftrightarrow> (\<exists>st. sm_state sm = Some st \<and> IsValid st \<and> state_wf st \<and> Nodes st = nodes \<and> NumShards st = n)"

definition placement_of :: "ShardMap \<Rightarrow> placement" where
  "placement_of sm = placement (the (sm_state sm))"

lemma refines_step_cluster:
  assumes "refines_step w sm st st' out" "sm_state sm = Some st" "Nodes st = nodes" "NumShards st = n"
  obtains err sm' r' where "out = Ret (err, sm', r')" "cluster nodes n sm'"
    "place_step (set (gm_keys nodes)) n (placement_of sm) (w, err \<noteq> None) (placement_of sm')"
  using assms unfolding refines_step_def cluster_def placement_of_def by force

text \<open>The concrete system: any sensible workflow of a test, run to its end on some random source. Its label is the workflow, and whether
  it returned an error.\<close>

definition workflow_step :: "ShardMap \<Rightarrow> workflow \<times> bool \<Rightarrow> ShardMap \<Rightarrow> bool" where
  "workflow_step sm l sm' \<longleftrightarrow>
     sensible (the (sm_state sm)) (fst l) \<and> (\<exists>r err r'. run_workflow (fst l) sm r = Ret (err, sm', r') \<and> snd l = (err \<noteq> None))"

lemma workflow_step_refines:
  assumes "cluster nodes n sm" "workflow_step sm l sm'"
  shows "cluster nodes n sm' \<and> place_step (set (gm_keys nodes)) n (placement_of sm) l (placement_of sm')"
proof -
  obtain st where st: "sm_state sm = Some st" "IsValid st" "state_wf st" "Nodes st = nodes" "NumShards st = n"
    using assms(1) by (auto simp: cluster_def)
  obtain w r err r' where w: "sensible st w" "run_workflow w sm r = Ret (err, sm', r')" "l = (w, err \<noteq> None)"
    using assms(2) st(1) by (cases l) (auto simp: workflow_step_def)
  then obtain st' where "refines_step w sm st st' (run_workflow w sm r)" using run_workflow_refines [OF st(1-3) w(1), of r] by auto
  then show ?thesis using w(2,3) st by (auto elim: refines_step_cluster)
qed

interpretation workflows: labelled_simulation workflow_step "place_step (set (gm_keys nodes)) n"
  "\<lambda>sm P. cluster nodes n sm \<and> P = placement_of sm" for nodes n
  by unfold_locales (use workflow_step_refines in blast)

lemma run_workflows_cluster:
  assumes "cluster nodes n sm" "\<forall>w \<in> set ws. sensible (the (sm_state sm)) w"
  shows "(WMoveRandomShard \<in> set ws \<and> run_workflows ws sm r = Hang) \<or>
    (\<exists>sm' r'. run_workflows ws sm r = Ret (sm', r') \<and> cluster nodes n sm')"
  using assms
proof (induction ws arbitrary: sm r)
  case (Cons w ws)
  obtain st where st: "sm_state sm = Some st" "IsValid st" "state_wf st" "Nodes st = nodes" "NumShards st = n"
    using Cons.prems(1) by (auto simp: cluster_def)
  have w: "sensible st w" using Cons.prems(2) st(1) by simp
  from run_workflow_refines [OF st(1-3) w, of r] show ?case
  proof (elim disjE conjE exE)
    fix st' assume "refines_step w sm st st' (run_workflow w sm r)"
    then obtain err sm' r' where step: "run_workflow w sm r = Ret (err, sm', r')" "cluster nodes n sm'"
      using st(1,4,5) by (elim refines_step_cluster)
    have "\<forall>v \<in> set ws. sensible (the (sm_state sm')) v"
      using Cons.prems(2) step(2) st sensible_cong [of "the (sm_state sm')" st] by (auto simp: cluster_def)
    from Cons.IH [OF step(2) this, of r'] show ?case using step(1) by auto
  qed simp
qed auto

subsection \<open>Properties\<close>

text \<open>C4: Shard maps stay well-formed under everything the tests do. Any sequence of the workflows on a valid shard map, with
  whatever random choices and also when single workflows report errors, ends with a valid, well-formed map of the
  same nodes and the same number of shards; none of the workflows panics. The only way not to return
  is a random move for which no shard can be found.\<close>

theorem workflows_keep_valid:
  assumes "sm_state sm = Some st" "IsValid st" "state_wf st" "list_all (sensible st) ws"
  shows "(WMoveRandomShard \<in> set ws \<and> run_workflows ws sm r = Hang) \<or>
    (\<exists>sm' st' r'. run_workflows ws sm r = Ret (sm', r') \<and> sm_state sm' = Some st' \<and> IsValid st' \<and> state_wf st' \<and>
       Nodes st' = Nodes st \<and> NumShards st' = NumShards st)"
proof -
  have "cluster (Nodes st) (NumShards st) sm" using assms(1-3) by (auto simp: cluster_def)
  from run_workflows_cluster [OF this, of ws r] show ?thesis using assms(1,4) by (auto simp: cluster_def list_all_iff)
qed

theorem workflows_keep_valid_witness:
  "\<exists>sm' st' r'. run_workflows [WDrainNode ''n2'', WMoveShard 1 ''n9'' ''n3'', WDropShard 2] example_sm (sconst 0) = Ret (sm', r') \<and>
     sm_state sm' = Some st' \<and> IsValid st'"
proof -
  let ?ws = "[WDrainNode ''n2'', WMoveShard 1 ''n9'' ''n3'', WDropShard 2]"
  have "list_all (sensible example_state) ?ws" by (simp add: example_state_def)
  from workflows_keep_valid [OF _ example_state_valid this, of example_sm "sconst 0"] show ?thesis by auto
qed

text \<open>C8: The workflows refine operations on placements, step by step and with the same labels. Whenever a test runs sensible workflows on a
  valid shard map, with any random choices, the sets of hosts change as the abstract operations of these very workflows say:
  a removed node hosts nothing and no other host changes, a drained node hosts nothing and shards keep their number of hosts
  unless every node hosts them, a move replaces the source by the destination, a dropped shard has no host, and the random ones
  do this for a shard of the map. A workflow reports an error exactly when the abstract operation says so.\<close>

theorem workflows_refine_placements:
  assumes "cluster nodes n sm" "trace workflow_step sm ls sm'"
  shows "trace (place_step (set (gm_keys nodes)) n) (placement_of sm) ls (placement_of sm') \<and> cluster nodes n sm'"
  using workflows.trace_refines [OF assms(2), of nodes n "placement_of sm"] assms(1) by auto

theorem workflows_refine_placements_witness:
  "\<exists>sm'. trace workflow_step example_sm [(WRemoveNode ''n1'', False), (WDropShard 2, False)] sm' \<and> ''n1'' \<in> placement_of example_sm 1 \<and>
     placement_of sm' = (\<lambda>shard. placement_of example_sm shard - {''n1''})(2 := {})"
proof -
  let ?nodes = "Nodes example_state" and ?n = "NumShards example_state"
  have c: "cluster ?nodes ?n example_sm" using example_state_valid by (auto simp: cluster_def)
  have step: "\<exists>sm'. workflow_step sm (w, False) sm' \<and> cluster ?nodes ?n sm'"
    if sm: "cluster ?nodes ?n sm" and w: "w = WRemoveNode ''n1'' \<or> w = WDropShard 2" for sm w
  proof -
    obtain st where st: "sm_state sm = Some st" "IsValid st" "state_wf st" "Nodes st = ?nodes" "NumShards st = ?n"
      using sm by (auto simp: cluster_def)
    have s: "sensible st w" using w st(5) by (auto simp: example_state_def)
    obtain err sm' r' where run: "run_workflow w sm (sconst 0) = Ret (err, sm', r')" "cluster ?nodes ?n sm'"
      "place_step (set (gm_keys ?nodes)) ?n (placement_of sm) (w, err \<noteq> None) (placement_of sm')"
      using run_workflow_refines [OF st(1-3) s, of "sconst 0"] w refines_step_cluster [OF _ st(1,4,5)] by blast
    have "err = None" using run(3) w by (auto elim: place_stepE)
    then show ?thesis using run(1,2) s st(1) unfolding workflow_step_def by auto
  qed
  obtain sm1 where s1: "workflow_step example_sm (WRemoveNode ''n1'', False) sm1" "cluster ?nodes ?n sm1" using step [OF c] by blast
  obtain sm2 where s2: "workflow_step sm1 (WDropShard 2, False) sm2" using step [OF s1(2)] by blast
  have run: "trace workflow_step example_sm [(WRemoveNode ''n1'', False), (WDropShard 2, False)] sm2"
    using s1(1) s2 by (simp add: trace_Cons_iff) blast
  have "placement_of sm2 = (\<lambda>shard. placement_of example_sm shard - {''n1''})(2 := {})"
    using workflows_refine_placements [OF c run] by (auto simp: trace_Cons_iff elim!: place_stepE)
  moreover have "''n1'' \<in> placement_of example_sm 1" by (simp add: placement_of_def placement_def) code_simp
  ultimately show ?thesis using run by blast
qed

end
