(* ===== verification/Checker.thy ===== *)
theory Checker
  imports Lab_Prelude
begin

text \<open>
  \<open>lab4/checker/checker.go\<close>: the consistency checker that runs beside the stress tester. Times
  are integers (nanoseconds); \<open>time.Now()\<close> is an argument. The nested Go maps are nested
  association lists, an inner map that is \<open>nil\<close> being an absent key, which reads the same.
\<close>

subsection \<open>The state\<close>

record checker_flags =
  checkCorrectness :: bool
  checkTtl :: bool
  ttlCheckBuffer :: int

record stateValue =
  sv_value :: string
  writtenAt :: int
  maybeExpiredBy :: int
  definitelyExpiredBy :: int
  sv_err :: "string option"
  overwrittenAt :: int

definition zero_stateValue :: stateValue where
  "zero_stateValue = \<lparr>sv_value = '''', writtenAt = 0, maybeExpiredBy = 0, definitelyExpiredBy = 0,
     sv_err = None, overwrittenAt = 0\<rparr>"

record ConsistencyChecker =
  ChecksRun :: u64
  cc_values :: "(string, (string, stateValue) gomap) gomap"
  overwrittenValues :: "(string, (string, stateValue) gomap) gomap"
  cc_version :: "(string, int) gomap"
  cc_rc :: "(string, int) gomap"

text \<open>The errors of \<open>CheckReadCorrect\<close>, with the data their messages print.\<close>

datatype read_error =
    NoValueFound "stateValue list"
  | WasOverwritten string int
  | NeverWritten stateValue
  | ValueExpired string int

definition MakeConsistencyChecker :: ConsistencyChecker where
  "MakeConsistencyChecker =
     \<lparr>ChecksRun = 0, cc_values = [], overwrittenValues = [], cc_version = [], cc_rc = []\<rparr>"

subsection \<open>The operations\<close>

definition BeginWrite :: "checker_flags \<Rightarrow> string \<Rightarrow> ConsistencyChecker \<Rightarrow> int \<times> ConsistencyChecker" where
  "BeginWrite fl key cc =
     (if \<not> checkCorrectness fl then (0, cc)
      else let cc = cc\<lparr>cc_rc := gm_put key (gm_getz 0 (cc_rc cc) key + 1) (cc_rc cc)\<rparr>
           in (gm_getz 0 (cc_version cc) key, cc))"

definition CompleteWrite :: "checker_flags \<Rightarrow> int \<Rightarrow> string \<Rightarrow> string \<Rightarrow> string option \<Rightarrow> int \<Rightarrow> int \<Rightarrow> int \<Rightarrow>
    ConsistencyChecker \<Rightarrow> ConsistencyChecker go" where
  "CompleteWrite fl now key val err initialVersion maybeExp definitelyExp cc =
     (if \<not> checkCorrectness fl then Ret cc
      else
        let newVal = \<lparr>sv_value = val, writtenAt = now, maybeExpiredBy = maybeExp,
                      definitelyExpiredBy = definitelyExp + ttlCheckBuffer fl, sv_err = err,
                      overwrittenAt = 0\<rparr>;
            currentVersion = gm_getz 0 (cc_version cc) key;
            vals = gm_getz [] (cc_values cc) key;
            old = gm_getz [] (overwrittenValues cc) key
        in if gm_get vals val \<noteq> None then Panic ''duplicate values are not supported!''
           else if gm_get old val \<noteq> None then Panic ''duplicate values are not supported!''
           else
             let cc =
               (if err = None \<and> initialVersion = currentVersion \<and> gm_getz 0 (cc_rc cc) key = 1
                then cc\<lparr>overwrittenValues :=
                          (if vals = [] then overwrittenValues cc
                           else gm_put key (fold (\<lambda>(_, v) m. gm_put (sv_value v) v m) vals old)
                                  (overwrittenValues cc)),
                        cc_values := gm_put key [(val, newVal)] (cc_values cc)\<rparr>
                else cc\<lparr>cc_values := gm_put key (gm_put val newVal vals) (cc_values cc)\<rparr>)
             in Ret (cc\<lparr>cc_rc := gm_put key (gm_getz 0 (cc_rc cc) key - 1) (cc_rc cc),
                        cc_version := gm_put key (gm_getz 0 (cc_version cc) key + 1) (cc_version cc)\<rparr>))"

definition BeginRead :: "checker_flags \<Rightarrow> string \<Rightarrow> ConsistencyChecker \<Rightarrow> int \<times> bool" where
  "BeginRead fl key cc =
     (if \<not> checkCorrectness fl then (0, False)
      else (gm_getz 0 (cc_version cc) key, gm_getz 0 (cc_rc cc) key \<noteq> 0))"

definition CheckReadCorrect :: "checker_flags \<Rightarrow> int \<Rightarrow> string \<Rightarrow> string \<Rightarrow> bool \<Rightarrow> int \<Rightarrow> int \<Rightarrow> bool \<Rightarrow>
    ConsistencyChecker \<Rightarrow> read_error option \<times> ConsistencyChecker" where
  "CheckReadCorrect fl now key val wasFound startTime initialVersion writesPending cc =
     (if \<not> checkCorrectness fl then (None, cc)
      else if gm_getz 0 (cc_version cc) key \<noteq> initialVersion \<or> writesPending \<or> gm_getz 0 (cc_rc cc) key \<noteq> 0
      then (None, cc)
      else
        let vals = gm_getz [] (cc_values cc) key; cc' = cc\<lparr>ChecksRun := ChecksRun cc + 1\<rparr>
        in if \<not> wasFound
           then (if vals = [] \<or> (\<exists>(_, v) \<in> set vals. maybeExpiredBy v < now) then (None, cc')
                 else (Some (NoValueFound [v. (_, v) \<leftarrow> vals, \<not> maybeExpiredBy v < now]), cc'))
           else (case gm_get vals val of
               None \<Rightarrow> (case gm_get (gm_getz [] (overwrittenValues cc) key) val of
                   Some o_val \<Rightarrow> (Some (WasOverwritten val (overwrittenAt o_val)), cc')
                 | None \<Rightarrow> (Some (NeverWritten zero_stateValue), cc'))
             | Some v \<Rightarrow>
                 if checkTtl fl \<and> sv_err v = None \<and> definitelyExpiredBy v < startTime
                 then (Some (ValueExpired val (startTime - maybeExpiredBy v)), cc')
                 else (None, cc')))"

subsection \<open>Views of the state\<close>

definition ver :: "ConsistencyChecker \<Rightarrow> string \<Rightarrow> int" where
  "ver cc k = gm_getz 0 (cc_version cc) k"

definition rcount :: "ConsistencyChecker \<Rightarrow> string \<Rightarrow> int" where
  "rcount cc k = gm_getz 0 (cc_rc cc) k"

definition valof :: "ConsistencyChecker \<Rightarrow> string \<Rightarrow> string \<Rightarrow> stateValue option" where
  "valof cc k v = gm_get (gm_getz [] (cc_values cc) k) v"

definition ovrof :: "ConsistencyChecker \<Rightarrow> string \<Rightarrow> string \<Rightarrow> stateValue option" where
  "ovrof cc k v = gm_get (gm_getz [] (overwrittenValues cc) k) v"

definition entries :: "ConsistencyChecker \<Rightarrow> string \<Rightarrow> (string \<times> stateValue) set" where
  "entries cc k = set (gm_getz [] (cc_values cc) k)"

lemma valof_entries: "valof cc k v = Some sv \<Longrightarrow> (v, sv) \<in> entries cc k"
  by (simp add: valof_def entries_def map_of_SomeD)

lemma entries_valof: "(v, sv) \<in> entries cc k \<Longrightarrow> valof cc k v \<noteq> None"
  unfolding valof_def entries_def by (metis option.distinct(1) weak_map_of_SomeI)

lemma set_update_subset: "set (gm_put k v m) \<subseteq> insert (k, v) (set m)"
  by (induction m) auto

lemmas cc_views = ver_def rcount_def valof_def ovrof_def

definition new_value :: "checker_flags \<Rightarrow> int \<Rightarrow> string \<Rightarrow> string option \<Rightarrow> int \<Rightarrow> int \<Rightarrow> stateValue" where
  "new_value fl now val err mexp dexp =
     \<lparr>sv_value = val, writtenAt = now, maybeExpiredBy = mexp,
      definitelyExpiredBy = dexp + ttlCheckBuffer fl, sv_err = err, overwrittenAt = 0\<rparr>"

lemma new_value_simps [simp]:
  "sv_value (new_value fl now val err mexp dexp) = val"
  "maybeExpiredBy (new_value fl now val err mexp dexp) = mexp"
  "definitelyExpiredBy (new_value fl now val err mexp dexp) = dexp + ttlCheckBuffer fl"
  "sv_err (new_value fl now val err mexp dexp) = err"
  by (simp_all add: new_value_def)

lemma BeginWrite_views:
  assumes "checkCorrectness fl" "BeginWrite fl key cc = (iv, cc')"
  shows "iv = ver cc key" "ver cc' = ver cc" "rcount cc' = (rcount cc)(key := rcount cc key + 1)"
    "valof cc' = valof cc" "ovrof cc' = ovrof cc"
  using assms by (auto simp: BeginWrite_def cc_views fun_eq_iff Let_def)

lemma CheckReadCorrect_views:
  assumes "CheckReadCorrect fl now key val found start iv pending cc = (e, cc')"
  shows "ver cc' = ver cc" "rcount cc' = rcount cc" "valof cc' = valof cc" "ovrof cc' = ovrof cc"
    "entries cc' = entries cc"
  using assms
  by (auto simp: CheckReadCorrect_def Let_def cc_views entries_def fun_eq_iff split: if_splits option.splits)

lemma BeginWrite_entries: "BeginWrite fl key cc = (iv, cc') \<Longrightarrow> entries cc' = entries cc"
  by (auto simp: BeginWrite_def Let_def entries_def fun_eq_iff split: if_splits)

lemma fold_overwritten:
  "gm_get (fold (\<lambda>(_, v) m. gm_put (sv_value v) v m) vals old) x \<noteq> None \<Longrightarrow>
     gm_get old x \<noteq> None \<or> x \<in> sv_value ` snd ` set vals"
  by (induction vals arbitrary: old) (force split: if_splits)+

text \<open>A write that completes alone replaces the possible values; any other adds to them.\<close>

lemma CompleteWrite_views:
  assumes "checkCorrectness fl" "valof cc key val = None" "ovrof cc key val = None"
  obtains cc' where
    "CompleteWrite fl now key val err iv mexp dexp cc = Ret cc'"
    "ver cc' = (ver cc)(key := ver cc key + 1)"
    "rcount cc' = (rcount cc)(key := rcount cc key - 1)"
    "valof cc' = (valof cc)(key :=
       (if err = None \<and> iv = ver cc key \<and> rcount cc key = 1 then Map.empty else valof cc key)
         (val \<mapsto> new_value fl now val err mexp dexp))"
    "\<And>k x. ovrof cc' k x \<noteq> None \<Longrightarrow>
       ovrof cc k x \<noteq> None \<or> (k = key \<and> (\<exists>v sv. (v, sv) \<in> entries cc key \<and> sv_value sv = x))"
    "entries cc' key \<subseteq> insert (val, new_value fl now val err mexp dexp) (entries cc key)"
    "\<And>k. k \<noteq> key \<Longrightarrow> entries cc' k = entries cc k"
proof (cases "err = None \<and> iv = ver cc key \<and> rcount cc key = 1")
  case True
  let ?vals = "gm_getz [] (cc_values cc) key" and ?old = "gm_getz [] (overwrittenValues cc) key"
  let ?ov = "if ?vals = [] then overwrittenValues cc
    else gm_put key (fold (\<lambda>(_, v) m. gm_put (sv_value v) v m) ?vals ?old) (overwrittenValues cc)"
  let ?cc = "cc\<lparr>overwrittenValues := ?ov,
      cc_values := gm_put key [(val, new_value fl now val err mexp dexp)] (cc_values cc),
      cc_rc := gm_put key (gm_getz 0 (cc_rc cc) key - 1) (cc_rc cc),
      cc_version := gm_put key (gm_getz 0 (cc_version cc) key + 1) (cc_version cc)\<rparr>"
  show ?thesis
  proof (rule that [of ?cc])
    show "CompleteWrite fl now key val err iv mexp dexp cc = Ret ?cc"
      using assms True by (simp add: CompleteWrite_def Let_def cc_views new_value_def)
    show "ovrof ?cc k x \<noteq> None \<Longrightarrow> ovrof cc k x \<noteq> None \<or>
        (k = key \<and> (\<exists>v sv. (v, sv) \<in> entries cc key \<and> sv_value sv = x))" for k x
      using fold_overwritten [of ?vals ?old x] by (force simp: ovrof_def entries_def split: if_splits)
    show "entries ?cc key \<subseteq> insert (val, new_value fl now val err mexp dexp) (entries cc key)"
      by (auto simp: entries_def)
  qed (use True in \<open>auto simp: cc_views entries_def fun_eq_iff\<close>)
next
  case False
  let ?vals = "gm_getz [] (cc_values cc) key"
  let ?cc = "cc\<lparr>cc_values := gm_put key (gm_put val (new_value fl now val err mexp dexp) ?vals) (cc_values cc),
      cc_rc := gm_put key (gm_getz 0 (cc_rc cc) key - 1) (cc_rc cc),
      cc_version := gm_put key (gm_getz 0 (cc_version cc) key + 1) (cc_version cc)\<rparr>"
  show ?thesis
  proof (rule that [of ?cc])
    show "CompleteWrite fl now key val err iv mexp dexp cc = Ret ?cc"
      using assms False by (auto simp: CompleteWrite_def Let_def cc_views new_value_def)
    show "entries ?cc key \<subseteq> insert (val, new_value fl now val err mexp dexp) (entries cc key)"
      using set_update_subset [of val "new_value fl now val err mexp dexp" ?vals] by (auto simp: entries_def)
  qed (use False in \<open>auto simp: cc_views entries_def fun_eq_iff\<close>)
qed

end
