(* ===== verification/Stress_Tester.thy ===== *)
theory Stress_Tester
  imports Checker
begin

text \<open>
  \<open>lab4/cmd/stress/tester.go\<close>: the request functions of \<open>stressGets\<close> and \<open>stressSets\<close> run
  concurrently against a key-value cluster and report to the checker. The cluster itself is
  abstract: a store with one value and one expiry time per key. A \<open>Set\<close> takes effect at one
  instant between its call and its return; one that returns an error may have taken effect or
  not. A \<open>Get\<close> reads the store at one instant. Each rule below is one atomic section: a call of
  the checker (which runs under its mutex) or the instant at which a request hits the store. The start time of a
  request may be taken any time before the first call of the checker, and the end time of a \<open>Set\<close> any time between its
  effect and its completion. Values are new for their key: the code draws 32 random letters, and the checker
  panics on a repeated value.
\<close>

record pending_set =
  ps_key :: string
  ps_value :: string
  ps_version :: int
  ps_start :: int
  ps_effect :: "int option"

datatype get_result = Found string | NotFound

record pending_get =
  pg_key :: string
  pg_version :: int
  pg_pending :: bool
  pg_start :: int
  pg_result :: "(get_result \<times> int) option"

record world =
  w_cc :: ConsistencyChecker
  w_now :: int
  w_sets :: "pending_set list"
  w_gets :: "pending_get list"
  w_store :: "string \<Rightarrow> (string \<times> int) option"
  w_used :: "(string \<times> string) set"
  w_failed :: "string set"

definition init_world :: "world \<Rightarrow> bool" where
  "init_world w \<longleftrightarrow> w_cc w = MakeConsistencyChecker \<and> w_sets w = [] \<and> w_gets w = [] \<and>
     w_store w = (\<lambda>_. None) \<and> w_used w = {} \<and> w_failed w = {}"

text \<open>What a read of the store at time \<open>now\<close> gives.\<close>

definition store_read :: "(string \<times> int) option \<Rightarrow> int \<Rightarrow> get_result" where
  "store_read cell now = (case cell of None \<Rightarrow> NotFound | Some (v, e) \<Rightarrow> if now \<le> e then Found v else NotFound)"

text \<open>The check at the end of \<open>stressGets\<close>.\<close>

definition check_get :: "checker_flags \<Rightarrow> world \<Rightarrow> pending_get \<Rightarrow> get_result \<Rightarrow> read_error option \<times> ConsistencyChecker" where
  "check_get fl w g res =
     (case res of
         Found v \<Rightarrow> CheckReadCorrect fl (w_now w) (pg_key g) v True (pg_start g) (pg_version g) (pg_pending g) (w_cc w)
       | NotFound \<Rightarrow> CheckReadCorrect fl (w_now w) (pg_key g) '''' False (pg_start g) (pg_version g) (pg_pending g) (w_cc w))"

inductive wstep :: "checker_flags \<Rightarrow> int \<Rightarrow> world \<Rightarrow> world \<Rightarrow> bool"
  for fl :: checker_flags and ttl :: int where
  tick: "w_now w \<le> t \<Longrightarrow> wstep fl ttl w (w\<lparr>w_now := t\<rparr>)"
| set_begin: "start \<le> w_now w \<Longrightarrow> (k, v) \<notin> w_used w \<Longrightarrow> BeginWrite fl k (w_cc w) = (iv, cc) \<Longrightarrow>
    wstep fl ttl w (w\<lparr>w_cc := cc, w_used := insert (k, v) (w_used w),
      w_sets := \<lparr>ps_key = k, ps_value = v, ps_version = iv, ps_start = start, ps_effect = None\<rparr> # w_sets w\<rparr>)"
| set_effect: "w_sets w = ps @ p # ps' \<Longrightarrow> ps_effect p = None \<Longrightarrow>
    wstep fl ttl w (w\<lparr>w_sets := ps @ p\<lparr>ps_effect := Some (w_now w)\<rparr> # ps',
      w_store := (w_store w)(ps_key p \<mapsto> (ps_value p, w_now w + ttl))\<rparr>)"
| set_complete: "w_sets w = ps @ p # ps' \<Longrightarrow> (err = None \<longrightarrow> ps_effect p \<noteq> None) \<Longrightarrow>
    (\<forall>te. ps_effect p = Some te \<longrightarrow> te \<le> fin) \<Longrightarrow> fin \<le> w_now w \<Longrightarrow>
    CompleteWrite fl (w_now w) (ps_key p) (ps_value p) err (ps_version p) (ps_start p + ttl) (fin + ttl) (w_cc w)
      = Ret cc \<Longrightarrow>
    wstep fl ttl w (w\<lparr>w_cc := cc, w_sets := ps @ ps',
      w_failed := (if err = None then w_failed w else insert (ps_key p) (w_failed w))\<rparr>)"
| get_begin: "start \<le> w_now w \<Longrightarrow> BeginRead fl k (w_cc w) = (iv, pending) \<Longrightarrow>
    wstep fl ttl w (w\<lparr>w_gets := \<lparr>pg_key = k, pg_version = iv, pg_pending = pending,
      pg_start = start, pg_result = None\<rparr> # w_gets w\<rparr>)"
| get_read: "w_gets w = gs @ g # gs' \<Longrightarrow> pg_result g = None \<Longrightarrow>
    wstep fl ttl w (w\<lparr>w_gets := gs @
      g\<lparr>pg_result := Some (store_read (w_store w (pg_key g)) (w_now w), w_now w)\<rparr> # gs'\<rparr>)"
| get_check: "w_gets w = gs @ g # gs' \<Longrightarrow> pg_result g = Some (res, t) \<Longrightarrow>
    check_get fl w g res = (verdict, cc) \<Longrightarrow> wstep fl ttl w (w\<lparr>w_gets := gs @ gs', w_cc := cc\<rparr>)"

subsection \<open>The invariant\<close>

text \<open>The value in the store is still being written, or it is recorded by the checker.\<close>

definition in_flight :: "int \<Rightarrow> world \<Rightarrow> string \<Rightarrow> string \<Rightarrow> int \<Rightarrow> bool" where
  "in_flight ttl w k v e \<longleftrightarrow>
     (\<exists>p \<in> set (w_sets w). ps_key p = k \<and> ps_value p = v \<and> (\<exists>te. ps_effect p = Some te \<and> e = te + ttl))"

definition recorded :: "world \<Rightarrow> string \<Rightarrow> string \<Rightarrow> int \<Rightarrow> bool" where
  "recorded w k v e \<longleftrightarrow>
     (\<exists>sv. valof (w_cc w) k v = Some sv \<and> maybeExpiredBy sv \<le> e \<and> (sv_err sv = None \<longrightarrow> e \<le> definitelyExpiredBy sv))"

definition inv_count :: "world \<Rightarrow> bool" where
  "inv_count w \<longleftrightarrow> (\<forall>k. rcount (w_cc w) k = int (length [p \<leftarrow> w_sets w. ps_key p = k]))"

definition inv_version :: "world \<Rightarrow> bool" where
  "inv_version w \<longleftrightarrow> (\<forall>p \<in> set (w_sets w). ps_version p \<le> ver (w_cc w) (ps_key p)) \<and>
     (\<forall>g \<in> set (w_gets w). pg_version g \<le> ver (w_cc w) (pg_key g))"

definition inv_fresh :: "world \<Rightarrow> bool" where
  "inv_fresh w \<longleftrightarrow> distinct (map (\<lambda>p. (ps_key p, ps_value p)) (w_sets w)) \<and>
     (\<forall>p \<in> set (w_sets w). (ps_key p, ps_value p) \<in> w_used w \<and>
        valof (w_cc w) (ps_key p) (ps_value p) = None \<and> ovrof (w_cc w) (ps_key p) (ps_value p) = None) \<and>
     (\<forall>k v sv. (v, sv) \<in> entries (w_cc w) k \<longrightarrow> (k, v) \<in> w_used w \<and> sv_value sv = v) \<and>
     (\<forall>k v. ovrof (w_cc w) k v \<noteq> None \<longrightarrow> (k, v) \<in> w_used w)"

definition inv_time :: "world \<Rightarrow> bool" where
  "inv_time w \<longleftrightarrow> (\<forall>p \<in> set (w_sets w). ps_start p \<le> w_now w \<and>
        (\<forall>te. ps_effect p = Some te \<longrightarrow> ps_start p \<le> te \<and> te \<le> w_now w)) \<and>
     (\<forall>g \<in> set (w_gets w). pg_start g \<le> w_now w \<and>
        (\<forall>res t. pg_result g = Some (res, t) \<longrightarrow> pg_start g \<le> t \<and> t \<le> w_now w))"

definition inv_store :: "int \<Rightarrow> world \<Rightarrow> bool" where
  "inv_store ttl w \<longleftrightarrow>
     (\<forall>k v e. w_store w k = Some (v, e) \<longrightarrow> in_flight ttl w k v e \<or> recorded w k v e) \<and>
     (\<forall>k. w_store w k = None \<longrightarrow> (entries (w_cc w) k = {} \<or> k \<in> w_failed w) \<and>
        (\<forall>p \<in> set (w_sets w). ps_key p = k \<longrightarrow> ps_effect p = None)) \<and>
     (\<forall>p \<in> set (w_sets w). ps_effect p \<noteq> None \<and> ps_version p = ver (w_cc w) (ps_key p) \<longrightarrow>
        (\<exists>v e. w_store w (ps_key p) = Some (v, e) \<and> in_flight ttl w (ps_key p) v e))"

definition get_ok :: "int \<Rightarrow> world \<Rightarrow> pending_get \<Rightarrow> get_result \<Rightarrow> int \<Rightarrow> bool" where
  "get_ok ttl w g res t \<longleftrightarrow>
     (\<exists>p \<in> set (w_sets w). ps_key p = pg_key g) \<or>
     (case res of
        Found v \<Rightarrow> (\<exists>e. recorded w (pg_key g) v e \<and> t \<le> e)
      | NotFound \<Rightarrow> pg_key g \<in> w_failed w \<or> entries (w_cc w) (pg_key g) = {} \<or>
          (\<exists>(v, sv) \<in> entries (w_cc w) (pg_key g). maybeExpiredBy sv < t))"

definition inv_gets :: "int \<Rightarrow> world \<Rightarrow> bool" where
  "inv_gets ttl w \<longleftrightarrow> (\<forall>g \<in> set (w_gets w). \<forall>res t. pg_result g = Some (res, t) \<longrightarrow>
     pg_version g = ver (w_cc w) (pg_key g) \<longrightarrow> get_ok ttl w g res t)"

definition winv :: "int \<Rightarrow> world \<Rightarrow> bool" where
  "winv ttl w \<longleftrightarrow> inv_count w \<and> inv_version w \<and> inv_fresh w \<and> inv_time w \<and> inv_store ttl w \<and> inv_gets ttl w"

lemmas winv_defs = winv_def inv_count_def inv_version_def inv_fresh_def inv_time_def inv_store_def inv_gets_def

subsection \<open>Every step keeps the invariant\<close>

lemma winv_init: "init_world w \<Longrightarrow> winv ttl w"
  by (simp add: winv_defs init_world_def MakeConsistencyChecker_def cc_views entries_def gm_getz_def)

lemma winv_storeD:
  assumes "winv ttl w"
  shows "w_store w k = Some (v, e) \<Longrightarrow> in_flight ttl w k v e \<or> recorded w k v e"
    and "w_store w k = None \<Longrightarrow> entries (w_cc w) k = {} \<or> k \<in> w_failed w"
    and "w_store w k = None \<Longrightarrow> p \<in> set (w_sets w) \<Longrightarrow> ps_key p = k \<Longrightarrow> ps_effect p = None"
    and "p \<in> set (w_sets w) \<Longrightarrow> ps_effect p \<noteq> None \<Longrightarrow> ps_version p = ver (w_cc w) (ps_key p) \<Longrightarrow>
      \<exists>v e. w_store w (ps_key p) = Some (v, e) \<and> in_flight ttl w (ps_key p) v e"
  using assms unfolding winv_def inv_store_def by blast+

lemma winv_freshD:
  assumes "winv ttl w"
  shows "(v, sv) \<in> entries (w_cc w) k \<Longrightarrow> (k, v) \<in> w_used w"
    and "(v, sv) \<in> entries (w_cc w) k \<Longrightarrow> sv_value sv = v"
    and "ovrof (w_cc w) k v \<noteq> None \<Longrightarrow> (k, v) \<in> w_used w"
  using assms unfolding winv_def inv_fresh_def by blast+

text \<open>Steps that only move the clock, or change the reads.\<close>

lemma get_ok_cong:
  assumes "w_sets w' = w_sets w" "valof (w_cc w') = valof (w_cc w)" "entries (w_cc w') = entries (w_cc w)"
    "w_failed w' = w_failed w"
  shows "get_ok ttl w' = get_ok ttl w" "in_flight ttl w' = in_flight ttl w" "recorded w' = recorded w"
  by (simp_all add: assms get_ok_def in_flight_def recorded_def fun_eq_iff split: get_result.splits)

lemma winv_tick:
  assumes "winv ttl w" "w_now w \<le> t"
  shows "winv ttl (w\<lparr>w_now := t\<rparr>)"
proof -
  have "get_ok ttl (w\<lparr>w_now := t\<rparr>) = get_ok ttl w" "in_flight ttl (w\<lparr>w_now := t\<rparr>) = in_flight ttl w"
    "recorded (w\<lparr>w_now := t\<rparr>) = recorded w"
    by (rule get_ok_cong; simp)+
  then show ?thesis using assms by (fastforce simp: winv_defs)
qed

lemma winv_gets_change:
  assumes "winv ttl w" "set gs \<subseteq> insert g (set (w_gets w))"
    and "pg_version g \<le> ver (w_cc w) (pg_key g)" "pg_start g \<le> w_now w"
    and "\<And>res t. pg_result g = Some (res, t) \<Longrightarrow>
      pg_start g \<le> t \<and> t \<le> w_now w \<and> (pg_version g = ver (w_cc w) (pg_key g) \<longrightarrow> get_ok ttl w g res t)"
    and cc: "ver cc = ver (w_cc w)" "rcount cc = rcount (w_cc w)" "valof cc = valof (w_cc w)"
      "ovrof cc = ovrof (w_cc w)" "entries cc = entries (w_cc w)"
  shows "winv ttl (w\<lparr>w_gets := gs, w_cc := cc\<rparr>)"
proof -
  let ?w = "w\<lparr>w_gets := gs, w_cc := cc\<rparr>"
  have eq: "get_ok ttl ?w = get_ok ttl w" "in_flight ttl ?w = in_flight ttl w" "recorded ?w = recorded w"
    by (rule get_ok_cong; simp add: cc)+
  have "inv_count ?w" "inv_fresh ?w" "inv_store ttl ?w"
    using assms(1) by (simp_all add: winv_defs cc eq)
  moreover have old: "inv_version w" "inv_time w" "inv_gets ttl w"
    using assms(1) by (simp_all add: winv_def)
  have g: "x = g \<or> x \<in> set (w_gets w)" if "x \<in> set gs" for x
    using assms(2) that by blast
  moreover have "inv_version ?w"
    using old(1) assms(3) by (auto simp: inv_version_def cc dest!: g)
  moreover have "inv_time ?w"
    using old(2) assms(4,5) by (fastforce simp: inv_time_def cc dest!: g)
  moreover have "inv_gets ttl ?w"
    using old(3) assms(5) by (fastforce simp: inv_gets_def cc eq dest!: g)
  ultimately show ?thesis by (simp add: winv_def)
qed

lemma winv_get_begin:
  assumes "winv ttl w" "checkCorrectness fl" "start \<le> w_now w" "BeginRead fl k (w_cc w) = (iv, pending)"
  shows "winv ttl (w\<lparr>w_gets := \<lparr>pg_key = k, pg_version = iv, pg_pending = pending,
    pg_start = start, pg_result = None\<rparr> # w_gets w\<rparr>)"
proof -
  let ?g = "\<lparr>pg_key = k, pg_version = iv, pg_pending = pending, pg_start = start, pg_result = None\<rparr>"
  have "iv = ver (w_cc w) k" using assms(2,4) by (simp add: BeginRead_def ver_def)
  then have "winv ttl (w\<lparr>w_gets := ?g # w_gets w, w_cc := w_cc w\<rparr>)"
    using assms(1,3) by (intro winv_gets_change [where g = ?g]) auto
  then show ?thesis by simp
qed

lemma store_read_ok:
  assumes "winv ttl w"
  shows "get_ok ttl w g (store_read (w_store w (pg_key g)) (w_now w)) (w_now w)"
proof (cases "w_store w (pg_key g)")
  case None
  then have "entries (w_cc w) (pg_key g) = {} \<or> pg_key g \<in> w_failed w"
    by (rule winv_storeD(2) [OF assms])
  with None show ?thesis by (auto simp: get_ok_def store_read_def)
next
  case (Some c)
  obtain v e where c: "c = (v, e)" by (cases c)
  from assms Some c consider "in_flight ttl w (pg_key g) v e" | "recorded w (pg_key g) v e"
    using winv_storeD(1) by blast
  then show ?thesis
  proof cases
    case 1
    then show ?thesis by (auto simp: in_flight_def get_ok_def)
  next
    case 2
    then obtain sv where "valof (w_cc w) (pg_key g) v = Some sv" "maybeExpiredBy sv \<le> e"
      by (auto simp: recorded_def)
    then have "(v, sv) \<in> entries (w_cc w) (pg_key g)" "maybeExpiredBy sv \<le> e"
      by (auto dest: valof_entries)
    with 2 Some c show ?thesis by (fastforce simp: get_ok_def store_read_def)
  qed
qed

lemma winv_get_read:
  assumes "winv ttl w" "w_gets w = gs @ g # gs'"
  shows "winv ttl (w\<lparr>w_gets := gs @
    g\<lparr>pg_result := Some (store_read (w_store w (pg_key g)) (w_now w), w_now w)\<rparr> # gs'\<rparr>)"
proof -
  let ?g = "g\<lparr>pg_result := Some (store_read (w_store w (pg_key g)) (w_now w), w_now w)\<rparr>"
  have "get_ok ttl w ?g = get_ok ttl w g" by (simp add: get_ok_def fun_eq_iff cong: get_result.case_cong)
  then have "winv ttl (w\<lparr>w_gets := gs @ ?g # gs', w_cc := w_cc w\<rparr>)"
    using assms store_read_ok [OF assms(1), of g]
    by (intro winv_gets_change [where g = ?g]) (auto simp: winv_def inv_version_def inv_time_def)
  then show ?thesis by simp
qed

lemma winv_get_check:
  assumes "winv ttl w" "w_gets w = gs @ g # gs'" "check_get fl w g res = (verdict, cc)"
  shows "winv ttl (w\<lparr>w_gets := gs @ gs', w_cc := cc\<rparr>)"
proof (rule winv_gets_change [where g = g, OF assms(1)])
  have g: "g \<in> set (w_gets w)" using assms(2) by simp
  show "pg_version g \<le> ver (w_cc w) (pg_key g)" "pg_start g \<le> w_now w"
    using assms(1) g by (auto simp: winv_def inv_version_def inv_time_def)
  show "pg_start g \<le> t \<and> t \<le> w_now w \<and> (pg_version g = ver (w_cc w) (pg_key g) \<longrightarrow> get_ok ttl w g res t)"
    if "pg_result g = Some (res, t)" for res t
    using assms(1) g that by (auto simp: winv_def inv_time_def inv_gets_def)
  show "ver cc = ver (w_cc w)" "rcount cc = rcount (w_cc w)" "valof cc = valof (w_cc w)"
    "ovrof cc = ovrof (w_cc w)" "entries cc = entries (w_cc w)"
    using assms(3) by (auto simp: check_get_def dest: CheckReadCorrect_views split: get_result.splits)
qed (use assms(2) in auto)

lemma winv_set_begin:
  assumes "winv ttl w" "checkCorrectness fl" "start \<le> w_now w" "(k, v) \<notin> w_used w" "BeginWrite fl k (w_cc w) = (iv, cc)"
  shows "winv ttl (w\<lparr>w_cc := cc, w_used := insert (k, v) (w_used w),
    w_sets := \<lparr>ps_key = k, ps_value = v, ps_version = iv, ps_start = start, ps_effect = None\<rparr> # w_sets w\<rparr>)"
    (is "winv ttl ?w")
proof -
  note views = BeginWrite_views(2-5) [OF assms(2,5)] BeginWrite_entries [OF assms(5)]
    and iv = BeginWrite_views(1) [OF assms(2,5)]
  have fl: "in_flight ttl ?w = in_flight ttl w" and re: "recorded ?w = recorded w"
    by (auto simp: in_flight_def recorded_def fun_eq_iff views)
  have go: "get_ok ttl ?w g res t" if "get_ok ttl w g res t" for g res t
    using that by (auto simp: get_ok_def re views split: get_result.splits)
  have new: "valof (w_cc w) k v = None" "ovrof (w_cc w) k v = None"
    using winv_freshD [OF assms(1)] assms(4) valof_entries [of "w_cc w" k v] by (metis not_None_eq)+
  have "inv_count ?w" "inv_version ?w" "inv_time ?w"
    using assms(1,3) by (auto simp: winv_def inv_count_def inv_version_def inv_time_def views iv)
  moreover have "inv_fresh ?w"
    using assms(1,4) new by (auto simp: winv_def inv_fresh_def views)
  moreover have "inv_store ttl ?w"
    using assms(1) by (auto simp: winv_def inv_store_def fl re views)
  moreover have "inv_gets ttl ?w"
    using assms(1) go by (auto simp: winv_def inv_gets_def views)
  ultimately show ?thesis by (simp add: winv_def)
qed

lemma winv_set_effect:
  assumes "winv ttl w" "w_sets w = ps @ p # ps'" "ps_effect p = None"
  shows "winv ttl (w\<lparr>w_sets := ps @ p\<lparr>ps_effect := Some (w_now w)\<rparr> # ps',
    w_store := (w_store w)(ps_key p \<mapsto> (ps_value p, w_now w + ttl))\<rparr>)" (is "winv ttl ?w")
proof -
  let ?p = "p\<lparr>ps_effect := Some (w_now w)\<rparr>"
  have p: "p \<in> set (w_sets w)" using assms(2) by simp
  have re: "recorded ?w = recorded w" by (simp add: recorded_def fun_eq_iff)
  have fl: "in_flight ttl ?w k v e" if "in_flight ttl w k v e" for k v e
    using that assms(2,3) by (auto simp: in_flight_def)
  have new: "in_flight ttl ?w (ps_key p) (ps_value p) (w_now w + ttl)"
    by (auto simp: in_flight_def)
  have go: "get_ok ttl ?w g res t" if "get_ok ttl w g res t" for g res t
    using that assms(2) by (auto simp: get_ok_def re split: get_result.splits)
  have "inv_count ?w" using assms(1,2) by (simp add: winv_def inv_count_def)
  moreover have "inv_version ?w" "inv_time ?w"
    using assms(1,2) by (auto simp: winv_def inv_version_def inv_time_def)
  moreover have "inv_fresh ?w" using assms(1,2) by (simp add: winv_def inv_fresh_def)
  moreover have "inv_gets ttl ?w" using assms(1) go by (simp add: winv_def inv_gets_def)
  moreover have "inv_store ttl ?w"
    unfolding inv_store_def
  proof (intro conjI allI ballI impI)
    fix k v e assume "w_store ?w k = Some (v, e)"
    then show "in_flight ttl ?w k v e \<or> recorded ?w k v e"
      using winv_storeD(1) [OF assms(1), of k v e] new fl [of k v e] re by (auto split: if_splits)
  next
    fix k assume "w_store ?w k = None"
    then have k: "k \<noteq> ps_key p" "w_store w k = None" by (auto split: if_splits)
    then show "entries (w_cc ?w) k = {} \<or> k \<in> w_failed ?w"
      using winv_storeD(2) [OF assms(1), of k] by simp
    show "ps_effect q = None" if "q \<in> set (w_sets ?w)" "ps_key q = k" for q
      using winv_storeD(3) [OF assms(1) k(2), of q] assms(2) k that by auto
  next
    fix q assume q: "q \<in> set (w_sets ?w)"
      and "ps_effect q \<noteq> None \<and> ps_version q = ver (w_cc ?w) (ps_key q)"
    then show "\<exists>v e. w_store ?w (ps_key q) = Some (v, e) \<and> in_flight ttl ?w (ps_key q) v e"
      using winv_storeD(4) [OF assms(1), of q] assms(2) new fl
      by (cases "ps_key q = ps_key p") (auto 4 4)
  qed
  ultimately show ?thesis by (simp add: winv_def)
qed

text \<open>The set that completes alone owns the value in the store.\<close>

lemma exclusive_owner:
  assumes "winv ttl w" "w_sets w = ps @ p # ps'" "ps_effect p \<noteq> None"
    and "ps_version p = ver (w_cc w) (ps_key p)" "rcount (w_cc w) (ps_key p) = 1"
  obtains te where "ps_effect p = Some te" "w_store w (ps_key p) = Some (ps_value p, te + ttl)"
proof -
  have "length [q \<leftarrow> w_sets w. ps_key q = ps_key p] = 1"
    using assms(1,5) by (simp add: winv_def inv_count_def)
  then have none: "\<forall>q \<in> set (ps @ ps'). ps_key q \<noteq> ps_key p"
    using assms(2) by (auto simp: filter_empty_conv)
  obtain v e where st: "w_store w (ps_key p) = Some (v, e)" "in_flight ttl w (ps_key p) v e"
    using winv_storeD(4) [OF assms(1), of p] assms(2-4) by auto
  then obtain q te where q: "q \<in> set (w_sets w)" "ps_key q = ps_key p" "ps_value q = v"
    "ps_effect q = Some te" "e = te + ttl"
    by (auto simp: in_flight_def)
  then have "q = p" using none assms(2) by auto
  then show ?thesis using that q st by simp
qed

text \<open>
  What the completion of the set \<open>p\<close> does to the checker, and the world after it.
\<close>

definition set_value :: "checker_flags \<Rightarrow> int \<Rightarrow> int \<Rightarrow> world \<Rightarrow> pending_set \<Rightarrow> string option \<Rightarrow> stateValue" where
  "set_value fl ttl fin w p err = new_value fl (w_now w) (ps_value p) err (ps_start p + ttl) (fin + ttl)"

definition exclusive :: "world \<Rightarrow> pending_set \<Rightarrow> string option \<Rightarrow> bool" where
  "exclusive w p err \<longleftrightarrow> err = None \<and> ps_version p = ver (w_cc w) (ps_key p) \<and> rcount (w_cc w) (ps_key p) = 1"

definition completed :: "checker_flags \<Rightarrow> int \<Rightarrow> int \<Rightarrow> world \<Rightarrow> pending_set \<Rightarrow> string option \<Rightarrow> ConsistencyChecker \<Rightarrow> bool" where
  "completed fl ttl fin w p err cc \<longleftrightarrow>
     ver cc = (ver (w_cc w))(ps_key p := ver (w_cc w) (ps_key p) + 1) \<and>
     rcount cc = (rcount (w_cc w))(ps_key p := rcount (w_cc w) (ps_key p) - 1) \<and>
     valof cc = (valof (w_cc w))(ps_key p :=
       (if exclusive w p err then Map.empty else valof (w_cc w) (ps_key p))
         (ps_value p \<mapsto> set_value fl ttl fin w p err)) \<and>
     (\<forall>k x. ovrof cc k x \<noteq> None \<longrightarrow> ovrof (w_cc w) k x \<noteq> None \<or>
        (k = ps_key p \<and> (\<exists>v sv. (v, sv) \<in> entries (w_cc w) k \<and> sv_value sv = x))) \<and>
     entries cc (ps_key p) \<subseteq> insert (ps_value p, set_value fl ttl fin w p err) (entries (w_cc w) (ps_key p)) \<and>
     (\<forall>k. k \<noteq> ps_key p \<longrightarrow> entries cc k = entries (w_cc w) k)"

definition after_complete :: "world \<Rightarrow> pending_set list \<Rightarrow> pending_set \<Rightarrow> string option \<Rightarrow> ConsistencyChecker \<Rightarrow> world" where
  "after_complete w ps p err cc =
     w\<lparr>w_cc := cc, w_sets := ps,
       w_failed := (if err = None then w_failed w else insert (ps_key p) (w_failed w))\<rparr>"

lemma after_complete_simps [simp]:
  "w_cc (after_complete w ps p err cc) = cc" "w_sets (after_complete w ps p err cc) = ps"
  "w_store (after_complete w ps p err cc) = w_store w" "w_used (after_complete w ps p err cc) = w_used w"
  "w_now (after_complete w ps p err cc) = w_now w" "w_gets (after_complete w ps p err cc) = w_gets w"
  "w_failed (after_complete w ps p err cc) = (if err = None then w_failed w else insert (ps_key p) (w_failed w))"
  by (simp_all add: after_complete_def)

lemma pending_fresh:
  assumes "winv ttl w" "p \<in> set (w_sets w)"
  shows "valof (w_cc w) (ps_key p) (ps_value p) = None" "ovrof (w_cc w) (ps_key p) (ps_value p) = None"
    "(ps_key p, ps_value p) \<in> w_used w"
  using assms by (auto simp: winv_def inv_fresh_def)

lemma pending_unique:
  assumes "winv ttl w" "w_sets w = ps @ p # ps'" "q \<in> set (w_sets w)"
    and "ps_key q = ps_key p" "ps_value q = ps_value p"
  shows "q = p"
proof -
  have "distinct (map (\<lambda>p. (ps_key p, ps_value p)) (w_sets w))"
    using assms(1) by (simp add: winv_def inv_fresh_def)
  then show ?thesis using assms(2-5) by (auto simp: rev_image_eqI)
qed

lemma CompleteWrite_completed:
  assumes "winv ttl w" "p \<in> set (w_sets w)" "checkCorrectness fl"
  shows "\<exists>cc. CompleteWrite fl (w_now w) (ps_key p) (ps_value p) err (ps_version p) (ps_start p + ttl)
      (fin + ttl) (w_cc w) = Ret cc \<and> completed fl ttl fin w p err cc"
proof (rule CompleteWrite_views [OF assms(3) pending_fresh(1,2) [OF assms(1,2)],
      of "w_now w" err "ps_version p" "ps_start p + ttl" "fin + ttl"])
  fix cc
  assume ret: "CompleteWrite fl (w_now w) (ps_key p) (ps_value p) err (ps_version p) (ps_start p + ttl)
      (fin + ttl) (w_cc w) = Ret cc"
    and ovr: "\<And>k x. ovrof cc k x \<noteq> None \<Longrightarrow> ovrof (w_cc w) k x \<noteq> None \<or>
      k = ps_key p \<and> (\<exists>v sv. (v, sv) \<in> entries (w_cc w) (ps_key p) \<and> sv_value sv = x)"
    and rest: "ver cc = (ver (w_cc w))(ps_key p := ver (w_cc w) (ps_key p) + 1)"
      "rcount cc = (rcount (w_cc w))(ps_key p := rcount (w_cc w) (ps_key p) - 1)"
      "valof cc = (valof (w_cc w))(ps_key p :=
        (if err = None \<and> ps_version p = ver (w_cc w) (ps_key p) \<and> rcount (w_cc w) (ps_key p) = 1
         then Map.empty else valof (w_cc w) (ps_key p))
          (ps_value p \<mapsto> new_value fl (w_now w) (ps_value p) err (ps_start p + ttl) (fin + ttl)))"
      "entries cc (ps_key p) \<subseteq> insert (ps_value p,
        new_value fl (w_now w) (ps_value p) err (ps_start p + ttl) (fin + ttl)) (entries (w_cc w) (ps_key p))"
      "\<And>k. k \<noteq> ps_key p \<Longrightarrow> entries cc k = entries (w_cc w) k"
  have "completed fl ttl fin w p err cc"
    unfolding completed_def set_value_def exclusive_def using rest ovr by blast
  with ret show ?thesis by blast
qed

lemma completed_recorded:
  assumes "winv ttl w" "p \<in> set (w_sets w)" "0 \<le> ttlCheckBuffer fl" "completed fl ttl fin w p err cc"
    and "\<forall>te. ps_effect p = Some te \<longrightarrow> te \<le> fin"
  shows "ps_effect p = Some te \<Longrightarrow> recorded (after_complete w ps p err cc) (ps_key p) (ps_value p) (te + ttl)"
    and "recorded w k v e \<Longrightarrow> k = ps_key p \<longrightarrow> \<not> exclusive w p err \<Longrightarrow>
      recorded (after_complete w ps p err cc) k v e"
  using assms pending_fresh(1) [OF assms(1,2)]
  by (auto simp: recorded_def completed_def set_value_def winv_def inv_time_def)

lemma completed_in_flight:
  assumes "w_sets w = ps @ p # ps'" "in_flight ttl w k v e" "\<not> (k = ps_key p \<and> v = ps_value p)"
  shows "in_flight ttl (after_complete w (ps @ ps') p err cc) k v e"
  using assms by (auto simp: in_flight_def)

lemma completed_fresh:
  assumes inv: "winv ttl w" and sets: "w_sets w = ps @ p # ps'" and cc: "completed fl ttl fin w p err cc"
  shows "inv_fresh (after_complete w (ps @ ps') p err cc)"
proof -
  have p: "p \<in> set (w_sets w)" using sets by simp
  have pend: "valof cc (ps_key q) (ps_value q) = None \<and> ovrof cc (ps_key q) (ps_value q) = None"
    if q: "q \<in> set (ps @ ps')" for q
  proof -
    have qw: "q \<in> set (w_sets w)" and ne: "(ps_key q, ps_value q) \<noteq> (ps_key p, ps_value p)"
      using inv sets q by (auto simp: winv_def inv_fresh_def rev_image_eqI)
    note f = pending_fresh [OF inv qw]
    have "\<not> (\<exists>v sv. (v, sv) \<in> entries (w_cc w) (ps_key q) \<and> sv_value sv = ps_value q)"
      using f(1) entries_valof winv_freshD(2) [OF inv] by metis
    then have "ovrof cc (ps_key q) (ps_value q) = None"
      using f(2) cc unfolding completed_def by blast
    moreover have "valof cc (ps_key q) (ps_value q) = None"
      using f(1) ne cc by (auto simp: completed_def)
    ultimately show ?thesis by simp
  qed
  have used: "(k, v) \<in> w_used w \<and> sv_value sv = v" if "(v, sv) \<in> entries cc k" for k v sv
  proof -
    have "(v, sv) \<in> entries (w_cc w) k \<or> (k = ps_key p \<and> v = ps_value p \<and> sv = set_value fl ttl fin w p err)"
      using cc that by (cases "k = ps_key p") (auto simp: completed_def)
    then show ?thesis
      using winv_freshD(1,2) [OF inv] pending_fresh(3) [OF inv p] by (auto simp: set_value_def)
  qed
  have "(k, v) \<in> w_used w" if "ovrof cc k v \<noteq> None" for k v
  proof -
    have "ovrof (w_cc w) k v \<noteq> None \<or> (\<exists>v' sv. (v', sv) \<in> entries (w_cc w) k \<and> sv_value sv = v)"
      using cc that unfolding completed_def by blast
    then show ?thesis using winv_freshD [OF inv] by metis
  qed
  then show ?thesis
    using inv sets pend used by (auto simp: winv_def inv_fresh_def)
qed

lemma completed_store_value:
  assumes inv: "winv ttl w" and sets: "w_sets w = ps @ p # ps'" and err: "err = None \<longrightarrow> ps_effect p \<noteq> None"
    and buf: "0 \<le> ttlCheckBuffer fl" and cc: "completed fl ttl fin w p err cc"
    and fin: "\<forall>te. ps_effect p = Some te \<longrightarrow> te \<le> fin"
    and st: "w_store w k = Some (v, e)"
  shows "in_flight ttl (after_complete w (ps @ ps') p err cc) k v e \<or>
    recorded (after_complete w (ps @ ps') p err cc) k v e"
proof (cases "k = ps_key p \<and> exclusive w p err")
  case True
  then obtain te where "ps_effect p = Some te" "w_store w (ps_key p) = Some (ps_value p, te + ttl)"
    using exclusive_owner [OF inv sets] err by (auto simp: exclusive_def)
  then show ?thesis using st True sets completed_recorded(1) [OF inv _ buf cc fin] by auto
next
  case notexcl: False
  consider (rec) "recorded w k v e" | (own) "in_flight ttl w k v e" "k = ps_key p" "v = ps_value p"
    | (other) "in_flight ttl w k v e" "\<not> (k = ps_key p \<and> v = ps_value p)"
    using winv_storeD(1) [OF inv st] by blast
  then show ?thesis
  proof cases
    case rec
    then show ?thesis using notexcl sets completed_recorded(2) [OF inv _ buf cc fin] by auto
  next
    case own
    then obtain q te where q: "q \<in> set (w_sets w)" "ps_key q = ps_key p" "ps_value q = ps_value p"
      "ps_effect q = Some te" "e = te + ttl"
      by (auto simp: in_flight_def)
    have "q = p" by (rule pending_unique [OF inv sets q(1-3)])
    then show ?thesis using q own(2,3) sets completed_recorded(1) [OF inv _ buf cc fin] by auto
  next
    case other
    then show ?thesis using completed_in_flight [OF sets] by blast
  qed
qed

lemma completed_store:
  assumes inv: "winv ttl w" and sets: "w_sets w = ps @ p # ps'" and err: "err = None \<longrightarrow> ps_effect p \<noteq> None"
    and buf: "0 \<le> ttlCheckBuffer fl" and cc: "completed fl ttl fin w p err cc"
    and fin: "\<forall>te. ps_effect p = Some te \<longrightarrow> te \<le> fin"
  shows "inv_store ttl (after_complete w (ps @ ps') p err cc)" (is "inv_store ttl ?w")
  unfolding inv_store_def
proof (intro conjI allI ballI impI)
  fix k v e assume "w_store ?w k = Some (v, e)"
  then show "in_flight ttl ?w k v e \<or> recorded ?w k v e"
    using completed_store_value [OF assms] by simp
next
  fix k assume "w_store ?w k = None"
  then have none: "w_store w k = None" by simp
  note old = winv_storeD(2) [OF inv none] winv_storeD(3) [OF inv none]
  have "p \<in> set (w_sets w)" using sets by simp
  then show "entries (w_cc ?w) k = {} \<or> k \<in> w_failed ?w"
    using err old cc by (cases "k = ps_key p") (auto simp: completed_def)
  show "ps_effect q = None" if "q \<in> set (w_sets ?w)" "ps_key q = k" for q
    using old(2) sets that by auto
next
  fix q assume q: "q \<in> set (w_sets ?w)"
    and v: "ps_effect q \<noteq> None \<and> ps_version q = ver (w_cc ?w) (ps_key q)"
  have qw: "q \<in> set (w_sets w)" using q sets by auto
  then have "ps_version q \<le> ver (w_cc w) (ps_key q)" using inv by (simp add: winv_def inv_version_def)
  then have ne: "ps_key q \<noteq> ps_key p" using v cc by (auto simp: completed_def)
  then have "\<exists>v e. w_store w (ps_key q) = Some (v, e) \<and> in_flight ttl w (ps_key q) v e"
    using winv_storeD(4) [OF inv qw] v cc by (simp add: completed_def)
  then show "\<exists>v e. w_store ?w (ps_key q) = Some (v, e) \<and> in_flight ttl ?w (ps_key q) v e"
    using completed_in_flight [OF sets] ne by auto
qed

lemma completed_gets:
  assumes inv: "winv ttl w" and sets: "w_sets w = ps @ p # ps'" and buf: "0 \<le> ttlCheckBuffer fl"
    and cc: "completed fl ttl fin w p err cc" and fin: "\<forall>te. ps_effect p = Some te \<longrightarrow> te \<le> fin"
  shows "inv_gets ttl (after_complete w (ps @ ps') p err cc)" (is "inv_gets ttl ?w")
proof -
  have go: "get_ok ttl ?w g res t" if "get_ok ttl w g res t" "pg_key g \<noteq> ps_key p" for g res t
    using that sets cc completed_recorded(2) [OF inv _ buf cc fin]
    by (auto simp: get_ok_def completed_def split: get_result.splits)
  show ?thesis
    unfolding inv_gets_def
  proof (intro ballI allI impI)
    fix g res t
    assume g: "g \<in> set (w_gets ?w)" "pg_result g = Some (res, t)" "pg_version g = ver (w_cc ?w) (pg_key g)"
    have "pg_version g \<le> ver (w_cc w) (pg_key g)" using inv g(1) by (simp add: winv_def inv_version_def)
    then have ne: "pg_key g \<noteq> ps_key p" using g(3) cc by (auto simp: completed_def)
    then have "get_ok ttl w g res t" using inv g cc by (simp add: winv_def inv_gets_def completed_def)
    then show "get_ok ttl ?w g res t" using ne go by blast
  qed
qed

lemma winv_set_complete:
  assumes inv: "winv ttl w" and sets: "w_sets w = ps @ p # ps'" and err: "err = None \<longrightarrow> ps_effect p \<noteq> None"
    and fin: "\<forall>te. ps_effect p = Some te \<longrightarrow> te \<le> fin" and fl: "checkCorrectness fl" "0 \<le> ttlCheckBuffer fl"
    and cw: "CompleteWrite fl (w_now w) (ps_key p) (ps_value p) err (ps_version p) (ps_start p + ttl)
      (fin + ttl) (w_cc w) = Ret cc"
  shows "winv ttl (after_complete w (ps @ ps') p err cc)" (is "winv ttl ?w")
proof -
  have cc: "completed fl ttl fin w p err cc"
    using CompleteWrite_completed [OF inv _ fl(1), of p err fin] sets cw by auto
  have "inv_count ?w" using inv sets cc by (auto simp: winv_def inv_count_def completed_def)
  moreover have "inv_version ?w"
  proof -
    have "ver (w_cc w) k \<le> ver cc k" for k using cc by (simp add: completed_def)
    then show ?thesis
      using inv sets unfolding winv_def inv_version_def by (auto intro: order_trans)
  qed
  moreover have "inv_time ?w" using inv sets by (simp add: winv_def inv_time_def)
  ultimately show ?thesis
    using completed_fresh [OF inv sets cc] completed_store [OF inv sets err fl(2) cc fin]
      completed_gets [OF inv sets fl(2) cc fin]
    by (simp add: winv_def)
qed

lemma winv_step:
  assumes "wstep fl ttl w w'" "winv ttl w" "checkCorrectness fl" "0 \<le> ttlCheckBuffer fl"
  shows "winv ttl w'"
  using assms
proof (cases rule: wstep.cases)
  case (set_complete ps p ps' err fin cc)
  then show ?thesis using winv_set_complete [OF assms(2)] assms(3,4) by (simp add: after_complete_def)
qed (auto intro: winv_tick winv_set_begin winv_set_effect winv_get_begin winv_get_read winv_get_check)

definition stress_flags :: "checker_flags \<Rightarrow> bool" where
  "stress_flags fl \<longleftrightarrow> checkCorrectness fl \<and> 0 \<le> ttlCheckBuffer fl"

interpretation stress: inv_system "\<lambda>w. init_world w \<and> stress_flags fl"
  "\<lambda>w w'. wstep fl ttl w w' \<and> stress_flags fl" "\<lambda>w. winv ttl w"
  for fl ttl
  by unfold_locales (auto simp: stress_flags_def intro: winv_init winv_step)

text \<open>A read that satisfies the invariant passes the check.\<close>

lemma check_get_passes:
  assumes inv: "winv ttl w" and g: "g \<in> set (w_gets w)" "pg_result g = Some (res, t)"
    and nf: "res = NotFound \<longrightarrow> pg_key g \<notin> w_failed w"
  shows "fst (check_get fl w g res) = None"
proof (cases "pg_version g = ver (w_cc w) (pg_key g) \<and> rcount (w_cc w) (pg_key g) = 0")
  case False
  then show ?thesis
    by (auto simp: check_get_def CheckReadCorrect_def cc_views split: get_result.splits)
next
  case True
  have ok: "get_ok ttl w g res t" and t: "pg_start g \<le> t" "t \<le> w_now w"
    using inv g True by (auto simp: winv_def inv_gets_def inv_time_def)
  have "[p \<leftarrow> w_sets w. ps_key p = pg_key g] = []"
    using inv True by (simp add: winv_def inv_count_def)
  then have none: "\<not> (\<exists>p \<in> set (w_sets w). ps_key p = pg_key g)" by (auto simp: filter_empty_conv)
  show ?thesis
  proof (cases res)
    case (Found v)
    then obtain e sv where "valof (w_cc w) (pg_key g) v = Some sv" "t \<le> e"
      "sv_err sv = None \<longrightarrow> e \<le> definitelyExpiredBy sv"
      using ok none by (auto simp: get_ok_def recorded_def)
    then show ?thesis using Found t by (auto simp: check_get_def CheckReadCorrect_def Let_def valof_def)
  next
    case NotFound
    then have "entries (w_cc w) (pg_key g) = {} \<or> (\<exists>(v, sv) \<in> entries (w_cc w) (pg_key g). maybeExpiredBy sv < w_now w)"
      using ok none nf t by (force simp: get_ok_def)
    then show ?thesis using NotFound
      by (auto simp: check_get_def CheckReadCorrect_def Let_def entries_def)
  qed
qed

subsection \<open>The counters of a run\<close>

record stress_counters =
  gets :: u64
  getErrs :: u64
  sets :: u64
  setErrs :: u64
  inconsistencies :: u64

text \<open>
  The end of a request of \<open>stressGets\<close>: \<open>err\<close> is the error of the RPC, \<open>verdict\<close> the result of the
  check, \<open>allow\<close> what \<open>errorLogLimiter.Allow()\<close> answers.
\<close>

definition count_get :: "bool \<Rightarrow> string option \<Rightarrow> read_error option \<Rightarrow> stress_counters \<Rightarrow> stress_counters" where
  "count_get allow err verdict c =
     (let c = c\<lparr>gets := gets c + 1\<rparr> in
      if err \<noteq> None then c\<lparr>getErrs := getErrs c + 1\<rparr>
      else if verdict \<noteq> None \<and> allow then c\<lparr>inconsistencies := inconsistencies c + 1\<rparr>
      else c)"

definition count_set :: "string option \<Rightarrow> stress_counters \<Rightarrow> stress_counters" where
  "count_set err c =
     (let c = c\<lparr>sets := sets c + 1\<rparr> in if err \<noteq> None then c\<lparr>setErrs := setErrs c + 1\<rparr> else c)"

subsection \<open>Example runs\<close>

abbreviation stress_reach :: "checker_flags \<Rightarrow> int \<Rightarrow> world \<Rightarrow> bool" where
  "stress_reach fl ttl \<equiv>
     reach (\<lambda>w. init_world w \<and> stress_flags fl) (\<lambda>w w'. wstep fl ttl w w' \<and> stress_flags fl)"

definition example_flags :: checker_flags where
  "example_flags = \<lparr>checkCorrectness = True, checkTtl = True, ttlCheckBuffer = 10\<rparr>"

definition example_world :: "ConsistencyChecker \<Rightarrow> pending_set list \<Rightarrow> pending_get list \<Rightarrow>
    (string \<times> int) option \<Rightarrow> string set \<Rightarrow> world" where
  "example_world cc ps gs cell failed =
     \<lparr>w_cc = cc, w_now = 0, w_sets = ps, w_gets = gs,
      w_store = (case cell of None \<Rightarrow> (\<lambda>_. None) | Some c \<Rightarrow> (\<lambda>_. None)(''k'' \<mapsto> c)),
      w_used = {(''k'', ''v'')}, w_failed = failed\<rparr>"

definition example_set :: "int option \<Rightarrow> pending_set" where
  "example_set effect = \<lparr>ps_key = ''k'', ps_value = ''v'', ps_version = 0, ps_start = 0, ps_effect = effect\<rparr>"

definition example_get :: "(get_result \<times> int) option \<Rightarrow> pending_get" where
  "example_get res = \<lparr>pg_key = ''k'', pg_version = 1, pg_pending = False, pg_start = 0, pg_result = res\<rparr>"

definition example_cc :: "string option \<Rightarrow> ConsistencyChecker" where
  "example_cc err = \<lparr>ChecksRun = 0,
     cc_values = [(''k'', [(''v'', \<lparr>sv_value = ''v'', writtenAt = 0, maybeExpiredBy = 5,
        definitelyExpiredBy = 15, sv_err = err, overwrittenAt = 0\<rparr>)])],
     overwrittenValues = [], cc_version = [(''k'', 1)], cc_rc = [(''k'', 0)]\<rparr>"

definition example_cc_pending :: ConsistencyChecker where
  "example_cc_pending = MakeConsistencyChecker\<lparr>cc_rc := [(''k'', 1)]\<rparr>"

lemmas example_defs = example_flags_def example_world_def example_set_def example_get_def example_cc_def
  example_cc_pending_def MakeConsistencyChecker_def

lemma example_flags_ok [simp]: "stress_flags example_flags"
  by (simp add: stress_flags_def example_flags_def)

lemma stress_step: "stress_reach fl ttl w \<Longrightarrow> wstep fl ttl w w' \<Longrightarrow> stress_flags fl \<Longrightarrow> stress_reach fl ttl w'"
  by (rule reach_step) auto

lemma example_begin: "stress_reach example_flags 5 (example_world example_cc_pending [example_set None] [] None {})"
proof -
  let ?w = "(example_world MakeConsistencyChecker [] [] None {})\<lparr>w_used := {}\<rparr>"
  have "stress_reach example_flags 5 ?w"
    by (rule reach_init) (simp add: init_world_def example_world_def)
  moreover have "wstep example_flags 5 ?w (example_world example_cc_pending [example_set None] [] None {})"
    using wstep.set_begin [of 0 ?w "''k''" "''v''" example_flags 0 example_cc_pending 5]
    by (simp add: example_defs BeginWrite_def gm_getz_def)
  ultimately show ?thesis by (rule stress_step) simp
qed

lemma example_effect:
  "stress_reach example_flags 5 (example_world example_cc_pending [example_set (Some 0)] [] (Some (''v'', 5)) {})"
  using wstep.set_effect [of "example_world example_cc_pending [example_set None] [] None {}" "[]" "example_set None" "[]"
      example_flags 5]
  by (intro stress_step [OF example_begin]) (simp_all add: example_world_def example_set_def)

lemma example_complete_step:
  assumes "err = None \<longrightarrow> effect \<noteq> None" "\<forall>te. effect = Some te \<longrightarrow> te \<le> 0"
  shows "wstep example_flags 5 (example_world example_cc_pending [example_set effect] [] cell {})
    (example_world (example_cc err) [] [] cell (if err = None then {} else {''k''}))"
  using assms wstep.set_complete [of "example_world example_cc_pending [example_set effect] [] cell {}" "[]"
      "example_set effect" "[]" err 0 example_flags 5 "example_cc err"]
  by (cases err; simp add: example_defs CompleteWrite_def gm_getz_def Let_def)

lemma example_read_steps:
  assumes "stress_reach example_flags 5 (example_world (example_cc err) [] [] cell failed)"
    and "store_read cell 0 = res"
  shows "stress_reach example_flags 5 (example_world (example_cc err) [] [example_get (Some (res, 0))] cell failed)"
proof -
  let ?w = "example_world (example_cc err) [] [] cell failed"
    and ?w1 = "example_world (example_cc err) [] [example_get None] cell failed"
  have "wstep example_flags 5 ?w ?w1"
    using wstep.get_begin [of 0 ?w example_flags "''k''" 1 False 5]
    by (simp add: example_defs BeginRead_def gm_getz_def)
  then have "stress_reach example_flags 5 ?w1" by (rule stress_step [OF assms(1)]) simp
  moreover have "wstep example_flags 5 ?w1 (example_world (example_cc err) [] [example_get (Some (res, 0))] cell failed)"
    using wstep.get_read [of ?w1 "[]" "example_get None" "[]" example_flags 5] assms(2)
    by (cases cell; simp add: example_world_def example_get_def)
  ultimately show ?thesis by (rule stress_step) simp
qed

text \<open>A successful set followed by a read that finds the value.\<close>

lemma example_found:
  "stress_reach example_flags 5
     (example_world (example_cc None) [] [example_get (Some (Found ''v'', 0))] (Some (''v'', 5)) {})"
  using example_complete_step [of None "Some 0" "Some (''v'', 5)"]
  by (intro example_read_steps stress_step [OF example_effect]) (auto simp: store_read_def)

subsection \<open>Properties\<close>

text \<open>
  C1: no false alarms. Run the request functions of the stress tester concurrently, in any
  interleaving, against a store in which every \<open>Set\<close> takes effect at one instant: then every
  finished \<open>Get\<close>, whatever it returned, passes \<open>CheckReadCorrect\<close>, provided that a \<open>Get\<close> that
  found nothing is on a key for which no \<open>Set\<close> has failed.
\<close>

theorem checker_no_false_alarm:
  assumes "stress_reach fl ttl w" "g \<in> set (w_gets w)" "pg_result g = Some (res, t)"
    and "res = NotFound \<longrightarrow> pg_key g \<notin> w_failed w"
  shows "fst (check_get fl w g res) = None"
  by (rule check_get_passes [OF stress.reach_inv [OF assms(1)] assms(2-4)])

theorem checker_no_false_alarm_witness:
  "\<exists>w g. stress_reach example_flags 5 w \<and> g \<in> set (w_gets w) \<and> pg_result g = Some (Found ''v'', 0) \<and>
     fst (check_get example_flags w g (Found ''v'')) = None"
proof (intro exI conjI)
  let ?g = "example_get (Some (Found ''v'', 0))"
  let ?w = "example_world (example_cc None) [] [?g] (Some (''v'', 5)) {}"
  show g: "?g \<in> set (w_gets ?w)" "pg_result ?g = Some (Found ''v'', 0)"
    by (simp_all add: example_world_def example_get_def)
  show "stress_reach example_flags 5 ?w" by (rule example_found)
  show "fst (check_get example_flags ?w ?g (Found ''v'')) = None"
    by (rule checker_no_false_alarm [OF example_found g]) simp
qed



text \<open>
  C29: as long as every written value is new for its key, \<open>CompleteWrite\<close> never hits its panic,
  the reference count of a key is the number of its sets in progress, and completing one counts
  the version up and the reference count down by one.
\<close>

theorem CompleteWrite_reachable:
  assumes "stress_reach fl ttl w" "p \<in> set (w_sets w)" "stress_flags fl"
  shows "\<exists>cc. CompleteWrite fl (w_now w) (ps_key p) (ps_value p) err (ps_version p) (ps_start p + ttl)
      (fin + ttl) (w_cc w) = Ret cc \<and>
    rcount (w_cc w) (ps_key p) = int (length [q \<leftarrow> w_sets w. ps_key q = ps_key p]) \<and>
    rcount cc (ps_key p) = rcount (w_cc w) (ps_key p) - 1 \<and> ver cc (ps_key p) = ver (w_cc w) (ps_key p) + 1"
proof -
  have inv: "winv ttl w" by (rule stress.reach_inv [OF assms(1)])
  obtain cc where "CompleteWrite fl (w_now w) (ps_key p) (ps_value p) err (ps_version p) (ps_start p + ttl)
      (fin + ttl) (w_cc w) = Ret cc" "completed fl ttl fin w p err cc"
    using CompleteWrite_completed [OF inv assms(2), of fl err fin] assms(3) by (auto simp: stress_flags_def)
  then show ?thesis using inv by (auto simp: completed_def winv_def inv_count_def)
qed

theorem CompleteWrite_reachable_witness:
  "\<exists>cc. CompleteWrite example_flags 0 ''k'' ''v'' None 0 5 5 example_cc_pending = Ret cc \<and>
     rcount cc ''k'' = 0"
  using CompleteWrite_reachable [OF example_effect, of "example_set (Some 0)" None 0]
  by (force simp: example_world_def example_set_def)

text \<open>
  C30: the checker catches stale reads. When a \<open>Set\<close> succeeded alone, a \<open>Get\<close> that begins and ends
  before the next \<open>Set\<close> and returns any other value is reported.
\<close>

theorem CheckReadCorrect_detects_stale:
  assumes "checkCorrectness fl" "iv = ver cc key" "rcount cc key = 1"
    and "CompleteWrite fl now key val None iv mexp dexp cc = Ret cc'"
    and "BeginRead fl key cc' = (iv', pending)" "val' \<noteq> val"
  shows "fst (CheckReadCorrect fl now' key val' True start iv' pending cc') \<noteq> None"
proof -
  have "valof cc key val = None" "ovrof cc key val = None"
    using assms(1,4) by (auto simp: CompleteWrite_def Let_def valof_def ovrof_def split: if_splits)
  with assms(1) obtain cc'' where cc: "CompleteWrite fl now key val None iv mexp dexp cc = Ret cc''"
    and "rcount cc'' = (rcount cc)(key := rcount cc key - 1)"
    and "valof cc'' = (valof cc)(key :=
      (if None = (None :: string option) \<and> iv = ver cc key \<and> rcount cc key = 1 then Map.empty else valof cc key)
        (val \<mapsto> new_value fl now val None mexp dexp))"
    by (rule CompleteWrite_views)
  then have "valof cc' key = Map.empty(val \<mapsto> new_value fl now val None mexp dexp)" and "rcount cc' key = 0"
    using assms(2-4) by auto
  then have "valof cc' key val' = None" and "rcount cc' key = 0" using assms(6) by simp_all
  then show ?thesis
    using assms(1,5)
    by (auto simp: CheckReadCorrect_def BeginRead_def Let_def cc_views split: option.splits)
qed

theorem CheckReadCorrect_detects_stale_witness:
  "fst (CheckReadCorrect example_flags 0 ''k'' ''old'' True 0 1 False (example_cc None)) \<noteq> None"
  by (rule CheckReadCorrect_detects_stale [where cc = example_cc_pending and val = "''v''" and iv = 0
        and now = 0 and mexp = 5 and dexp = 5])
    (simp_all add: example_defs cc_views CompleteWrite_def BeginRead_def gm_getz_def Let_def)

end
