(* ===== verification/Stress_Run.thy ===== *)
theory Stress_Run
  imports Stress_Tester
begin

text \<open>
  A whole run of the stress tester (\<open>lab4/cmd/stress/tester.go\<close>): the two loops that send requests at most
  \<open>--max-pending\<close> at a time, the wait group that \<open>main\<close> waits for, and the numbers it prints. What a
  single request does to the checker is in \<open>Stress_Tester\<close>; here a request contributes its counters.
\<close>

subsection \<open>Keys and values\<close>

definition tester_chars :: string where
  "tester_chars = ''abcdefghijklmnopqrstuvwxyz''"

fun tester_randomString :: "rng \<Rightarrow> nat \<Rightarrow> string \<times> rng" where
  "tester_randomString rng 0 = ([], rng)"
| "tester_randomString rng (Suc n) =
     (let c = tester_chars ! (shd rng mod length tester_chars); (out, rng') = tester_randomString (stl rng) n in (c # out, rng'))"

fun randomKeys :: "nat \<Rightarrow> nat \<Rightarrow> rng \<Rightarrow> string list" where
  "randomKeys 0 len rng = []"
| "randomKeys (Suc n) len rng = (let (k, rng') = tester_randomString rng len in k # randomKeys n len rng')"

text \<open>The key of the next request; without keys the remainder panics.\<close>

definition pick_key :: "string list \<Rightarrow> rng \<Rightarrow> string go" where
  "pick_key keys rng =
     (if keys = [] then Panic ''integer divide by zero'' else Ret (keys ! (shd rng mod length keys)))"

subsection \<open>The loops\<close>

text \<open>Where a request is: sent, counted, its semaphore unit released, reported to the wait group. The flag tells
  whether it is a \<open>Set\<close>.\<close>

datatype progress = Running | Tallied | Released | Over

text \<open>Where a loop is: before \<open>sem.Acquire\<close>, holding a unit for the next request, past its end.\<close>

datatype loop = Idle | Holding | Ended

record stress_run =
  sr_count :: stress_counters
  sr_max :: nat
  sr_sem :: nat
  sr_wg :: int
  sr_loop :: "bool \<Rightarrow> loop"
  sr_reqs :: "(bool \<times> progress) list"

definition no_counts :: stress_counters where
  "no_counts = \<lparr>gets = 0, getErrs = 0, sets = 0, setErrs = 0, inconsistencies = 0\<rparr>"

text \<open>\<open>main\<close> adds the two loops to the wait group before it starts them.\<close>

definition run_start :: "nat \<Rightarrow> stress_run" where
  "run_start maxPending =
     \<lparr>sr_count = no_counts, sr_max = maxPending, sr_sem = 0, sr_wg = 2, sr_loop = (\<lambda>_. Idle), sr_reqs = []\<rparr>"

definition tally :: "bool \<Rightarrow> bool \<Rightarrow> string option \<Rightarrow> read_error option \<Rightarrow> stress_counters \<Rightarrow> stress_counters" where
  "tally is_set allow err verdict c = (if is_set then count_set err c else count_get allow err verdict c)"

inductive run_step :: "stress_run \<Rightarrow> stress_run \<Rightarrow> bool" where
  rs_acquire: "sr_loop s b = Idle \<Longrightarrow> sr_sem s < sr_max s \<Longrightarrow>
    run_step s (s\<lparr>sr_loop := (sr_loop s)(b := Holding), sr_sem := sr_sem s + 1\<rparr>)"
| rs_spawn: "sr_loop s b = Holding \<Longrightarrow>
    run_step s (s\<lparr>sr_loop := (sr_loop s)(b := Idle), sr_wg := sr_wg s + 1, sr_reqs := sr_reqs s @ [(b, Running)]\<rparr>)"
| rs_loop_end: "sr_loop s b = Idle \<Longrightarrow> run_step s (s\<lparr>sr_loop := (sr_loop s)(b := Ended), sr_wg := sr_wg s - 1\<rparr>)"
| rs_tally: "i < length (sr_reqs s) \<Longrightarrow> sr_reqs s ! i = (b, Running) \<Longrightarrow>
    run_step s (s\<lparr>sr_count := tally b allow err verdict (sr_count s), sr_reqs := (sr_reqs s)[i := (b, Tallied)]\<rparr>)"
| rs_release: "i < length (sr_reqs s) \<Longrightarrow> sr_reqs s ! i = (b, Tallied) \<Longrightarrow>
    run_step s (s\<lparr>sr_sem := sr_sem s - 1, sr_reqs := (sr_reqs s)[i := (b, Released)]\<rparr>)"
| rs_over: "i < length (sr_reqs s) \<Longrightarrow> sr_reqs s ! i = (b, Released) \<Longrightarrow>
    run_step s (s\<lparr>sr_wg := sr_wg s - 1, sr_reqs := (sr_reqs s)[i := (b, Over)]\<rparr>)"

text \<open>\<open>wait\<close> returns when the counter of the wait group is zero; then \<open>main\<close> prints these numbers: successes and total
  of the gets and the sets, correct and all checks, and all requests.\<close>

definition waited_for :: "stress_run \<Rightarrow> bool" where
  "waited_for s \<longleftrightarrow> sr_wg s = 0"

definition summary :: "stress_counters \<Rightarrow> u64 \<Rightarrow> (u64 \<times> u64) \<times> (u64 \<times> u64) \<times> (u64 \<times> u64) \<times> u64" where
  "summary c checks =
     ((gets c - getErrs c, gets c), (sets c - setErrs c, sets c), (checks - inconsistencies c, checks), gets c + sets c)"

subsection \<open>The invariant\<close>

definition holding :: "stress_run \<Rightarrow> nat" where
  "holding s = length (filter (\<lambda>b. sr_loop s b = Holding) [False, True])"

definition loops_on :: "stress_run \<Rightarrow> nat" where
  "loops_on s = length (filter (\<lambda>b. sr_loop s b \<noteq> Ended) [False, True])"

definition in_flight_req :: "bool \<times> progress \<Rightarrow> bool" where
  "in_flight_req r \<longleftrightarrow> snd r = Running \<or> snd r = Tallied"

definition not_over :: "bool \<times> progress \<Rightarrow> bool" where
  "not_over r \<longleftrightarrow> snd r \<noteq> Over"

definition tallied :: "bool \<Rightarrow> bool \<times> progress \<Rightarrow> bool" where
  "tallied b r \<longleftrightarrow> fst r = b \<and> snd r \<noteq> Running"

definition counts_ok :: "stress_counters \<Rightarrow> nat \<Rightarrow> nat \<Rightarrow> bool" where
  "counts_ok c ng ns \<longleftrightarrow> gets c = of_nat ng \<and> sets c = of_nat ns \<and>
     (\<exists>ge ic. getErrs c = of_nat ge \<and> inconsistencies c = of_nat ic \<and> ge + ic \<le> ng) \<and> (\<exists>se. setErrs c = of_nat se \<and> se \<le> ns)"

definition run_inv :: "nat \<Rightarrow> stress_run \<Rightarrow> bool" where
  "run_inv m s \<longleftrightarrow> sr_max s = m \<and> sr_sem s = holding s + num_in in_flight_req (sr_reqs s) \<and> sr_sem s \<le> m \<and>
     sr_wg s = int (loops_on s + num_in not_over (sr_reqs s)) \<and>
     counts_ok (sr_count s) (num_in (tallied False) (sr_reqs s)) (num_in (tallied True) (sr_reqs s))"

lemma counts_ok_get: "counts_ok c ng ns \<Longrightarrow> counts_ok (count_get allow err verdict c) (ng + 1) ns"
proof -
  assume "counts_ok c ng ns"
  then obtain ge ic se where c: "gets c = of_nat ng" "sets c = of_nat ns" "getErrs c = of_nat ge" "inconsistencies c = of_nat ic"
    "ge + ic \<le> ng" "setErrs c = of_nat se" "se \<le> ns" unfolding counts_ok_def by blast
  have 1: "getErrs c + 1 = of_nat (ge + 1)" "inconsistencies c + 1 = of_nat (ic + 1)" "gets c + 1 = of_nat (ng + 1)" using c by simp_all
  consider "err \<noteq> None" | "err = None" "verdict \<noteq> None \<and> allow" | "err = None" "\<not> (verdict \<noteq> None \<and> allow)" by blast
  then show ?thesis
  proof cases
    case 1
    then show ?thesis using c \<open>getErrs c + 1 = _\<close> unfolding counts_ok_def count_get_def Let_def
      by (intro conjI exI [of _ "ge + 1"] exI [of _ ic] exI [of _ se]) auto
  next
    case 2
    then show ?thesis using c \<open>inconsistencies c + 1 = _\<close> unfolding counts_ok_def count_get_def Let_def
      by (intro conjI exI [of _ ge] exI [of _ "ic + 1"] exI [of _ se]) auto
  next
    case 3
    then show ?thesis using c unfolding counts_ok_def count_get_def Let_def
      by (intro conjI exI [of _ ge] exI [of _ ic] exI [of _ se]) auto
  qed
qed

lemma counts_ok_set: "counts_ok c ng ns \<Longrightarrow> counts_ok (count_set err c) ng (ns + 1)"
proof -
  assume "counts_ok c ng ns"
  then obtain se where "sets c = of_nat ns" "setErrs c = of_nat se" "se \<le> ns" "gets c = of_nat ng"
    "\<exists>ge ic. getErrs c = of_nat ge \<and> inconsistencies c = of_nat ic \<and> ge + ic \<le> ng" unfolding counts_ok_def by blast
  then show ?thesis unfolding counts_ok_def count_set_def Let_def
    by (cases "err = None") (auto intro: exI [of _ se] exI [of _ "se + 1"])
qed

lemma holding_update:
  "holding (s\<lparr>sr_loop := (sr_loop s)(b := l)\<rparr>) + (if sr_loop s b = Holding then 1 else 0) = holding s + (if l = Holding then 1 else 0)"
  "loops_on (s\<lparr>sr_loop := (sr_loop s)(b := l)\<rparr>) + (if sr_loop s b \<noteq> Ended then 1 else 0) = loops_on s + (if l \<noteq> Ended then 1 else 0)"
  by (cases b; simp add: holding_def loops_on_def)+

lemmas req_views = in_flight_req_def not_over_def tallied_def

lemma loops_same:
  "sr_loop s' = sr_loop s \<Longrightarrow> holding s' = holding s" "sr_loop s' = sr_loop s \<Longrightarrow> loops_on s' = loops_on s"
  by (simp_all add: holding_def loops_on_def)

lemma loops_changed:
  assumes "sr_loop s' = (sr_loop s)(b := l)"
  shows "holding s' + (if sr_loop s b = Holding then 1 else 0) = holding s + (if l = Holding then 1 else 0)"
    "loops_on s' + (if sr_loop s b \<noteq> Ended then 1 else 0) = loops_on s + (if l \<noteq> Ended then 1 else 0)"
  using holding_update [of s b l] loops_same [of s' "s\<lparr>sr_loop := (sr_loop s)(b := l)\<rparr>"] assms by simp_all

text \<open>A request that moves from one stage to the next changes the counts of these two stages.\<close>

lemma stage_counts:
  assumes "i < length rs" "rs ! i = (b, p)"
  shows "num_in in_flight_req (rs[i := (b, q)]) + (if p = Running \<or> p = Tallied then 1 else 0) =
      num_in in_flight_req rs + (if q = Running \<or> q = Tallied then 1 else 0)"
    "num_in not_over (rs[i := (b, q)]) + (if p \<noteq> Over then 1 else 0) = num_in not_over rs + (if q \<noteq> Over then 1 else 0)"
    "num_in (tallied b') (rs[i := (b, q)]) + (if b = b' \<and> p \<noteq> Running then 1 else 0) =
      num_in (tallied b') rs + (if b = b' \<and> q \<noteq> Running then 1 else 0)"
  using num_in_update [OF assms(1), of in_flight_req "(b, q)"] num_in_update [OF assms(1), of not_over "(b, q)"]
    num_in_update [OF assms(1), of "tallied b'" "(b, q)"] assms(2)
  by (simp_all add: req_views)

lemma run_inv_step:
  assumes inv: "run_inv m s" and step: "run_step s s'"
  shows "run_inv m s'"
  using step
proof cases
  case (rs_acquire b)
  then show ?thesis using inv loops_changed [of s' s b Holding] by (simp add: run_inv_def)
next
  case (rs_spawn b)
  then show ?thesis using inv loops_changed [of s' s b Idle] by (simp add: run_inv_def req_views)
next
  case (rs_loop_end b)
  then show ?thesis using inv loops_changed [of s' s b Ended] by (simp add: run_inv_def)
next
  case (rs_tally i b allow err verdict)
  note st = stage_counts [OF rs_tally(2,3), where q = Tallied]
  have "counts_ok (sr_count s) (num_in (tallied False) (sr_reqs s)) (num_in (tallied True) (sr_reqs s))" using inv by (simp add: run_inv_def)
  then have "counts_ok (tally b allow err verdict (sr_count s)) (num_in (tallied False) (sr_reqs s')) (num_in (tallied True) (sr_reqs s'))"
    using counts_ok_get counts_ok_set st(3) [of True] st(3) [of False] rs_tally(1) by (cases b) (simp_all add: tally_def)
  then show ?thesis using inv loops_same [of s' s] st(1,2) rs_tally(1) by (simp add: run_inv_def)
next
  case (rs_release i b)
  note st = stage_counts [OF rs_release(2,3), where q = Released]
  show ?thesis using inv loops_same [of s' s] st(1,2) st(3) [of True] st(3) [of False] rs_release(1)
    by (simp add: run_inv_def) linarith
next
  case (rs_over i b)
  note st = stage_counts [OF rs_over(2,3), where q = Over]
  show ?thesis using inv loops_same [of s' s] st(1,2) st(3) [of True] st(3) [of False] rs_over(1) by (simp add: run_inv_def)
qed

interpretation runs: inv_system "\<lambda>s. s = run_start m" run_step "run_inv m" for m
proof unfold_locales
  fix s assume "s = run_start m"
  then show "run_inv m s"
    by (simp add: run_inv_def run_start_def holding_def loops_on_def counts_ok_def no_counts_def)
qed (rule run_inv_step)

lemma num_in_split: "(\<And>x. \<not> (P x \<and> Q x)) \<Longrightarrow> (\<And>x. x \<in> set xs \<Longrightarrow> P x \<or> Q x) \<Longrightarrow> num_in P xs + num_in Q xs = length xs"
  by (induction xs) (auto simp: num_in_def)

subsection \<open>Properties\<close>

text \<open>C19: A run of the stress tester. At every moment at most \<open>--max-pending\<close> requests are in flight. When \<open>wait\<close> returns, both
  loops have ended, every request has been counted and has given its unit back, nothing can happen any
  more, and the printed numbers add up: gets and sets are all the requests, and neither the failed gets
  together with the inconsistent ones nor the failed sets exceed them, so no printed difference wraps.\<close>

theorem stress_run_complete:
  assumes "reach (\<lambda>s. s = run_start m) run_step s" "length (sr_reqs s) < 2 ^ 64"
  shows "num_in in_flight_req (sr_reqs s) \<le> m \<and>
    (waited_for s \<longrightarrow> (\<forall>b. sr_loop s b = Ended) \<and> (\<forall>r \<in> set (sr_reqs s). snd r = Over) \<and> sr_sem s = 0 \<and> \<not> (\<exists>s'. run_step s s') \<and>
       unat (gets (sr_count s)) + unat (sets (sr_count s)) = length (sr_reqs s) \<and>
       unat (getErrs (sr_count s)) + unat (inconsistencies (sr_count s)) \<le> unat (gets (sr_count s)) \<and>
       unat (setErrs (sr_count s)) \<le> unat (sets (sr_count s)))"
proof -
  have inv: "run_inv m s" by (rule runs.reach_inv [OF assms(1)])
  have "(\<forall>b. sr_loop s b = Ended) \<and> (\<forall>r \<in> set (sr_reqs s). snd r = Over)" if "waited_for s"
  proof -
    have "loops_on s = 0" "num_in not_over (sr_reqs s) = 0" using inv that by (simp_all add: run_inv_def waited_for_def)
    moreover have "sr_loop s b = Ended" if "loops_on s = 0" for b using that by (cases b) (auto simp: loops_on_def split: if_splits)
    ultimately show ?thesis by (auto simp: num_in_zero not_over_def)
  qed
  moreover have "sr_sem s = 0" "\<not> (\<exists>s'. run_step s s')"
    if ended: "\<forall>b. sr_loop s b = Ended" and over: "\<forall>r \<in> set (sr_reqs s). snd r = Over"
  proof -
    have "num_in in_flight_req (sr_reqs s) = 0" using over by (auto simp: num_in_zero in_flight_req_def)
    then show "sr_sem s = 0" using inv ended by (simp add: run_inv_def holding_def)
    have "sr_reqs s ! i \<noteq> (b, p)" if "i < length (sr_reqs s)" "p \<noteq> Over" for i b p using over nth_mem [OF that(1)] that(2) by fastforce
    then show "\<not> (\<exists>s'. run_step s s')" using ended by (auto elim!: run_step.cases)
  qed
  moreover have "unat (gets (sr_count s)) + unat (sets (sr_count s)) = length (sr_reqs s) \<and>
      unat (getErrs (sr_count s)) + unat (inconsistencies (sr_count s)) \<le> unat (gets (sr_count s)) \<and>
      unat (setErrs (sr_count s)) \<le> unat (sets (sr_count s))" if "\<forall>r \<in> set (sr_reqs s). snd r = Over"
  proof -
    let ?g = "num_in (tallied False) (sr_reqs s)" and ?t = "num_in (tallied True) (sr_reqs s)"
    have "?g + ?t = length (sr_reqs s)" using that by (intro num_in_split) (auto simp: tallied_def)
    moreover obtain ge ic se where c: "gets (sr_count s) = of_nat ?g" "sets (sr_count s) = of_nat ?t" "getErrs (sr_count s) = of_nat ge"
      "inconsistencies (sr_count s) = of_nat ic" "ge + ic \<le> ?g" "setErrs (sr_count s) = of_nat se" "se \<le> ?t"
      using inv by (auto simp: run_inv_def counts_ok_def)
    moreover have "unat (of_nat n :: u64) = n" if "n \<le> length (sr_reqs s)" for n using that assms(2) by (simp add: unat_of_nat)
    ultimately show ?thesis by auto
  qed
  moreover have "num_in in_flight_req (sr_reqs s) \<le> m" using inv by (simp add: run_inv_def)
  ultimately show ?thesis by blast
qed

text \<open>A run with one \<open>Set\<close>: sent, counted, released and reported to the wait group, then both loops end.\<close>

definition loops :: "loop \<Rightarrow> loop \<Rightarrow> bool \<Rightarrow> loop" where
  "loops getLoop setLoop b = (if b then setLoop else getLoop)"

lemma loops_simps: "loops x y True = y" "loops x y False = x" "(loops x y)(True := z) = loops x z" "(loops x y)(False := z) = loops z y"
  by (simp_all add: fun_eq_iff loops_def)

definition one_set :: "nat \<Rightarrow> int \<Rightarrow> loop \<Rightarrow> loop \<Rightarrow> stress_counters \<Rightarrow> (bool \<times> progress) list \<Rightarrow> stress_run" where
  "one_set sem wg getLoop setLoop c reqs =
     \<lparr>sr_count = c, sr_max = 5, sr_sem = sem, sr_wg = wg, sr_loop = loops getLoop setLoop, sr_reqs = reqs\<rparr>"

lemma one_set_steps:
  "run_step (one_set 0 2 Idle Idle no_counts []) (one_set 1 2 Idle Holding no_counts [])"
  "run_step (one_set 1 2 Idle Holding no_counts []) (one_set 1 3 Idle Idle no_counts [(True, Running)])"
  "run_step (one_set 1 3 Idle Idle no_counts [(True, Running)]) (one_set 1 3 Idle Idle (count_set None no_counts) [(True, Tallied)])"
  "run_step (one_set 1 3 Idle Idle c [(True, Tallied)]) (one_set 0 3 Idle Idle c [(True, Released)])"
  "run_step (one_set 0 3 Idle Idle c [(True, Released)]) (one_set 0 2 Idle Idle c [(True, Over)])"
  "run_step (one_set 0 2 Idle Idle c [(True, Over)]) (one_set 0 1 Idle Ended c [(True, Over)])"
  "run_step (one_set 0 1 Idle Ended c [(True, Over)]) (one_set 0 0 Ended Ended c [(True, Over)])"
  using rs_acquire [of "one_set 0 2 Idle Idle no_counts []" True] rs_spawn [of "one_set 1 2 Idle Holding no_counts []" True]
    rs_tally [of 0 "one_set 1 3 Idle Idle no_counts [(True, Running)]" True False None None]
    rs_release [of 0 "one_set 1 3 Idle Idle c [(True, Tallied)]" True] rs_over [of 0 "one_set 0 3 Idle Idle c [(True, Released)]" True]
    rs_loop_end [of "one_set 0 2 Idle Idle c [(True, Over)]" True] rs_loop_end [of "one_set 0 1 Idle Ended c [(True, Over)]" False]
  by (simp_all add: one_set_def loops_simps tally_def)

theorem stress_run_complete_witness:
  "\<exists>s. reach (\<lambda>s. s = run_start 5) run_step s \<and> waited_for s \<and> sr_reqs s = [(True, Over)] \<and> sr_sem s = 0 \<and>
     unat (gets (sr_count s)) + unat (sets (sr_count s)) = 1"
proof -
  let ?R = "reach (\<lambda>s. s = run_start 5) run_step" and ?s = "one_set 0 0 Ended Ended (count_set None no_counts) [(True, Over)]"
  have "?R (one_set 0 2 Idle Idle no_counts [])" by (rule reach_init) (simp add: one_set_def run_start_def fun_eq_iff loops_def)
  from reach_step [OF reach_step [OF reach_step [OF this one_set_steps(1)] one_set_steps(2)] one_set_steps(3)]
  have "?R (one_set 1 3 Idle Idle (count_set None no_counts) [(True, Tallied)])" .
  from reach_step [OF reach_step [OF reach_step [OF reach_step [OF this one_set_steps(4)] one_set_steps(5)] one_set_steps(6)] one_set_steps(7)]
  have r: "?R ?s" .
  have w: "waited_for ?s" "length (sr_reqs ?s) < 2 ^ 64" "sr_reqs ?s = [(True, Over)]" by (simp_all add: waited_for_def one_set_def)
  show ?thesis using stress_run_complete [OF r w(2)] r w(1,3) by auto
qed

end
