(* ===== verification/File_Shard_Map.thy ===== *)
theory File_Shard_Map
  imports Shard_Map
begin

text \<open>
  The shard map that follows a file (\<open>lab4/kv/file_shardmap.go\<close>). The file system, the JSON
  decoder and the \<open>fsnotify\<close> package are parameters: \<open>fs_env\<close> holds the outcome of creating the
  watcher, of adding a directory to it, the decoder, and \<open>fsnotify\<close>'s two flags. What
  \<open>os.ReadFile\<close> returns may change from one call to the next, so every call of \<open>applyFromFile\<close> gets
  its own reading. The signals that \<open>Update\<close> sends to listeners are in \<open>Shard_Map_Conc\<close>.
\<close>

subsection \<open>The environment and the state\<close>

type_synonym reading = "string \<Rightarrow> string + string"

record fs_env =
  NewWatcher_err :: "string option"
  Watcher_Add_err :: "string \<Rightarrow> string option"
  filepath_Dir :: "string \<Rightarrow> string"
  json_Unmarshal :: "string \<Rightarrow> string + ShardMapState"
  op_Write :: u32
  op_Create :: u32

record FileShardMap =
  fsm_ShardMap :: ShardMap
  fsm_filename :: string
  fsm_done :: "chan_id option"

definition isBitSet :: "u32 \<Rightarrow> u32 \<Rightarrow> bool" where
  "isBitSet bitset b \<longleftrightarrow> bitset AND b \<noteq> 0"

subsection \<open>Operations\<close>

definition applyFromFile :: "fs_env \<Rightarrow> reading \<Rightarrow> FileShardMap \<Rightarrow> string option \<times> FileShardMap" where
  "applyFromFile env readFile f =
     (case readFile (fsm_filename f) of
        Inl err \<Rightarrow> (Some err, f)
      | Inr data \<Rightarrow>
          (case json_Unmarshal env data of
             Inl err \<Rightarrow> (Some err, f)
           | Inr smState \<Rightarrow> (None, f\<lparr>fsm_ShardMap := sm_Swap smState (fsm_ShardMap f)\<rparr>)))"

definition WatchShardMapFile :: "fs_env \<Rightarrow> reading \<Rightarrow> string \<Rightarrow> string + FileShardMap" where
  "WatchShardMapFile env readFile filename =
     (case NewWatcher_err env of
        Some err \<Rightarrow> Inl err
      | None \<Rightarrow>
          (case Watcher_Add_err env (filepath_Dir env filename) of
             Some err \<Rightarrow> Inl err
           | None \<Rightarrow>
               (let fileSm = \<lparr>fsm_ShardMap = zero_ShardMap, fsm_filename = filename, fsm_done = None\<rparr>
                in case applyFromFile env readFile fileSm of
                     (Some err, _) \<Rightarrow> Inl err
                   | (None, fileSm') \<Rightarrow> Inr fileSm')))"

text \<open>A send on a nil channel blocks for ever; a send on \<open>done\<close> is received by the watching loop.\<close>

definition fsm_Shutdown :: "FileShardMap \<Rightarrow> unit go" where
  "fsm_Shutdown f = (case fsm_done f of None \<Rightarrow> Hang | Some _ \<Rightarrow> Ret ())"

text \<open>
  What one iteration of the \<open>select\<close> receives: an event with the reading of the file at that time, a
  receive from the closed event channel, an error, a receive from the closed error channel, or the
  shutdown signal.
\<close>

datatype watch_input =
    WEvent string u32 reading
  | WEventsClosed
  | WError string
  | WErrorsClosed
  | WDone

definition watch_event :: "fs_env \<Rightarrow> string \<Rightarrow> u32 \<Rightarrow> reading \<Rightarrow> FileShardMap \<Rightarrow> FileShardMap" where
  "watch_event env name evop readFile f =
     (if name \<noteq> fsm_filename f then f
      else if isBitSet evop (op_Write env) \<or> isBitSet evop (op_Create env)
      then snd (applyFromFile env readFile f)
      else f)"

text \<open>The loop on the inputs it receives; the flag tells whether it has returned. A receive from the
  nil \<open>done\<close> channel is never selected. The \<open>break\<close> after a closed channel leaves the \<open>select\<close> only,
  so the loop goes on.\<close>

fun watchForUpdates :: "fs_env \<Rightarrow> watch_input list \<Rightarrow> FileShardMap \<Rightarrow> bool \<times> FileShardMap" where
  "watchForUpdates env [] f = (False, f)"
| "watchForUpdates env (WEvent name evop readFile # ins) f =
     watchForUpdates env ins (watch_event env name evop readFile f)"
| "watchForUpdates env (WEventsClosed # ins) f = watchForUpdates env ins f"
| "watchForUpdates env (WError err # ins) f = watchForUpdates env ins f"
| "watchForUpdates env (WErrorsClosed # ins) f = watchForUpdates env ins f"
| "watchForUpdates env (WDone # ins) f =
     (if fsm_done f = None then watchForUpdates env ins f else (True, f))"

subsection \<open>The states a watch publishes\<close>

text \<open>The specification: the file contents that could be read and decoded at the events that concern
  the file, in order.\<close>

definition relevant :: "fs_env \<Rightarrow> string \<Rightarrow> watch_input \<Rightarrow> bool" where
  "relevant env filename i =
     (case i of WEvent name evop _ \<Rightarrow> name = filename \<and> (evop AND (op_Write env OR op_Create env)) \<noteq> 0
      | _ \<Rightarrow> False)"

definition decoded :: "fs_env \<Rightarrow> string \<Rightarrow> watch_input \<Rightarrow> ShardMapState option" where
  "decoded env filename i =
     (case i of WEvent _ _ readFile \<Rightarrow>
        (case readFile filename of Inl _ \<Rightarrow> None
         | Inr data \<Rightarrow> (case json_Unmarshal env data of Inl _ \<Rightarrow> None | Inr st \<Rightarrow> Some st))
      | _ \<Rightarrow> None)"

definition good_states :: "fs_env \<Rightarrow> string \<Rightarrow> watch_input list \<Rightarrow> ShardMapState list" where
  "good_states env filename ins = List.map_filter (decoded env filename) (filter (relevant env filename) ins)"

lemma isBitSet_or: "isBitSet x a \<or> isBitSet x b \<longleftrightarrow> x AND (a OR b) \<noteq> 0"
  unfolding isBitSet_def by (simp add: bit.conj_disj_distrib or_eq_0_iff)

lemma applyFromFile_same [simp]:
  "fsm_filename (snd (applyFromFile env rd f)) = fsm_filename f"
  "fsm_done (snd (applyFromFile env rd f)) = fsm_done f"
  by (simp_all add: applyFromFile_def split: sum.split)

lemma applyFromFile_state:
  "sm_state (fsm_ShardMap (snd (applyFromFile env rd f))) =
     (case decoded env (fsm_filename f) (WEvent n p rd) of
        None \<Rightarrow> sm_state (fsm_ShardMap f) | Some st \<Rightarrow> Some st)"
  by (simp add: applyFromFile_def decoded_def sm_Swap_def split: sum.split)

lemma watch_event_same [simp]:
  "fsm_filename (watch_event env name evop rd f) = fsm_filename f"
  "fsm_done (watch_event env name evop rd f) = fsm_done f"
  by (simp_all add: watch_event_def)

lemma watch_event_state:
  "sm_state (fsm_ShardMap (watch_event env name evop rd f)) =
     (if relevant env (fsm_filename f) (WEvent name evop rd)
      then case decoded env (fsm_filename f) (WEvent name evop rd) of
             None \<Rightarrow> sm_state (fsm_ShardMap f) | Some st \<Rightarrow> Some st
      else sm_state (fsm_ShardMap f))"
  by (simp add: watch_event_def relevant_def isBitSet_or applyFromFile_state [where n = name and p = evop])

lemma good_states_Nil [simp]: "good_states env fn [] = []"
  by (simp add: good_states_def List.map_filter_def)

lemma good_states_Cons:
  "good_states env fn (i # ins) =
     (if relevant env fn i then (case decoded env fn i of None \<Rightarrow> [] | Some st \<Rightarrow> [st]) else []) @
     good_states env fn ins"
  by (simp add: good_states_def List.map_filter_def split: option.split)

lemma WatchShardMapFile_Inr:
  assumes "WatchShardMapFile env rd filename = Inr f"
  shows "fsm_filename f = filename" "fsm_done f = None"
    "\<exists>data st. rd filename = Inr data \<and> json_Unmarshal env data = Inr st \<and> sm_state (fsm_ShardMap f) = Some st"
  using assms
  by (auto simp: WatchShardMapFile_def applyFromFile_def Let_def sm_Swap_def
      split: option.splits sum.splits)

lemma watch_nil_done: "fsm_done f = None \<Longrightarrow>
    \<not> fst (watchForUpdates env ins f) \<and> fsm_done (snd (watchForUpdates env ins f)) = None \<and>
    sm_state (fsm_ShardMap (snd (watchForUpdates env ins f))) =
      last (sm_state (fsm_ShardMap f) # map Some (good_states env (fsm_filename f) ins))"
proof (induction env ins f rule: watchForUpdates.induct)
  case (2 env name evop rd ins f)
  then show ?case
    by (auto simp: good_states_Cons watch_event_state split: option.split)
qed (auto simp: good_states_Cons relevant_def)

lemma watched_state:
  assumes "WatchShardMapFile env rd filename = Inr f"
    and "watchForUpdates env ins f = (stopped, f')"
  shows "\<exists>data st0. rd filename = Inr data \<and> json_Unmarshal env data = Inr st0 \<and>
    GetState (fsm_ShardMap f') = Ret (last (st0 # good_states env filename ins))"
proof -
  obtain data st0 where st0: "rd filename = Inr data" "json_Unmarshal env data = Inr st0"
    "sm_state (fsm_ShardMap f) = Some st0"
    using WatchShardMapFile_Inr(3) [OF assms(1)] by blast
  have "sm_state (fsm_ShardMap f') = last (Some st0 # map Some (good_states env filename ins))"
    using watch_nil_done [OF WatchShardMapFile_Inr(2) [OF assms(1)], of env ins] assms(2) st0(3)
      WatchShardMapFile_Inr(1) [OF assms(1)] by simp
  also have "\<dots> = Some (last (st0 # good_states env filename ins))"
    by (metis last_map list.distinct(1) list.simps(9))
  finally show ?thesis using st0 by (simp add: GetState_def)
qed

subsection \<open>Properties\<close>

text \<open>An environment for the witnesses: the decoder accepts one text only.\<close>

definition env0 :: fs_env where
  "env0 = \<lparr>NewWatcher_err = None, Watcher_Add_err = (\<lambda>_. None), filepath_Dir = (\<lambda>_. ''.''),
     json_Unmarshal = (\<lambda>d. if d = ''ok'' then Inr example_state else Inl ''invalid character''),
     op_Write = 2, op_Create = 1\<rparr>"

definition file_ok :: reading where
  "file_ok = (\<lambda>_. Inr ''ok'')"

definition file_bad :: reading where
  "file_bad = (\<lambda>_. Inr ''{'')"

definition file0 :: FileShardMap where
  "file0 = \<lparr>fsm_ShardMap = sm_Swap example_state zero_ShardMap, fsm_filename = ''m.json'', fsm_done = None\<rparr>"

lemma Watch_env0: "WatchShardMapFile env0 file_ok ''m.json'' = Inr file0"
  by (simp add: WatchShardMapFile_def env0_def file_ok_def file0_def applyFromFile_def Let_def)

text \<open>
  C26: once \<open>WatchShardMapFile\<close> has succeeded, the shard map always holds the last known good value:
  after any sequence of watch events, errors and closed channels, its state is the last content of
  the file that could be read and decoded at a write or create event for this very file, or the
  content of the initial load when there was none. In particular it is never the nil state, so the
  lookups do not panic.
\<close>

theorem watch_last_known_good:
  assumes "WatchShardMapFile env rd filename = Inr f"
    and "watchForUpdates env ins f = (stopped, f')"
  shows "\<exists>data st0. rd filename = Inr data \<and> json_Unmarshal env data = Inr st0 \<and>
    GetState (fsm_ShardMap f') = Ret (last (st0 # good_states env filename ins))"
  using assms by (rule watched_state)

theorem watch_last_known_good_witness:
  "GetState (fsm_ShardMap (snd (watchForUpdates env0 [WEvent ''m.json'' 2 file_bad, WEventsClosed] file0))) =
     Ret example_state"
proof -
  let ?ins = "[WEvent ''m.json'' 2 file_bad, WEventsClosed]"
  have "good_states env0 ''m.json'' ?ins = []"
    by (simp add: good_states_def List.map_filter_def relevant_def decoded_def env0_def file_bad_def)
  moreover have "\<exists>data st0. file_ok ''m.json'' = Inr data \<and> json_Unmarshal env0 data = Inr st0 \<and>
    GetState (fsm_ShardMap (snd (watchForUpdates env0 ?ins file0))) = Ret (last (st0 # good_states env0 ''m.json'' ?ins))"
    using watch_last_known_good [OF Watch_env0, of ?ins "fst (watchForUpdates env0 ?ins file0)"
      "snd (watchForUpdates env0 ?ins file0)"] by simp
  ultimately show ?thesis by (auto simp: file_ok_def env0_def)
qed

text \<open>
  C39: the \<open>done\<close> channel of a \<open>FileShardMap\<close> is never made. So for every file shard map that
  \<open>WatchShardMapFile\<close> returns, \<open>Shutdown\<close> blocks for ever, and the watching loop never returns,
  whatever it receives, even after both watcher channels have been closed.
\<close>

theorem file_watch_never_stops:
  assumes "WatchShardMapFile env rd filename = Inr f"
  shows "fsm_Shutdown (snd (watchForUpdates env ins f)) = Hang \<and> \<not> fst (watchForUpdates env ins f)"
  using watch_nil_done [OF WatchShardMapFile_Inr(2) [OF assms], of env ins] by (simp add: fsm_Shutdown_def)

theorem file_watch_never_stops_witness:
  "\<not> fst (watchForUpdates env0 [WEventsClosed, WErrorsClosed, WDone] file0)"
  using file_watch_never_stops [OF Watch_env0] by blast

text \<open>
  \<open>WatchShardMapFile\<close> returns an error exactly when the watcher cannot be created, the
  directory cannot be watched, or the file cannot be read or decoded; errors later on leave the
  file shard map unchanged.
\<close>

theorem WatchShardMapFile_errors:
  "((\<exists>err. WatchShardMapFile env rd filename = Inl err) \<longleftrightarrow>
     (\<exists>e. NewWatcher_err env = Some e) \<or> (\<exists>e. Watcher_Add_err env (filepath_Dir env filename) = Some e) \<or>
     decoded env filename (WEvent filename 0 rd) = None) \<and>
   (fst (applyFromFile env rd f) \<noteq> None \<longleftrightarrow> decoded env (fsm_filename f) (WEvent filename 0 rd) = None) \<and>
   (snd (applyFromFile env rd f) = f \<or> fst (applyFromFile env rd f) = None)"
  by (auto simp: WatchShardMapFile_def applyFromFile_def decoded_def Let_def split: option.splits sum.splits)

end
