(* ===== verification/Shard_Map_Conc.thy ===== *)
theory Shard_Map_Conc
  imports Shard_Map
begin

text \<open>
  The shard map under concurrency (\<open>lab4/kv/shardmap.go\<close>) and the server that listens to it
  (\<open>lab4/kv/server.go\<close>). \<open>Update\<close> swaps the state, takes the read lock and sends one signal on
  every registered, unbuffered channel, so each send waits for that channel's listener loop;
  \<open>MakeListener\<close> and \<open>Close\<close> take the write lock, so they run while nobody holds the read lock.
  A listener loop (\<open>shardMapListenLoop\<close>) receives until its server is told to shut down, and
  \<open>Shutdown\<close> calls \<open>Close\<close> only after that.
\<close>

subsection \<open>The server\<close>

record KvServerImpl =
  nodeName :: string
  srv_listener :: ShardMapListener
  srv_running :: bool

definition handleShardMapUpdate :: "KvServerImpl \<Rightarrow> KvServerImpl" where
  "handleShardMapUpdate server = server"

definition MakeKvServer :: "string \<Rightarrow> chan_id \<Rightarrow> ShardMap \<Rightarrow> KvServerImpl \<times> ShardMap" where
  "MakeKvServer name ch sm =
     (let (listener, sm') = MakeListener ch sm;
          server = \<lparr>nodeName = name, srv_listener = listener, srv_running = True\<rparr>
      in (handleShardMapUpdate server, sm'))"

text \<open>The cases of the \<open>select\<close> of \<open>shardMapListenLoop\<close>, in the order they are received.\<close>

datatype loop_event = EvShutdown | EvUpdate

fun shardMapListenLoop :: "loop_event list \<Rightarrow> KvServerImpl \<Rightarrow> KvServerImpl" where
  "shardMapListenLoop [] server = server"
| "shardMapListenLoop (EvShutdown # evs) server = server\<lparr>srv_running := False\<rparr>"
| "shardMapListenLoop (EvUpdate # evs) server = shardMapListenLoop evs (handleShardMapUpdate server)"

text \<open>\<open>Shutdown\<close> without concurrent updates: the send is received by the loop if it still runs and blocks for ever otherwise; then the
  listener is closed.\<close>

definition srv_Shutdown :: "KvServerImpl \<Rightarrow> ShardMap \<Rightarrow> (KvServerImpl \<times> ShardMap) go" where
  "srv_Shutdown server sm =
     (if \<not> srv_running server then Hang
      else Ret (shardMapListenLoop [EvShutdown] server, sm_Unregister (srv_listener server) sm))"

text \<open>The request handlers of the server are not implemented in this repository: they panic.\<close>

definition srv_Get :: "KvServerImpl \<Rightarrow> string \<Rightarrow> (string \<times> bool) go" where
  "srv_Get server key = Panic ''TODO: Part A''"

definition srv_Set :: "KvServerImpl \<Rightarrow> string \<Rightarrow> string \<Rightarrow> int \<Rightarrow> unit go" where
  "srv_Set server key val ttlMs = Panic ''TODO: Part A''"

definition srv_Delete :: "KvServerImpl \<Rightarrow> string \<Rightarrow> unit go" where
  "srv_Delete server key = Panic ''TODO: Part A''"

definition srv_GetShardContents :: "KvServerImpl \<Rightarrow> int \<Rightarrow> (string \<times> string \<times> int) list go" where
  "srv_GetShardContents server shard = Panic ''TODO: Part C''"

subsection \<open>Threads\<close>

text \<open>A thread inside \<open>Update\<close>: before it, after the swap, or holding the read lock with the
  channels still to be signalled and those already signalled.\<close>

datatype upd_pc = UIdle | USwapped | USending "chan_id list" "chan_id list"

record conc =
  c_sm :: ShardMap
  c_next :: chan_id
  c_closed :: "chan_id set"
  c_upd :: "nat \<Rightarrow> upd_pc"
  c_listeners :: "ShardMapListener list"
  c_loops :: "chan_id set"
  c_send_panic :: bool
  c_close_panic :: bool

definition conc_init :: "conc \<Rightarrow> bool" where
  "conc_init s \<longleftrightarrow> updateChannels (c_sm s) = [] \<and> updateChannelCounter (c_sm s) = 0 \<and> c_closed s = {} \<and>
     c_upd s = (\<lambda>_. UIdle) \<and> c_listeners s = [] \<and> c_loops s = {} \<and> \<not> c_send_panic s \<and> \<not> c_close_panic s"

definition no_reader :: "conc \<Rightarrow> bool" where
  "no_reader s \<longleftrightarrow> (\<forall>t todo don. c_upd s t \<noteq> USending todo don)"

abbreviation chans :: "conc \<Rightarrow> chan_id list" where
  "chans s \<equiv> map snd (updateChannels (c_sm s))"

inductive cstep :: "conc \<Rightarrow> conc \<Rightarrow> bool" where
  upd_swap: "c_upd s t = UIdle \<Longrightarrow>
    cstep s (s\<lparr>c_sm := sm_Swap st (c_sm s), c_upd := (c_upd s)(t := USwapped)\<rparr>)"
| upd_rlock: "c_upd s t = USwapped \<Longrightarrow> mset order = mset (chans s) \<Longrightarrow>
    cstep s (s\<lparr>c_upd := (c_upd s)(t := USending order [])\<rparr>)"
| upd_send: "c_upd s t = USending (ch # todo) don \<Longrightarrow> ch \<notin> c_closed s \<Longrightarrow> ch \<in> c_loops s \<Longrightarrow>
    cstep s (s\<lparr>c_upd := (c_upd s)(t := USending todo (don @ [ch]))\<rparr>)"
| upd_send_closed: "c_upd s t = USending (ch # todo) don \<Longrightarrow> ch \<in> c_closed s \<Longrightarrow>
    cstep s (s\<lparr>c_send_panic := True\<rparr>)"
| upd_runlock: "c_upd s t = USending [] don \<Longrightarrow> cstep s (s\<lparr>c_upd := (c_upd s)(t := UIdle)\<rparr>)"
| make_listener: "no_reader s \<Longrightarrow> MakeListener (c_next s) (c_sm s) = (l, sm) \<Longrightarrow>
    cstep s (s\<lparr>c_sm := sm, c_next := Suc (c_next s), c_listeners := l # c_listeners s,
      c_loops := insert (l_ch l) (c_loops s)\<rparr>)"
| loop_shutdown: "l \<in> set (c_listeners s) \<Longrightarrow> cstep s (s\<lparr>c_loops := c_loops s - {l_ch l}\<rparr>)"
| close_listener: "no_reader s \<Longrightarrow> l \<in> set (c_listeners s) \<Longrightarrow> l_ch l \<notin> c_closed s \<Longrightarrow>
    cstep s (s\<lparr>c_sm := sm_Unregister l (c_sm s), c_closed := insert (l_ch l) (c_closed s),
      c_loops := c_loops s - {l_ch l}\<rparr>)"
| close_again: "no_reader s \<Longrightarrow> l \<in> set (c_listeners s) \<Longrightarrow> l_ch l \<in> c_closed s \<Longrightarrow>
    cstep s (s\<lparr>c_sm := sm_Unregister l (c_sm s), c_close_panic := True\<rparr>)"

inductive_cases cstepE: "cstep s s'"

subsection \<open>The invariant\<close>

definition cinv :: "conc \<Rightarrow> bool" where
  "cinv s \<longleftrightarrow>
     gm_wf (updateChannels (c_sm s)) \<and> distinct (chans s) \<and>
     (\<forall>(i, ch) \<in> set (updateChannels (c_sm s)). i < updateChannelCounter (c_sm s) \<and> ch < c_next s \<and> ch \<notin> c_closed s) \<and>
     (\<forall>l \<in> set (c_listeners s). l_ch l < c_next s \<and> l_id l < updateChannelCounter (c_sm s) \<and>
        gm_get (updateChannels (c_sm s)) (l_id l) = (if l_ch l \<in> c_closed s then None else Some (l_ch l))) \<and>
     (\<forall>ch \<in> c_closed s. ch < c_next s) \<and>
     (\<forall>t todo don. c_upd s t = USending todo don \<longrightarrow> mset (todo @ don) = mset (chans s)) \<and>
     \<not> c_send_panic s"

lemma cinv_init: "conc_init s \<Longrightarrow> cinv s"
  by (simp add: conc_init_def cinv_def)

lemma cinv_sending:
  assumes "cinv s" "c_upd s t = USending (ch # todo) don"
  shows "ch \<notin> c_closed s"
proof -
  have "mset ((ch # todo) @ don) = mset (chans s)" using assms unfolding cinv_def by blast
  then have "ch \<in> set (chans s)" by (metis Un_iff append_Cons list.set_intros(1) mset_eq_setD)
  then show ?thesis using assms(1) by (auto simp: cinv_def)
qed

lemma gm_put_new: "k \<notin> set (gm_keys m) \<Longrightarrow> gm_put k v m = m @ [(k, v)]"
  by (induction m) auto

lemma gm_del_subset: "set (gm_del i m) \<subseteq> set m"
  by (auto simp: AList.delete_eq)

lemma gm_del_chan:
  assumes "gm_wf m" "distinct (map snd m)" "gm_get m i = Some ch"
  shows "distinct (map snd (gm_del i m))" "ch \<notin> set (map snd (gm_del i m))"
proof -
  have inj: "inj_on snd (set m)" "distinct m" using assms(2) by (auto simp: distinct_map)
  show "distinct (map snd (gm_del i m))"
    using inj gm_del_subset [of i m] by (auto simp: distinct_map AList.delete_eq intro: inj_on_subset)
  show "ch \<notin> set (map snd (gm_del i m))"
  proof
    assume "ch \<in> set (map snd (gm_del i m))"
    then obtain j where j: "(j, ch) \<in> set m" "j \<noteq> i" by (auto simp: AList.delete_eq)
    moreover have "(i, ch) \<in> set m" using assms(3) by (rule map_of_SomeD)
    ultimately show False using inj_onD [OF inj(1), of "(j, ch)" "(i, ch)"] by simp
  qed
qed

lemma cinv_make_listener:
  assumes "cinv s" "no_reader s" "MakeListener (c_next s) (c_sm s) = (l, sm)"
  shows "cinv (s\<lparr>c_sm := sm, c_next := Suc (c_next s), c_listeners := l # c_listeners s,
    c_loops := insert (l_ch l) (c_loops s)\<rparr>)"
proof -
  let ?i = "updateChannelCounter (c_sm s)" and ?m = "updateChannels (c_sm s)"
  have new: "?i \<notin> set (gm_keys ?m)" "c_next s \<notin> set (chans s)" "c_next s \<notin> c_closed s"
    using assms(1) by (auto simp: cinv_def)
  have sm: "updateChannels sm = ?m @ [(?i, c_next s)]" "updateChannelCounter sm = ?i + 1"
    "l_ch l = c_next s" "l_id l = ?i"
    using assms(3) gm_put_new [OF new(1)] by (auto simp: MakeListener_def Let_def)
  have wf: "gm_wf (?m @ [(?i, c_next s)])"
    using assms(1) new(1) by (auto simp: cinv_def gm_wf_def)
  have get: "gm_get (?m @ [(?i, c_next s)]) (l_id l') = Some (l_ch l')"
    if "gm_get ?m (l_id l') = Some (l_ch l')" for l'
    using that by (simp add: map_add_def)
  have get_new: "gm_get (?m @ [(?i, c_next s)]) ?i = Some (c_next s)"
    using wf by (metis gm_get_mem in_set_conv_decomp)
  show ?thesis
    unfolding cinv_def using assms(1,2) new wf get get_new
    by (simp add: sm cinv_def no_reader_def case_prod_beta less_Suc_eq) force
qed

lemma cinv_close:
  assumes "cinv s" "no_reader s" "l \<in> set (c_listeners s)" "l_ch l \<notin> c_closed s"
  shows "cinv (s\<lparr>c_sm := sm_Unregister l (c_sm s), c_closed := insert (l_ch l) (c_closed s),
    c_loops := c_loops s - {l_ch l}\<rparr>)"
proof -
  let ?m = "updateChannels (c_sm s)"
  have get: "gm_get ?m (l_id l) = Some (l_ch l)" and wf: "gm_wf ?m" "distinct (chans s)"
    using assms(1,3,4) by (auto simp: cinv_def)
  note del = gm_del_chan [OF wf get]
  have chan: "snd p \<noteq> l_ch l" if "p \<in> set (gm_del (l_id l) ?m)" for p using del(2) that by force
  have others: "l_id l' \<noteq> l_id l" if "l' \<in> set (c_listeners s)" "l_ch l' \<notin> c_closed s" "l_ch l' \<noteq> l_ch l" for l'
    using assms(1) get that by (auto simp: cinv_def)
  have same: "l_id l' = l_id l" if l': "l' \<in> set (c_listeners s)" "l_ch l' = l_ch l" for l'
  proof -
    have "gm_get ?m (l_id l') = Some (l_ch l)" using assms(1,4) l' by (auto simp: cinv_def)
    then have "(l_id l', l_ch l) \<in> set ?m" "(l_id l, l_ch l) \<in> set ?m" using get by (auto dest: map_of_SomeD)
    moreover have "inj_on snd (set ?m)" using wf(2) by (simp add: distinct_map)
    ultimately show ?thesis using inj_onD [of snd "set ?m" "(l_id l', l_ch l)" "(l_id l, l_ch l)"] by simp
  qed
  have entries: "fst p < updateChannelCounter (c_sm s) \<and> snd p < c_next s \<and> snd p \<notin> insert (l_ch l) (c_closed s)"
    if p: "p \<in> set (gm_del (l_id l) ?m)" for p
  proof -
    have "p \<in> set ?m" by (rule subsetD [OF gm_del_subset p])
    then have "fst p < updateChannelCounter (c_sm s) \<and> snd p < c_next s \<and> snd p \<notin> c_closed s"
      using assms(1) by (simp add: cinv_def case_prod_beta)
    then show ?thesis using chan [OF p] by simp
  qed
  have listed: "gm_get (gm_del (l_id l) ?m) (l_id l') = (if l_ch l' \<in> insert (l_ch l) (c_closed s) then None else Some (l_ch l'))"
    if l': "l' \<in> set (c_listeners s)" for l'
  proof -
    have "gm_get ?m (l_id l') = (if l_ch l' \<in> c_closed s then None else Some (l_ch l'))" using assms(1) l' unfolding cinv_def by blast
    then show ?thesis using same [OF l'] others [OF l'] by (cases "l_ch l' = l_ch l") auto
  qed
  show ?thesis
    unfolding cinv_def using assms del(1) entries listed
    by (simp add: sm_Unregister_def cinv_def no_reader_def case_prod_beta)
qed

text \<open>The listener's entry is gone after the first \<open>Close\<close>.\<close>

lemma unregister_again:
  assumes "cinv s" "l \<in> set (c_listeners s)" "l_ch l \<in> c_closed s"
  shows "sm_Unregister l (c_sm s) = c_sm s"
proof -
  have "gm_get (updateChannels (c_sm s)) (l_id l) = None" using assms by (auto simp: cinv_def)
  then show ?thesis by (simp add: sm_Unregister_def map_of_eq_None_iff)
qed

lemma cinv_step: "cinv s \<Longrightarrow> cstep s s' \<Longrightarrow> cinv s'"
proof (erule cstepE)
  fix t ch todo don
  assume "cinv s" "c_upd s t = USending (ch # todo) don" "ch \<in> c_closed s"
  then show ?thesis using cinv_sending by blast
next
  fix l sm
  assume "cinv s" "no_reader s" "MakeListener (c_next s) (c_sm s) = (l, sm)"
    "s' = s\<lparr>c_sm := sm, c_next := Suc (c_next s), c_listeners := l # c_listeners s,
      c_loops := insert (l_ch l) (c_loops s)\<rparr>"
  then show ?thesis using cinv_make_listener by blast
next
  fix l
  assume "cinv s" "no_reader s" "l \<in> set (c_listeners s)" "l_ch l \<notin> c_closed s"
    "s' = s\<lparr>c_sm := sm_Unregister l (c_sm s), c_closed := insert (l_ch l) (c_closed s),
      c_loops := c_loops s - {l_ch l}\<rparr>"
  then show ?thesis using cinv_close by blast
next
  fix l
  assume inv: "cinv s" and l: "l \<in> set (c_listeners s)" "l_ch l \<in> c_closed s"
    and s': "s' = s\<lparr>c_sm := sm_Unregister l (c_sm s), c_close_panic := True\<rparr>"
  show ?thesis using inv unfolding s' unregister_again [OF inv l] by (simp add: cinv_def)
next
  fix t ch todo don
  assume inv: "cinv s" and pc: "c_upd s t = USending (ch # todo) don"
    and s': "s' = s\<lparr>c_upd := (c_upd s)(t := USending todo (don @ [ch]))\<rparr>"
  have "mset ((ch # todo) @ don) = mset (chans s)" using inv pc unfolding cinv_def by blast
  then show ?thesis using inv by (auto simp: s' cinv_def)
qed (auto simp: cinv_def sm_Swap_def)

interpretation smc: inv_system conc_init cstep cinv
  by unfold_locales (auto intro: cinv_init cinv_step)


lemma sent_order:
  assumes "cinv s" "c_upd s t = USending todo don"
  shows "mset (todo @ don) = mset (chans s)" "distinct (todo @ don)"
proof -
  show m: "mset (todo @ don) = mset (chans s)" using assms unfolding cinv_def by blast
  show "distinct (todo @ don)" using assms(1) mset_eq_imp_distinct_iff [OF m] unfolding cinv_def by blast
qed

text \<open>A channel without a loop never gets one back: loops start with fresh channels, and a new
  listener needs the write lock.\<close>

lemma stuck_step:
  assumes "cstep s s'" "cinv s" "c_upd s t = USending (ch # todo) don" "ch \<notin> c_loops s"
  shows "c_upd s' t = USending (ch # todo) don \<and> ch \<notin> c_loops s'"
  using assms by (auto simp: no_reader_def elim!: cstepE)

lemma stuck_steps:
  assumes "cstep\<^sup>*\<^sup>* s s'" "cinv s" "c_upd s t = USending (ch # todo) don" "ch \<notin> c_loops s"
  shows "cinv s' \<and> c_upd s' t = USending (ch # todo) don \<and> ch \<notin> c_loops s'"
  using assms by (induction rule: rtranclp_induct) (auto dest: stuck_step cinv_step)

text \<open>A concrete run: one server is made, an update takes the read lock, the server's loop is shut
  down before it receives.\<close>

definition conc0 :: conc where
  "conc0 = \<lparr>c_sm = zero_ShardMap, c_next = 0, c_closed = {}, c_upd = (\<lambda>_. UIdle), c_listeners = [],
     c_loops = {}, c_send_panic = False, c_close_panic = False\<rparr>"

definition conc_listening :: conc where
  "conc_listening = conc0\<lparr>c_sm := snd (MakeListener 0 zero_ShardMap), c_next := 1,
     c_listeners := [\<lparr>l_ch = 0, l_id = 0\<rparr>], c_loops := {0}\<rparr>"

definition conc_sending :: "chan_id list \<Rightarrow> chan_id list \<Rightarrow> conc" where
  "conc_sending todo don = conc_listening\<lparr>c_sm := sm_Swap example_state (c_sm conc_listening),
     c_upd := (\<lambda>_. UIdle)(0 := USending todo don)\<rparr>"

definition conc_stuck :: conc where
  "conc_stuck = (conc_sending [0] [])\<lparr>c_loops := {}\<rparr>"

lemma conc_listening_reach: "reach conc_init cstep conc_listening"
proof (rule reach_step [OF reach_init])
  show "conc_init conc0" by (simp add: conc0_def conc_init_def zero_ShardMap_def)
  show "cstep conc0 conc_listening"
    using make_listener [of conc0 "\<lparr>l_ch = 0, l_id = 0\<rparr>" "snd (MakeListener 0 zero_ShardMap)"]
    by (simp add: conc0_def conc_listening_def no_reader_def MakeListener_def Let_def zero_ShardMap_def)
qed

lemma conc_sending_reach: "reach conc_init cstep (conc_sending [0] [])"
proof (rule reach_step [OF reach_step [OF conc_listening_reach]])
  let ?s = "conc_listening\<lparr>c_sm := sm_Swap example_state (c_sm conc_listening), c_upd := (\<lambda>_. UIdle)(0 := USwapped)\<rparr>"
  show "cstep conc_listening ?s"
    using upd_swap [of conc_listening 0 example_state] by (simp add: conc_listening_def conc0_def)
  show "cstep ?s (conc_sending [0] [])"
    using upd_rlock [of ?s 0 "[0]"]
    by (simp add: conc_sending_def conc_listening_def conc0_def sm_Swap_def MakeListener_def Let_def zero_ShardMap_def)
qed

lemma conc_sent_reach: "reach conc_init cstep (conc_sending [] [0])"
  using reach_step [OF conc_sending_reach upd_send [of _ 0 0 "[]" "[]"]]
  by (simp add: conc_sending_def conc_listening_def conc0_def)

lemma conc_stuck_reach: "reach conc_init cstep conc_stuck"
  using reach_step [OF conc_sending_reach loop_shutdown [of "\<lparr>l_ch = 0, l_id = 0\<rparr>"]]
  by (simp add: conc_stuck_def conc_sending_def conc_listening_def conc0_def)

subsection \<open>Properties\<close>

text \<open>
  C14: whatever the interleaving of \<open>Update\<close>, \<open>MakeListener\<close>, \<open>Close\<close> and server shutdowns, no
  update ever sends on a closed channel; and when \<open>Update\<close> has finished its loop and is about to
  release the read lock, it has signalled every channel registered at that moment exactly once.
\<close>

theorem Update_signals_every_listener_once:
  assumes "reach conc_init cstep s" and "c_upd s t = USending todo don"
  shows "\<not> c_send_panic s \<and> set todo \<inter> c_closed s = {} \<and> distinct (todo @ don) \<and>
    (todo = [] \<longrightarrow> mset don = mset (chans s))"
proof (intro conjI impI)
  have inv: "cinv s" by (rule smc.reach_inv [OF assms(1)])
  note order = sent_order [OF inv assms(2)]
  show "\<not> c_send_panic s" using inv by (simp add: cinv_def)
  have "set todo \<subseteq> set (chans s)" using mset_eq_setD [OF order(1)] by auto
  then show "set todo \<inter> c_closed s = {}" using inv by (fastforce simp: cinv_def)
  show "distinct (todo @ don)" by (rule order(2))
  show "mset don = mset (chans s)" if "todo = []" using order(1) that by simp
qed

theorem Update_signals_every_listener_once_witness:
  "\<not> c_send_panic (conc_sending [] [0]) \<and> mset [0] = mset (chans (conc_sending [] [0]))"
proof -
  have pc: "c_upd (conc_sending [] [0]) 0 = USending [] [0]" by (simp add: conc_sending_def)
  show ?thesis using Update_signals_every_listener_once [OF conc_sent_reach pc] by simp
qed

text \<open>
  C37: an update that holds the read lock while the next channel's loop has been shut down is stuck
  for good: whatever the other threads do, it keeps waiting on the same channel, nobody receives on
  it, and the write lock that \<open>Close\<close> (and \<open>MakeListener\<close>) needs is never free again. The witness
  is a reachable such state: \<open>Shutdown\<close> stops the loop before it calls \<open>Close\<close>, and an \<open>Update\<close> in
  between deadlocks with it.
\<close>

theorem Update_Shutdown_deadlock:
  assumes "reach conc_init cstep s" and "c_upd s t = USending (ch # todo) don" and "ch \<notin> c_loops s"
    and "cstep\<^sup>*\<^sup>* s s'"
  shows "c_upd s' t = USending (ch # todo) don \<and> ch \<notin> c_loops s' \<and> \<not> no_reader s'"
  using stuck_steps [OF assms(4) smc.reach_inv [OF assms(1)] assms(2,3)] by (auto simp: no_reader_def)

theorem Update_Shutdown_deadlock_witness:
  "reach conc_init cstep conc_stuck \<and> c_upd conc_stuck 0 = USending [0] [] \<and> \<not> no_reader conc_stuck"
proof -
  have pc: "c_upd conc_stuck 0 = USending [0] []" "0 \<notin> c_loops conc_stuck"
    by (simp_all add: conc_stuck_def conc_sending_def)
  show ?thesis
    using Update_Shutdown_deadlock [OF conc_stuck_reach pc rtranclp.rtrancl_refl] conc_stuck_reach by blast
qed

text \<open>
  In every reachable state a listener that has not been closed is registered under its own
  identifier with its own channel, so its \<open>Close\<close> removes exactly its own channel and leaves the
  registration of every other listener as it is.
\<close>

theorem Close_removes_only_its_channel:
  assumes "reach conc_init cstep s" and "l \<in> set (c_listeners s)" and "l_ch l \<notin> c_closed s"
  shows "gm_get (updateChannels (c_sm s)) (l_id l) = Some (l_ch l) \<and>
    set (map snd (updateChannels (sm_Unregister l (c_sm s)))) = set (chans s) - {l_ch l}"
proof
  have inv: "cinv s" by (rule smc.reach_inv [OF assms(1)])
  then show get: "gm_get (updateChannels (c_sm s)) (l_id l) = Some (l_ch l)"
    using assms(2,3) by (simp add: cinv_def)
  have wf: "gm_wf (updateChannels (c_sm s))" "distinct (chans s)" using inv by (simp_all add: cinv_def)
  have "p \<in> set (gm_del (l_id l) (updateChannels (c_sm s)))"
    if "p \<in> set (updateChannels (c_sm s))" "snd p \<noteq> l_ch l" for p
    using that get wf(1) by (auto simp: AList.delete_eq gm_get_mem)
  then show "set (map snd (updateChannels (sm_Unregister l (c_sm s)))) = set (chans s) - {l_ch l}"
    using gm_del_chan(2) [OF wf get] gm_del_subset [of "l_id l" "updateChannels (c_sm s)"]
    by (auto simp: sm_Unregister_def image_iff)
qed

theorem Close_removes_only_its_channel_witness:
  "gm_get (updateChannels (c_sm conc_listening)) 0 = Some 0"
  using Close_removes_only_its_channel [OF conc_listening_reach, of "\<lparr>l_ch = 0, l_id = 0\<rparr>"]
  by (simp add: conc_listening_def conc0_def)

end
