(* ===== verification/Client_Pool.thy ===== *)
theory Client_Pool
  imports Shard_Map_Conc
begin

text \<open>
  Client pools: the interface \<open>ClientPool\<close> and its gRPC implementation
  (\<open>lab4/kv/clientpool.go\<close>), the pool of mocked clients of the tests
  (\<open>lab4/kv/test/test_clientpool.go\<close>) and the client built on them (\<open>lab4/kv/client.go\<close>).
  \<open>grpc.Dial\<close> and the generated \<open>NewKvClient\<close> are parameters. A Go pair of a value and an error is a
  pair of options: \<open>None\<close> is nil. Locks are released before every return, so they are not part of the
  sequential state; the races that the double check of \<open>GetClient\<close> guards against are a step relation.
\<close>

subsection \<open>The gRPC pool\<close>

record 'c GrpcClientPool =
  pool_shardMap :: ShardMap
  pool_clients :: "(string, 'c) gomap"

definition MakeClientPool :: "ShardMap \<Rightarrow> 'c GrpcClientPool" where
  "MakeClientPool shardMap = \<lparr>pool_shardMap = shardMap, pool_clients = []\<rparr>"

definition makeConnection :: "(string \<Rightarrow> string + 'ch) \<Rightarrow> ('ch \<Rightarrow> 'c) \<Rightarrow> string \<Rightarrow> 'c option \<times> string option" where
  "makeConnection dial newClient addr =
     (case dial addr of Inl err \<Rightarrow> (None, Some err) | Inr channel \<Rightarrow> (Some (newClient channel), None))"

definition sint_decimal :: "32 word \<Rightarrow> string" where
  "sint_decimal p = (if sint p < 0 then ''-'' @ decimal (nat (- sint p)) else decimal (nat (sint p)))"

text \<open>The part of \<open>GetClient\<close> under the exclusive lock.\<close>

definition get_client_locked ::
  "(string \<Rightarrow> string + 'ch) \<Rightarrow> ('ch \<Rightarrow> 'c) \<Rightarrow> string \<Rightarrow> 'c GrpcClientPool \<Rightarrow>
     (('c option \<times> string option) \<times> 'c GrpcClientPool) go" where
  "get_client_locked dial newClient node pool =
     (case gm_get (pool_clients pool) node of
        Some client \<Rightarrow> Ret ((Some client, None), pool)
      | None \<Rightarrow>
          go_bind (sm_Nodes (pool_shardMap pool)) (\<lambda>nodes.
            case gm_get nodes node of
              None \<Rightarrow> Ret ((None, Some (''no node named: '' @ node)), pool)
            | Some nodeInfo \<Rightarrow>
                (case makeConnection dial newClient (Address nodeInfo @ '':'' @ sint_decimal (Port nodeInfo)) of
                   (_, Some err) \<Rightarrow> Ret ((None, Some err), pool)
                 | (None, None) \<Rightarrow> Ret ((None, None), pool)
                 | (Some client, None) \<Rightarrow>
                     Ret ((Some client, None), pool\<lparr>pool_clients := gm_put node client (pool_clients pool)\<rparr>))))"

definition GetClient ::
  "(string \<Rightarrow> string + 'ch) \<Rightarrow> ('ch \<Rightarrow> 'c) \<Rightarrow> string \<Rightarrow> 'c GrpcClientPool \<Rightarrow>
     (('c option \<times> string option) \<times> 'c GrpcClientPool) go" where
  "GetClient dial newClient node pool =
     (case gm_get (pool_clients pool) node of
        Some client \<Rightarrow> Ret ((Some client, None), pool)
      | None \<Rightarrow> get_client_locked dial newClient node pool)"

lemma makeConnection_cases:
  "makeConnection dial newClient addr = (None, Some e) \<longleftrightarrow> dial addr = Inl e"
  "makeConnection dial newClient addr = (Some c, None) \<longleftrightarrow> (\<exists>ch. dial addr = Inr ch \<and> c = newClient ch)"
  "makeConnection dial newClient addr \<noteq> (None, None)"
  "makeConnection dial newClient addr \<noteq> (Some c, Some e)"
  by (auto simp: makeConnection_def split: sum.splits)

lemma GetClient_locked: "GetClient dial nc node pool = get_client_locked dial nc node pool"
  by (simp add: GetClient_def get_client_locked_def split: option.split)

text \<open>The outcomes of the locked part, one per return statement.\<close>

lemma get_client_locked_cases:
  assumes "get_client_locked dial nc node pool = Ret ((c, err), pool')"
  obtains (hit) cl where "gm_get (pool_clients pool) node = Some cl" "c = Some cl" "err = None" "pool' = pool"
  | (failed) e where "gm_get (pool_clients pool) node = None" "c = None" "err = Some e" "pool' = pool"
  | (made) cl where "gm_get (pool_clients pool) node = None" "c = Some cl" "err = None"
      "pool' = pool\<lparr>pool_clients := gm_put node cl (pool_clients pool)\<rparr>"
proof (cases "gm_get (pool_clients pool) node")
  case miss: None
  then obtain nodes where nodes: "sm_Nodes (pool_shardMap pool) = Ret nodes"
    using assms by (auto simp: get_client_locked_def go_bind_Ret_iff)
  show ?thesis
  proof (cases "gm_get nodes node")
    case None
    show ?thesis by (rule failed [OF miss]) (use assms miss nodes None in \<open>auto simp: get_client_locked_def\<close>)
  next
    case (Some ni)
    let ?addr = "Address ni @ '':'' @ sint_decimal (Port ni)"
    note E = assms [unfolded get_client_locked_def makeConnection_def, simplified miss nodes, simplified, simplified Some, simplified]
    show ?thesis
    proof (cases "dial ?addr")
      case (Inl e)
      show ?thesis by (rule failed [OF miss]) (use E Inl in auto)
    next
      case (Inr ch)
      show ?thesis by (rule made [OF miss]) (use E Inr in auto)
    qed
  qed
next
  case (Some cl)
  show ?thesis by (rule hit [OF Some]) (use assms Some in \<open>auto simp: get_client_locked_def\<close>)
qed

lemma get_client_locked_Some:
  assumes "get_client_locked dial nc node pool = Ret ((Some cl, err), pool')"
  shows "gm_get (pool_clients pool') node = Some cl"
  using assms by (cases rule: get_client_locked_cases) auto

lemma get_client_locked_other:
  assumes "get_client_locked dial nc node pool = Ret (r, pool')" and "gm_get (pool_clients pool) k = Some cl"
  shows "gm_get (pool_clients pool') k = Some cl"
proof -
  obtain c err where "get_client_locked dial nc node pool = Ret ((c, err), pool')"
    using assms(1) by (cases r) auto
  then show ?thesis using assms(2) by (cases rule: get_client_locked_cases) auto
qed

subsection \<open>The interface\<close>

text \<open>A sequence of calls for several nodes, as the clients of a pool make them.\<close>

fun pool_calls :: "(string \<Rightarrow> 'p \<Rightarrow> ('r \<times> 'p) go) \<Rightarrow> string list \<Rightarrow> 'p \<Rightarrow> 'p go" where
  "pool_calls get [] p = Ret p"
| "pool_calls get (n # ns) p = go_bind (get n p) (\<lambda>(r, p'). pool_calls get ns p')"

text \<open>
  What the users of a \<open>ClientPool\<close> rely on: a call that reports an error leaves the pool as it was
  (errors are not cached); a client that was handed out is handed out again by later calls, also
  when other nodes were asked for in between.
\<close>

locale client_pool =
  fixes get :: "string \<Rightarrow> 'p \<Rightarrow> (('c option \<times> string option) \<times> 'p) go"
  assumes error_not_cached: "get node p = Ret ((oc, Some err), p') \<Longrightarrow> p' = p"
    and cached: "get node p = Ret ((Some c, None), p') \<Longrightarrow> get node p' = Ret ((Some c, None), p')"
    and kept: "get node p = Ret ((Some c, None), p) \<Longrightarrow> get other p = Ret (r, p') \<Longrightarrow>
                 get node p' = Ret ((Some c, None), p')"
begin

lemma calls_keep:
  "get node p = Ret ((Some c, None), p) \<Longrightarrow> pool_calls get ns p = Ret p' \<Longrightarrow> get node p' = Ret ((Some c, None), p')"
  by (induction ns arbitrary: p) (auto simp: go_bind_Ret_iff dest: kept)

lemma calls_same_client:
  assumes "get node p = Ret ((Some c, None), p1)" and "pool_calls get ns p1 = Ret p2"
  shows "get node p2 = Ret ((Some c, None), p2)"
  using calls_keep [OF cached [OF assms(1)] assms(2)] .

end

interpretation grpc_pool: client_pool "GetClient dial nc" for dial nc
proof unfold_locales
  fix node p c err p'
  show "GetClient dial nc node p = Ret ((c, Some err), p') \<Longrightarrow> p' = p"
    by (subst (asm) GetClient_locked, erule get_client_locked_cases) auto
next
  fix node p c p'
  assume "GetClient dial nc node p = Ret ((Some c, None), p')"
  then have "gm_get (pool_clients p') node = Some c"
    using get_client_locked_Some GetClient_locked by metis
  then show "GetClient dial nc node p' = Ret ((Some c, None), p')" by (simp add: GetClient_def)
next
  fix node p c other r p'
  assume *: "GetClient dial nc node p = Ret ((Some c, None), p)" "GetClient dial nc other p = Ret (r, p')"
  then have "gm_get (pool_clients p) node = Some c"
    using get_client_locked_Some GetClient_locked by metis
  then have "gm_get (pool_clients p') node = Some c"
    using *(2) get_client_locked_other GetClient_locked by metis
  then show "GetClient dial nc node p' = Ret ((Some c, None), p')" by (simp add: GetClient_def)
qed


subsection \<open>Concurrent calls of GetClient\<close>

text \<open>
  A thread in \<open>GetClient\<close>: outside, past a miss under the read lock, or returned. Between the read
  lock and the exclusive lock any other thread may run. Every dial may turn out differently (its
  channels are represented by the clients made of them). The
  history \<open>gp_given\<close> records which client was returned for which node.
\<close>

datatype get_pc = GIdle | GMissed string

record 'c gpool =
  gp_pool :: "'c GrpcClientPool"
  gp_pc :: "nat \<Rightarrow> get_pc"
  gp_given :: "(string \<times> 'c) list"

definition gp_init :: "ShardMap \<Rightarrow> 'c gpool \<Rightarrow> bool" where
  "gp_init sm s \<longleftrightarrow> gp_pool s = MakeClientPool sm \<and> gp_pc s = (\<lambda>_. GIdle) \<and> gp_given s = []"

inductive gp_step :: "'c gpool \<Rightarrow> 'c gpool \<Rightarrow> bool" where
  read_hit: "gp_pc s t = GIdle \<Longrightarrow> gm_get (pool_clients (gp_pool s)) node = Some c \<Longrightarrow>
    gp_step s (s\<lparr>gp_given := (node, c) # gp_given s\<rparr>)"
| read_miss: "gp_pc s t = GIdle \<Longrightarrow> gm_get (pool_clients (gp_pool s)) node = None \<Longrightarrow>
    gp_step s (s\<lparr>gp_pc := (gp_pc s)(t := GMissed node)\<rparr>)"
| locked_client: "gp_pc s t = GMissed node \<Longrightarrow>
    get_client_locked (dial :: string \<Rightarrow> string + 'c) nc node (gp_pool s) = Ret ((Some c, err), pool') \<Longrightarrow>
    gp_step s (s\<lparr>gp_pool := pool', gp_pc := (gp_pc s)(t := GIdle), gp_given := (node, c) # gp_given s\<rparr>)"
| locked_error: "gp_pc s t = GMissed node \<Longrightarrow>
    get_client_locked (dial :: string \<Rightarrow> string + 'c) nc node (gp_pool s) = Ret ((None, err), pool') \<Longrightarrow>
    gp_step s (s\<lparr>gp_pool := pool', gp_pc := (gp_pc s)(t := GIdle)\<rparr>)"
| shard_map_update: "gp_step s (s\<lparr>gp_pool := (gp_pool s)\<lparr>pool_shardMap := sm\<rparr>\<rparr>)"

definition gp_inv :: "'c gpool \<Rightarrow> bool" where
  "gp_inv s \<longleftrightarrow> (\<forall>(node, c) \<in> set (gp_given s). gm_get (pool_clients (gp_pool s)) node = Some c)"

lemma gp_invD: "gp_inv s \<Longrightarrow> (node, c) \<in> set (gp_given s) \<Longrightarrow> gm_get (pool_clients (gp_pool s)) node = Some c"
  by (auto simp: gp_inv_def)

lemma gp_inv_init: "gp_init sm s \<Longrightarrow> gp_inv s"
  by (simp add: gp_init_def gp_inv_def)

lemma gp_inv_step: "gp_step s s' \<Longrightarrow> gp_inv s \<Longrightarrow> gp_inv s'"
proof (induction rule: gp_step.induct)
  case (locked_client s t node dial nc c err pool')
  then show ?case
    using get_client_locked_Some [OF locked_client.hyps(2)] get_client_locked_other [OF locked_client.hyps(2)]
    by (auto simp: gp_inv_def)
next
  case (locked_error s t node dial nc err pool')
  then show ?case using get_client_locked_other [OF locked_error.hyps(2)] by (auto simp: gp_inv_def)
qed (auto simp: gp_inv_def)

interpretation gpc: inv_system "gp_init sm" gp_step gp_inv for sm
  by unfold_locales (auto intro: gp_inv_init gp_inv_step)

subsection \<open>The mocked clients of the tests\<close>

record TestClient =
  tc_server :: "KvServerImpl option"
  tc_requestsSent :: u64
  tc_err :: "string option"
  tc_getResponse :: "(string \<times> bool) option"
  tc_setResponse :: "unit option"
  tc_deleteResponse :: "unit option"
  tc_getShardContentsResponse :: "(string \<times> string \<times> int) list option"
  tc_latencyInjection :: "int option"

text \<open>The body the four request methods share: count the request, return the injected error, sleep,
  return the canned response, or ask the server. The result carries the time slept.\<close>

definition client_call :: "'r option \<Rightarrow> (KvServerImpl option \<Rightarrow> 'r go) \<Rightarrow> TestClient \<Rightarrow>
    (int \<times> ('r option \<times> string option) \<times> TestClient) go" where
  "client_call canned serve c =
     (let c' = c\<lparr>tc_requestsSent := tc_requestsSent c + 1\<rparr>
      in case tc_err c of
           Some err \<Rightarrow> Ret (0, (None, Some err), c')
         | None \<Rightarrow>
             (let slept = (case tc_latencyInjection c of None \<Rightarrow> 0 | Some d \<Rightarrow> d)
              in case canned of
                   Some resp \<Rightarrow> Ret (slept, (Some resp, None), c')
                 | None \<Rightarrow> go_bind (serve (tc_server c)) (\<lambda>resp. Ret (slept, (Some resp, None), c'))))"

text \<open>A call on a nil server reads its \<open>nodeName\<close> and panics.\<close>

definition nil_deref :: "(KvServerImpl \<Rightarrow> 'r go) \<Rightarrow> KvServerImpl option \<Rightarrow> 'r go" where
  "nil_deref f server = (case server of None \<Rightarrow> Panic ''nil pointer dereference'' | Some s \<Rightarrow> f s)"

definition tc_Get :: "string \<Rightarrow> TestClient \<Rightarrow> (int \<times> ((string \<times> bool) option \<times> string option) \<times> TestClient) go" where
  "tc_Get key c = client_call (tc_getResponse c) (nil_deref (\<lambda>s. srv_Get s key)) c"

definition tc_Set :: "string \<Rightarrow> string \<Rightarrow> int \<Rightarrow> TestClient \<Rightarrow> (int \<times> (unit option \<times> string option) \<times> TestClient) go" where
  "tc_Set key val ttlMs c = client_call (tc_setResponse c) (nil_deref (\<lambda>s. srv_Set s key val ttlMs)) c"

definition tc_Delete :: "string \<Rightarrow> TestClient \<Rightarrow> (int \<times> (unit option \<times> string option) \<times> TestClient) go" where
  "tc_Delete key c = client_call (tc_deleteResponse c) (nil_deref (\<lambda>s. srv_Delete s key)) c"

definition tc_GetShardContents :: "int \<Rightarrow> TestClient \<Rightarrow>
    (int \<times> ((string \<times> string \<times> int) list option \<times> string option) \<times> TestClient) go" where
  "tc_GetShardContents shard c =
     client_call (tc_getShardContentsResponse c)
       (\<lambda>server. case server of None \<Rightarrow> Panic ''TODO: Part C'' | Some s \<Rightarrow> srv_GetShardContents s shard) c"

definition ClearOverrides :: "TestClient \<Rightarrow> TestClient" where
  "ClearOverrides c = c\<lparr>tc_err := None, tc_getResponse := None, tc_getShardContentsResponse := None,
     tc_latencyInjection := None\<rparr>"

definition OverrideError :: "string option \<Rightarrow> TestClient \<Rightarrow> TestClient" where
  "OverrideError err c = c\<lparr>tc_err := err\<rparr>"

definition OverrideGetResponse :: "string \<Rightarrow> bool \<Rightarrow> TestClient \<Rightarrow> TestClient" where
  "OverrideGetResponse val wasFound c = c\<lparr>tc_getResponse := Some (val, wasFound)\<rparr>"

definition OverrideSetResponse :: "TestClient \<Rightarrow> TestClient" where
  "OverrideSetResponse c = c\<lparr>tc_setResponse := Some ()\<rparr>"

definition OverrideDeleteResponse :: "TestClient \<Rightarrow> TestClient" where
  "OverrideDeleteResponse c = c\<lparr>tc_deleteResponse := Some ()\<rparr>"

definition OverrideGetShardContentsResponse :: "(string \<times> string \<times> int) list option \<Rightarrow> TestClient \<Rightarrow> TestClient" where
  "OverrideGetShardContentsResponse response c = c\<lparr>tc_getShardContentsResponse := response\<rparr>"

definition SetLatencyInjection :: "int \<Rightarrow> TestClient \<Rightarrow> TestClient" where
  "SetLatencyInjection duration c = c\<lparr>tc_latencyInjection := Some duration\<rparr>"

subsection \<open>The pool of mocked clients\<close>

text \<open>A client handed out is the pointer held in the pool for its node: it is named by the node.\<close>

record TestClientPool =
  getClientErrors :: "(string, string option) gomap option"
  tp_nodes :: "(string, TestClient) gomap option"

definition zero_TestClient :: "KvServerImpl option \<Rightarrow> TestClient" where
  "zero_TestClient server = \<lparr>tc_server = server, tc_requestsSent = 0, tc_err = None, tc_getResponse = None,
     tc_setResponse = None, tc_deleteResponse = None, tc_getShardContentsResponse = None, tc_latencyInjection = None\<rparr>"

definition tp_Setup :: "(string, KvServerImpl option) gomap \<Rightarrow> TestClientPool \<Rightarrow> TestClientPool" where
  "tp_Setup nodes cp =
     cp\<lparr>tp_nodes := Some (fold (\<lambda>(name, server). gm_put name (zero_TestClient server)) nodes [])\<rparr>"

definition tp_node :: "string \<Rightarrow> TestClientPool \<Rightarrow> TestClient option" where
  "tp_node name cp = (case tp_nodes cp of None \<Rightarrow> None | Some m \<Rightarrow> gm_get m name)"

text \<open>A name is handed out for the client registered under it. For a name the pool does not know, Go's \<open>GetClient\<close> returns an
  interface value around a nil pointer, which is not itself nil; here this is \<open>None\<close>, as no operation of the package
  can use such a client without a panic.\<close>

definition tp_GetClient :: "string \<Rightarrow> TestClientPool \<Rightarrow> ((string option \<times> string option) \<times> TestClientPool) go" where
  "tp_GetClient name cp =
     (case (case getClientErrors cp of None \<Rightarrow> None | Some m \<Rightarrow> gm_get m name) of
        Some err \<Rightarrow> Ret ((None, err), cp)
      | None \<Rightarrow>
          (if tp_nodes cp = None
           then Ret ((None, Some (''node '' @ name @ '' node setup yet: test cluster may be starting'')), cp)
           else Ret ((map_option (\<lambda>_. name) (tp_node name cp), None), cp)))"

definition OverrideGetClientError :: "string \<Rightarrow> string option \<Rightarrow> TestClientPool \<Rightarrow> TestClientPool" where
  "OverrideGetClientError name err cp =
     cp\<lparr>getClientErrors := Some (gm_put name err (case getClientErrors cp of None \<Rightarrow> [] | Some m \<Rightarrow> m))\<rparr>"

definition ClearGetClientErrors :: "TestClientPool \<Rightarrow> TestClientPool" where
  "ClearGetClientErrors cp = cp\<lparr>getClientErrors := None\<rparr>"

text \<open>The methods of the form \<open>cp.nodes[nodeName].Op(...)\<close>: they panic on a node that is not there.\<close>

definition on_client :: "(TestClient \<Rightarrow> TestClient) \<Rightarrow> string \<Rightarrow> TestClientPool \<Rightarrow> TestClientPool go" where
  "on_client f name cp =
     (case tp_node name cp of
        None \<Rightarrow> Panic ''nil pointer dereference''
      | Some c \<Rightarrow> Ret (cp\<lparr>tp_nodes := map_option (gm_put name (f c)) (tp_nodes cp)\<rparr>))"

definition tp_OverrideRpcError :: "string \<Rightarrow> string option \<Rightarrow> TestClientPool \<Rightarrow> TestClientPool go" where
  "tp_OverrideRpcError name err = on_client (OverrideError err) name"

definition tp_OverrideGetResponse :: "string \<Rightarrow> string \<Rightarrow> bool \<Rightarrow> TestClientPool \<Rightarrow> TestClientPool go" where
  "tp_OverrideGetResponse name val wasFound = on_client (OverrideGetResponse val wasFound) name"

definition tp_OverrideSetResponse :: "string \<Rightarrow> TestClientPool \<Rightarrow> TestClientPool go" where
  "tp_OverrideSetResponse name = on_client OverrideSetResponse name"

definition tp_OverrideDeleteResponse :: "string \<Rightarrow> TestClientPool \<Rightarrow> TestClientPool go" where
  "tp_OverrideDeleteResponse name = on_client OverrideDeleteResponse name"

definition tp_OverrideGetShardContentsResponse ::
  "string \<Rightarrow> (string \<times> string \<times> int) list option \<Rightarrow> TestClientPool \<Rightarrow> TestClientPool go" where
  "tp_OverrideGetShardContentsResponse name response = on_client (OverrideGetShardContentsResponse response) name"

definition AddLatencyInjection :: "string \<Rightarrow> int \<Rightarrow> TestClientPool \<Rightarrow> TestClientPool go" where
  "AddLatencyInjection name duration = on_client (SetLatencyInjection duration) name"

definition ClearRpcOverrides :: "string \<Rightarrow> TestClientPool \<Rightarrow> TestClientPool go" where
  "ClearRpcOverrides name = on_client ClearOverrides name"

definition ClearRequestsSent :: "string \<Rightarrow> TestClientPool \<Rightarrow> TestClientPool go" where
  "ClearRequestsSent name = on_client (\<lambda>c. c\<lparr>tc_requestsSent := 0\<rparr>) name"

definition GetRequestsSent :: "string \<Rightarrow> TestClientPool \<Rightarrow> int go" where
  "GetRequestsSent name cp =
     (case tp_node name cp of None \<Rightarrow> Panic ''nil pointer dereference'' | Some c \<Rightarrow> Ret (sint (tc_requestsSent c)))"

definition ClearServerImpls :: "TestClientPool \<Rightarrow> TestClientPool" where
  "ClearServerImpls cp =
     cp\<lparr>tp_nodes := map_option (map (\<lambda>(name, c). (name, c\<lparr>tc_server := None\<rparr>))) (tp_nodes cp)\<rparr>"

interpretation test_pool: client_pool tp_GetClient
  by unfold_locales (auto simp: tp_GetClient_def split: option.splits if_splits)

subsection \<open>The client\<close>

text \<open>The client's requests are not implemented in this repository: they panic.\<close>

record 'p Kv =
  kv_shardMap :: ShardMap
  kv_clientPool :: 'p

definition MakeKv :: "ShardMap \<Rightarrow> 'p \<Rightarrow> 'p Kv" where
  "MakeKv shardMap clientPool = \<lparr>kv_shardMap = shardMap, kv_clientPool = clientPool\<rparr>"

definition kv_Get :: "string \<Rightarrow> 'p Kv \<Rightarrow> (string \<times> bool \<times> string option) go" where
  "kv_Get key kv = Panic ''TODO: Part B''"

definition kv_Set :: "string \<Rightarrow> string \<Rightarrow> int \<Rightarrow> 'p Kv \<Rightarrow> string option go" where
  "kv_Set key val ttl kv = Panic ''TODO: Part B''"

definition kv_Delete :: "string \<Rightarrow> 'p Kv \<Rightarrow> string option go" where
  "kv_Delete key kv = Panic ''TODO: Part B''"


subsection \<open>Properties\<close>

text \<open>A shard map and a dialler for the witnesses: the dialler accepts the ports of the example.\<close>

definition example_map :: ShardMap where
  "example_map = zero_ShardMap\<lparr>sm_state := Some example_state\<rparr>"

definition dial_ok :: "string \<Rightarrow> string + string" where
  "dial_ok addr = Inr addr"

definition dial_down :: "string \<Rightarrow> string + string" where
  "dial_down addr = Inl ''connection refused''"

lemma GetClient_fresh:
  assumes "sm_Nodes sm = Ret nodes" "gm_get nodes node = Some info"
    "dial (Address info @ '':'' @ sint_decimal (Port info)) = Inr ch"
  shows "GetClient dial nc node (MakeClientPool sm) =
    Ret ((Some (nc ch), None), \<lparr>pool_shardMap = sm, pool_clients = [(node, nc ch)]\<rparr>)"
  using assms by (simp add: GetClient_locked get_client_locked_def MakeClientPool_def makeConnection_def)

lemma example_map_node: "sm_Nodes example_map = Ret (Nodes example_state)"
  "\<exists>info. gm_get (Nodes example_state) ''n1'' = Some info"
  by (auto simp: example_map_def sm_Nodes_def GetState_def example_state_def)

text \<open>
  What \<open>GetClient\<close> answers. For a node that is cached it returns the cached client and does not
  change the pool. Otherwise, for a node the shard map does not know it returns an error naming the
  node; for a known node it dials \<open>address:port\<close>, returns the dial's error, or stores and returns
  the new client. Only in the last case does the pool change, and then only at this node, so an error
  is not remembered.
\<close>

theorem GetClient_correct:
  assumes "sm_Nodes (pool_shardMap pool) = Ret nodes"
  shows "GetClient dial nc node pool =
    (case gm_get (pool_clients pool) node of
       Some client \<Rightarrow> Ret ((Some client, None), pool)
     | None \<Rightarrow>
         (case gm_get nodes node of
            None \<Rightarrow> Ret ((None, Some (''no node named: '' @ node)), pool)
          | Some info \<Rightarrow>
              (case dial (Address info @ '':'' @ sint_decimal (Port info)) of
                 Inl err \<Rightarrow> Ret ((None, Some err), pool)
               | Inr channel \<Rightarrow>
                   Ret ((Some (nc channel), None),
                        pool\<lparr>pool_clients := gm_put node (nc channel) (pool_clients pool)\<rparr>))))"
  using assms
  by (simp add: GetClient_locked get_client_locked_def makeConnection_def split: option.split sum.split)

theorem GetClient_correct_witness:
  "GetClient dial_ok id ''n9'' (MakeClientPool example_map) =
     Ret ((None, Some ''no node named: n9''), MakeClientPool example_map)"
  using GetClient_correct [of "MakeClientPool example_map" "Nodes example_state" dial_ok id "''n9''"]
    example_map_node(1)
  by (simp add: MakeClientPool_def example_state_def)

text \<open>
  A client that \<open>GetClient\<close> has returned for a node is returned again by every later call for
  that node, whatever nodes were asked for in between and whether those calls succeeded, and the
  later call does not change the pool.
\<close>

theorem GetClient_stable:
  assumes "GetClient dial nc node p = Ret ((Some c, None), p1)"
    and "pool_calls (GetClient dial nc) ns p1 = Ret p2"
  shows "GetClient dial nc node p2 = Ret ((Some c, None), p2)"
  by (rule grpc_pool.calls_same_client [OF assms])

theorem GetClient_stable_witness:
  "\<exists>c p1. GetClient dial_ok id ''n1'' (MakeClientPool example_map) = Ret ((Some c, None), p1) \<and>
     GetClient dial_ok id ''n1'' p1 = Ret ((Some c, None), p1)"
proof -
  obtain info where "gm_get (Nodes example_state) ''n1'' = Some info" using example_map_node(2) by blast
  then have "GetClient dial_ok id ''n1'' (MakeClientPool example_map) =
    Ret ((Some (Address info @ '':'' @ sint_decimal (Port info)), None),
      \<lparr>pool_shardMap = example_map, pool_clients = [(''n1'', Address info @ '':'' @ sint_decimal (Port info))]\<rparr>)"
    using GetClient_fresh [OF example_map_node(1), of "''n1''" info dial_ok _ id] by (simp add: dial_ok_def)
  then show ?thesis using GetClient_stable [of dial_ok id "''n1''" _ _ _ "[]"] by fastforce
qed

text \<open>
  C9: whatever the interleaving of threads in \<open>GetClient\<close>, of shard map updates and of dials that
  succeed or fail, all clients ever returned for one node are the same client: the second look under
  the exclusive lock closes the race between the read lock and the exclusive lock.
\<close>

theorem GetClient_one_client_per_node:
  assumes "reach (gp_init sm) gp_step s"
    and "(node, c) \<in> set (gp_given s)" and "(node, c') \<in> set (gp_given s)"
  shows "c = c' \<and> gm_get (pool_clients (gp_pool s)) node = Some c"
  using gp_invD [OF gpc.reach_inv [OF assms(1)] assms(2)] gp_invD [OF gpc.reach_inv [OF assms(1)] assms(3)] by simp

definition gp_start :: "string gpool" where
  "gp_start = \<lparr>gp_pool = MakeClientPool example_map, gp_pc = (\<lambda>_. GIdle), gp_given = []\<rparr>"

text \<open>Both threads miss under the read lock; the first one dials, the second finds its client.\<close>

theorem GetClient_one_client_per_node_witness:
  "\<exists>s (c :: string). reach (gp_init example_map) gp_step s \<and> gp_given s = [(''n1'', c), (''n1'', c)] \<and>
     gm_get (pool_clients (gp_pool s)) ''n1'' = Some c"
proof -
  obtain info where info: "gm_get (Nodes example_state) ''n1'' = Some info" using example_map_node(2) by blast
  let ?c = "Address info @ '':'' @ sint_decimal (Port info)"
  let ?p = "\<lparr>pool_shardMap = example_map, pool_clients = [(''n1'', ?c)]\<rparr>"
  let ?s1 = "gp_start\<lparr>gp_pc := (\<lambda>_. GIdle)(0 := GMissed ''n1'')\<rparr>"
  let ?s2 = "gp_start\<lparr>gp_pc := ((\<lambda>_. GIdle)(0 := GMissed ''n1''))(1 := GMissed ''n1'')\<rparr>"
  let ?s3 = "gp_start\<lparr>gp_pool := ?p, gp_pc := (\<lambda>_. GIdle)(1 := GMissed ''n1''), gp_given := [(''n1'', ?c)]\<rparr>"
  let ?s4 = "gp_start\<lparr>gp_pool := ?p, gp_pc := (\<lambda>_. GIdle), gp_given := [(''n1'', ?c), (''n1'', ?c)]\<rparr>"
  have fresh: "get_client_locked dial_ok id ''n1'' (MakeClientPool example_map) = Ret ((Some ?c, None), ?p)"
    using GetClient_fresh [OF example_map_node(1) info, of dial_ok ?c id]
    by (simp add: dial_ok_def GetClient_locked)
  have again: "get_client_locked dial_down id ''n1'' ?p = Ret ((Some ?c, None), ?p)"
    by (simp add: get_client_locked_def)
  have r0: "reach (gp_init example_map) gp_step gp_start"
    by (rule reach_init) (simp add: gp_init_def gp_start_def)
  have r1: "reach (gp_init example_map) gp_step ?s1"
  proof (rule reach_step [OF r0])
    show "gp_step gp_start ?s1"
      using read_miss [of gp_start 0 "''n1''"] by (simp add: gp_start_def MakeClientPool_def)
  qed
  have r2: "reach (gp_init example_map) gp_step ?s2"
  proof (rule reach_step [OF r1])
    show "gp_step ?s1 ?s2"
      using read_miss [of ?s1 1 "''n1''"] by (simp add: gp_start_def MakeClientPool_def)
  qed
  have r3: "reach (gp_init example_map) gp_step ?s3"
  proof (rule reach_step [OF r2])
    have pc: "(gp_pc ?s2)(0 := GIdle) = (\<lambda>_. GIdle)(1 := GMissed ''n1'')" by (auto simp: fun_eq_iff)
    show "gp_step ?s2 ?s3"
      using locked_client [of ?s2 0 "''n1''" dial_ok id ?c None ?p, unfolded pc] fresh by (simp add: gp_start_def)
  qed
  have r4: "reach (gp_init example_map) gp_step ?s4"
  proof (rule reach_step [OF r3])
    have pc: "(gp_pc ?s3)(1 := GIdle) = (\<lambda>_. GIdle)" by (auto simp: fun_eq_iff)
    show "gp_step ?s3 ?s4"
      using locked_client [of ?s3 1 "''n1''" dial_down id ?c None ?p, unfolded pc] again by (simp add: gp_start_def)
  qed
  have given: "gp_given ?s4 = [(''n1'', ?c), (''n1'', ?c)]" by simp
  then have "gm_get (pool_clients (gp_pool ?s4)) ''n1'' = Some ?c"
    using GetClient_one_client_per_node [OF r4, of "''n1''" ?c ?c] by (metis list.set_intros(1))
  then show ?thesis using r4 given by (intro exI [of _ ?s4] exI [of _ ?c] conjI)
qed

text \<open>
  After \<open>ClearRpcOverrides\<close> a mocked client still answers \<open>Set\<close> and \<open>Delete\<close> with the canned
  responses that were installed before: \<open>ClearOverrides\<close> resets the error, the \<open>Get\<close> and
  \<open>GetShardContents\<close> responses and the latency, but neither \<open>setResponse\<close> nor \<open>deleteResponse\<close>.
\<close>

theorem ClearOverrides_keeps_Set_and_Delete:
  "(\<exists>c'. tc_Set key val ttl (ClearOverrides (OverrideSetResponse c)) = Ret (0, (Some (), None), c')) \<and>
   (\<exists>c'. tc_Delete key (ClearOverrides (OverrideDeleteResponse c)) = Ret (0, (Some (), None), c')) \<and>
   (\<nexists>slept r c'. tc_Get key (ClearOverrides (OverrideGetResponse v b c)) = Ret (slept, r, c'))"
  by (simp add: tc_Set_def tc_Delete_def tc_Get_def client_call_def ClearOverrides_def OverrideSetResponse_def
      OverrideDeleteResponse_def OverrideGetResponse_def nil_deref_def srv_Get_def split: option.split)

text \<open>
  Every request through a mocked client that returns is counted once, whether it ends in an
  injected error or in a response, and changes nothing else of the client; an injected error wins over a
  canned response, and a canned response keeps the request from the server.
\<close>

theorem TestClient_Get_behaviour:
  "(tc_Get key c = Ret (slept, (r, err), c') \<longrightarrow> c' = c\<lparr>tc_requestsSent := tc_requestsSent c + 1\<rparr>) \<and>
   (tc_err c = Some e \<longrightarrow> tc_Get key c = Ret (0, (None, Some e), c\<lparr>tc_requestsSent := tc_requestsSent c + 1\<rparr>)) \<and>
   (tc_err c = None \<and> tc_getResponse c = Some resp \<longrightarrow> (\<exists>slept. tc_Get key c =
     Ret (slept, (Some resp, None), c\<lparr>tc_requestsSent := tc_requestsSent c + 1\<rparr>))) \<and>
   (tc_err c = None \<and> tc_getResponse c = None \<longrightarrow> (\<exists>msg. tc_Get key c = Panic msg))"
  by (cases "tc_err c"; cases "tc_getResponse c"; cases "tc_server c")
    (auto simp: tc_Get_def client_call_def nil_deref_def srv_Get_def Let_def)

theorem TestClient_Get_behaviour_witness:
  "tc_Get ''k'' (OverrideError (Some ''down'') (OverrideGetResponse ''v'' True (zero_TestClient None))) =
     Ret (0, (None, Some ''down''),
       (OverrideError (Some ''down'') (OverrideGetResponse ''v'' True (zero_TestClient None)))\<lparr>tc_requestsSent := 0 + 1\<rparr>)"
proof -
  let ?c = "OverrideError (Some ''down'') (OverrideGetResponse ''v'' True (zero_TestClient None))"
  have "tc_err ?c = Some ''down''" "tc_requestsSent ?c = 0"
    by (simp_all add: OverrideError_def OverrideGetResponse_def zero_TestClient_def)
  then show ?thesis using TestClient_Get_behaviour [where c = ?c and e = "''down''" and key = "''k''"] by metis
qed

end
