(* ===== verification/Stress_Report.thy ===== *)
theory Stress_Report
  imports Stress_Run File_Shard_Map Client_Pool
begin

text \<open>
  The stress tester as a whole (\<open>lab4/cmd/stress/tester.go\<close>): the requests of \<open>Stress_Tester\<close> together with the counters
  that \<open>main\<close> prints in the end. Each completion of a request is one step that also counts it: a \<open>Set\<close> with or without an
  error, a \<open>Get\<close> that failed, or a \<open>Get\<close> whose answer is checked.
\<close>

subsection \<open>Start-up\<close>

record stress_flags_cmd =
  fl_shardMapFile :: string
  fl_getQps :: int
  fl_setQps :: int
  fl_qpsBurst :: int
  fl_duration_ms :: int
  fl_timeout_ms :: int
  fl_maxPendingRequests :: int
  fl_numKeys :: int
  fl_ttl_ms :: int

definition default_stress_flags :: stress_flags_cmd where
  "default_stress_flags =
     \<lparr>fl_shardMapFile = '''', fl_getQps = 100, fl_setQps = 30, fl_qpsBurst = 20, fl_duration_ms = 60000, fl_timeout_ms = 1000,
      fl_maxPendingRequests = 100, fl_numKeys = 1000, fl_ttl_ms = 2000\<rparr>"

record 'c stressTester =
  st_kv :: "'c Kv"
  st_run :: stress_run
  st_keys :: "string list"
  st_cc :: ConsistencyChecker

text \<open>The semaphore and the counters are part of \<open>st_run\<close>. A semaphore of negative size never lets anyone in, as one of size
  zero, and a loop up to a negative number makes no keys.\<close>

definition makeStressTester :: "stress_flags_cmd \<Rightarrow> rng \<Rightarrow> 'c Kv \<Rightarrow> 'c stressTester" where
  "makeStressTester fl rng kv =
     \<lparr>st_kv = kv, st_run = (run_start (nat (fl_maxPendingRequests fl)))\<lparr>sr_wg := 0\<rparr>,
      st_keys = randomKeys (nat (fl_numKeys fl)) 10 rng, st_cc = MakeConsistencyChecker\<rparr>"

text \<open>\<open>main\<close> up to the start of the two loops: it adds them to the wait group.\<close>

definition stress_main :: "fs_env \<Rightarrow> reading \<Rightarrow> stress_flags_cmd \<Rightarrow> rng \<Rightarrow> 'c GrpcClientPool stressTester go" where
  "stress_main env readFile fl rng =
     (case WatchShardMapFile env readFile (fl_shardMapFile fl) of
        Inl err \<Rightarrow> Fatal err
      | Inr fileSm \<Rightarrow>
          (let clientPool = MakeClientPool (fsm_ShardMap fileSm);
               client = MakeKv (fsm_ShardMap fileSm) clientPool;
               tester = makeStressTester fl rng client
           in Ret (tester\<lparr>st_run := (st_run tester)\<lparr>sr_wg := sr_wg (st_run tester) + 2\<rparr>\<rparr>)))"

text \<open>When the shard map file can be loaded, the two loops start as \<open>Stress_Run\<close> assumes, with as many keys as asked for.\<close>

lemma length_randomKeys: "length (randomKeys n len rng) = n"
  by (induction n arbitrary: rng) (simp_all add: case_prod_beta Let_def)

theorem stress_main_starts:
  assumes "WatchShardMapFile env readFile (fl_shardMapFile fl) = Inr fileSm"
  shows "\<exists>tester :: 'c GrpcClientPool stressTester. stress_main env readFile fl rng = Ret tester \<and>
    st_run tester = run_start (nat (fl_maxPendingRequests fl)) \<and> length (st_keys tester) = nat (fl_numKeys fl) \<and>
    st_kv tester = MakeKv (fsm_ShardMap fileSm) (MakeClientPool (fsm_ShardMap fileSm)) \<and> st_cc tester = MakeConsistencyChecker"
  using assms by (simp add: stress_main_def makeStressTester_def run_start_def length_randomKeys Let_def)

subsection \<open>Requests and counters together\<close>

record stress_state =
  ss_world :: world
  ss_count :: stress_counters
  ss_done :: nat

inductive stress_step :: "checker_flags \<Rightarrow> int \<Rightarrow> stress_state \<Rightarrow> stress_state \<Rightarrow> bool"
  for fl :: checker_flags and ttl :: int where
  ss_progress: "wstep fl ttl (ss_world s) w \<Longrightarrow> length (w_sets (ss_world s)) \<le> length (w_sets w) \<Longrightarrow>
      length (w_gets (ss_world s)) \<le> length (w_gets w) \<Longrightarrow>
    stress_step fl ttl s (s\<lparr>ss_world := w\<rparr>)"
| ss_set: "w_sets (ss_world s) = ps @ p # ps' \<Longrightarrow> (err = None \<longrightarrow> ps_effect p \<noteq> None) \<Longrightarrow>
    (\<forall>te. ps_effect p = Some te \<longrightarrow> te \<le> fin) \<Longrightarrow> fin \<le> w_now (ss_world s) \<Longrightarrow>
    CompleteWrite fl (w_now (ss_world s)) (ps_key p) (ps_value p) err (ps_version p) (ps_start p + ttl) (fin + ttl)
      (w_cc (ss_world s)) = Ret cc \<Longrightarrow>
    stress_step fl ttl s (s\<lparr>ss_world := (ss_world s)\<lparr>w_cc := cc, w_sets := ps @ ps',
        w_failed := (if err = None then w_failed (ss_world s) else insert (ps_key p) (w_failed (ss_world s)))\<rparr>,
      ss_count := count_set err (ss_count s), ss_done := ss_done s + 1\<rparr>)"
| ss_get: "w_gets (ss_world s) = gs @ g # gs' \<Longrightarrow> pg_result g = Some (res, t) \<Longrightarrow> check_get fl (ss_world s) g res = (verdict, cc) \<Longrightarrow>
    stress_step fl ttl s (s\<lparr>ss_world := (ss_world s)\<lparr>w_gets := gs @ gs', w_cc := cc\<rparr>,
      ss_count := count_get allow None verdict (ss_count s), ss_done := ss_done s + 1\<rparr>)"
| ss_get_error: "w_gets (ss_world s) = gs @ g # gs' \<Longrightarrow>
    stress_step fl ttl s (s\<lparr>ss_world := (ss_world s)\<lparr>w_gets := gs @ gs'\<rparr>,
      ss_count := count_get allow (Some err) None (ss_count s), ss_done := ss_done s + 1\<rparr>)"

definition stress_init :: "stress_state \<Rightarrow> bool" where
  "stress_init s \<longleftrightarrow> init_world (ss_world s) \<and> ss_count s = no_counts \<and> ss_done s = 0"

text \<open>The line that \<open>main\<close> prints last.\<close>

definition printed :: "stress_state \<Rightarrow> (u64 \<times> u64) \<times> (u64 \<times> u64) \<times> (u64 \<times> u64) \<times> u64" where
  "printed s = summary (ss_count s) (ChecksRun (w_cc (ss_world s)))"

subsection \<open>What the counters mean\<close>

text \<open>The numbers behind the words: gets, failed gets, sets, failed sets, checks and reported inconsistencies.\<close>

definition tallies :: "nat \<Rightarrow> nat \<Rightarrow> nat \<Rightarrow> nat \<Rightarrow> nat \<Rightarrow> nat \<Rightarrow> stress_state \<Rightarrow> bool" where
  "tallies ng ge ns se nc ic s \<longleftrightarrow>
     gets (ss_count s) = of_nat ng \<and> getErrs (ss_count s) = of_nat ge \<and> sets (ss_count s) = of_nat ns \<and> setErrs (ss_count s) = of_nat se \<and>
     ChecksRun (w_cc (ss_world s)) = of_nat nc \<and> inconsistencies (ss_count s) = of_nat ic \<and>
     ss_done s = ng + ns \<and> ge + nc \<le> ng \<and> se \<le> ns \<and> ic \<le> nc \<and> (se = 0 \<longleftrightarrow> w_failed (ss_world s) = {}) \<and> (se = 0 \<longrightarrow> ic = 0)"

definition stress_inv :: "int \<Rightarrow> stress_state \<Rightarrow> bool" where
  "stress_inv ttl s \<longleftrightarrow> winv ttl (ss_world s) \<and> (\<exists>ng ge ns se nc ic. tallies ng ge ns se nc ic s)"

lemma ChecksRun_BeginWrite: "BeginWrite fl k cc = (iv, cc') \<Longrightarrow> ChecksRun cc' = ChecksRun cc"
  by (auto simp: BeginWrite_def Let_def split: if_splits)

lemma ChecksRun_CompleteWrite: "CompleteWrite fl now k v err iv e1 e2 cc = Ret cc' \<Longrightarrow> ChecksRun cc' = ChecksRun cc"
  by (auto simp: CompleteWrite_def Let_def split: if_splits)

lemma ChecksRun_check_get:
  assumes "check_get fl w g res = (verdict, cc)"
  shows "ChecksRun cc = ChecksRun (w_cc w) + 1 \<or> (ChecksRun cc = ChecksRun (w_cc w) \<and> verdict = None)"
  using assms by (auto simp: check_get_def CheckReadCorrect_def Let_def split: get_result.splits if_splits option.splits)

lemma progress_same:
  assumes "wstep fl ttl w w'" "length (w_sets w) \<le> length (w_sets w')" "length (w_gets w) \<le> length (w_gets w')"
  shows "ChecksRun (w_cc w') = ChecksRun (w_cc w) \<and> w_failed w' = w_failed w"
  using assms by (cases rule: wstep.cases) (auto dest: ChecksRun_BeginWrite)

lemma tallies_progress:
  assumes "tallies ng ge ns se nc ic s" "wstep fl ttl (ss_world s) w" "length (w_sets (ss_world s)) \<le> length (w_sets w)"
    "length (w_gets (ss_world s)) \<le> length (w_gets w)"
  shows "tallies ng ge ns se nc ic (s\<lparr>ss_world := w\<rparr>)"
  using assms(1) progress_same [OF assms(2-4)] by (simp add: tallies_def)

lemma tallies_set:
  assumes "tallies ng ge ns se nc ic s" "ChecksRun cc = ChecksRun (w_cc (ss_world s))"
  shows "\<exists>se'. tallies ng ge (ns + 1) se' nc ic (s\<lparr>ss_world := (ss_world s)\<lparr>w_cc := cc, w_sets := ps,
      w_failed := (if err = None then w_failed (ss_world s) else insert k (w_failed (ss_world s)))\<rparr>,
    ss_count := count_set err (ss_count s), ss_done := ss_done s + 1\<rparr>)"
  using assms by (intro exI [of _ "se + (if err = None then 0 else 1)"]) (auto simp: tallies_def count_set_def Let_def)

lemma tallies_get:
  assumes "tallies ng ge ns se nc ic s" "check_get fl (ss_world s) g res = (verdict, cc)" "w_failed (ss_world s) = {} \<longrightarrow> verdict = None"
  shows "\<exists>nc' ic'. tallies (ng + 1) ge ns se nc' ic' (s\<lparr>ss_world := (ss_world s)\<lparr>w_gets := gs, w_cc := cc\<rparr>,
    ss_count := count_get allow None verdict (ss_count s), ss_done := ss_done s + 1\<rparr>)"
  using ChecksRun_check_get [OF assms(2)]
proof
  assume "ChecksRun cc = ChecksRun (w_cc (ss_world s)) + 1"
  then show ?thesis using assms(1,3)
    by (intro exI [of _ "nc + 1"] exI [of _ "ic + (if verdict \<noteq> None \<and> allow then 1 else 0)"]) (auto simp: tallies_def count_get_def Let_def)
next
  assume "ChecksRun cc = ChecksRun (w_cc (ss_world s)) \<and> verdict = None"
  then show ?thesis using assms(1) by (intro exI [of _ nc] exI [of _ ic]) (auto simp: tallies_def count_get_def Let_def)
qed

lemma tallies_get_error:
  assumes "tallies ng ge ns se nc ic s"
  shows "tallies (ng + 1) (ge + 1) ns se nc ic (s\<lparr>ss_world := (ss_world s)\<lparr>w_gets := gs\<rparr>,
    ss_count := count_get allow (Some err) None (ss_count s), ss_done := ss_done s + 1\<rparr>)"
  using assms by (simp add: tallies_def count_get_def)

lemma winv_get_dropped:
  assumes "winv ttl w" "w_gets w = gs @ g # gs'"
  shows "winv ttl (w\<lparr>w_gets := gs @ gs'\<rparr>)"
proof -
  have g: "g \<in> set (w_gets w)" using assms(2) by simp
  have "winv ttl (w\<lparr>w_gets := gs @ gs', w_cc := w_cc w\<rparr>)"
    by (rule winv_gets_change [where g = g, OF assms(1)]) (use assms g in \<open>auto simp: winv_def inv_version_def inv_time_def inv_gets_def\<close>)
  then show ?thesis by simp
qed

lemma stress_inv_step:
  assumes inv: "stress_inv ttl s" and step: "stress_step fl ttl s s'" and fl: "stress_flags fl"
  shows "stress_inv ttl s'"
proof -
  have w: "winv ttl (ss_world s)" using inv by (simp add: stress_inv_def)
  have flags: "checkCorrectness fl" "0 \<le> ttlCheckBuffer fl" using fl by (simp_all add: stress_flags_def)
  obtain ng ge ns se nc ic where t: "tallies ng ge ns se nc ic s" using inv by (auto simp: stress_inv_def)
  from step show ?thesis
  proof cases
    case (ss_progress w1)
    then show ?thesis using winv_step [OF ss_progress(2) w flags] tallies_progress [OF t ss_progress(2-4)]
      unfolding stress_inv_def ss_progress(1) by (simp, blast)
  next
    case (ss_set ps p ps' err fin cc)
    have "winv ttl (ss_world s')" using winv_step [OF wstep.set_complete [OF ss_set(2-6)] w flags] ss_set(1) by simp
    then show ?thesis using tallies_set [OF t ChecksRun_CompleteWrite [OF ss_set(6)]] unfolding stress_inv_def ss_set(1) by blast
  next
    case (ss_get gs g gs' res tm verdict cc allow)
    have "winv ttl (ss_world s')" using winv_step [OF wstep.get_check [OF ss_get(2-4)] w flags] ss_get(1) by simp
    moreover have "w_failed (ss_world s) = {} \<longrightarrow> verdict = None"
      using check_get_passes [OF w _ ss_get(3), of fl] ss_get(2,4) by auto
    ultimately show ?thesis using tallies_get [OF t ss_get(4)] unfolding stress_inv_def ss_get(1) by blast
  next
    case (ss_get_error gs g gs' allow err)
    then show ?thesis using winv_get_dropped [OF w ss_get_error(2)] tallies_get_error [OF t] unfolding stress_inv_def by (simp, blast)
  qed
qed

lemma stress_inv_init: "stress_init s \<Longrightarrow> stress_inv ttl s"
proof -
  assume s: "stress_init s"
  then have "tallies 0 0 0 0 0 0 s" by (simp add: stress_init_def init_world_def tallies_def no_counts_def MakeConsistencyChecker_def)
  then show ?thesis using s winv_init unfolding stress_inv_def stress_init_def by blast
qed

interpretation report: inv_system "\<lambda>s. stress_init s \<and> stress_flags fl" "\<lambda>s s'. stress_step fl ttl s s' \<and> stress_flags fl" "stress_inv ttl"
  for fl ttl
  by unfold_locales (auto intro: stress_inv_init stress_inv_step)

abbreviation report_reach :: "checker_flags \<Rightarrow> int \<Rightarrow> stress_state \<Rightarrow> bool" where
  "report_reach fl ttl \<equiv> reach (\<lambda>s. stress_init s \<and> stress_flags fl) (\<lambda>s s'. stress_step fl ttl s s' \<and> stress_flags fl)"

subsection \<open>Properties\<close>

text \<open>C13: The report of the stress tester on a correct store. In any interleaving of fewer than \<open>2 ^ 64\<close> completed requests against a store
  in which every \<open>Set\<close> takes effect at one instant: none of the printed differences underflows, at most one check is counted
  per successful \<open>Get\<close>, and when no \<open>Set\<close> has failed, the report says that every checked response was correct.\<close>

theorem stress_report_sound:
  assumes "report_reach fl ttl s" "ss_done s < 2 ^ 64"
    and "printed s = ((okGets, allGets), (okSets, allSets), (okChecks, allChecks), requests)"
  shows "unat okGets + unat (getErrs (ss_count s)) = unat allGets \<and> unat okSets + unat (setErrs (ss_count s)) = unat allSets \<and>
    unat okChecks + unat (inconsistencies (ss_count s)) = unat allChecks \<and> unat allChecks \<le> unat okGets \<and>
    unat requests = ss_done s \<and> unat allGets + unat allSets = ss_done s \<and>
    (setErrs (ss_count s) = 0 \<longrightarrow> okSets = allSets \<and> okChecks = allChecks)"
proof -
  obtain ng ge ns se nc ic where t: "tallies ng ge ns se nc ic s"
    using report.reach_inv [OF assms(1)] by (auto simp: stress_inv_def)
  have small: "unat (of_nat k :: u64) = k" if "k \<le> ss_done s" for k using that assms(2) by (simp add: unat_of_nat)
  have diff: "unat (of_nat a - of_nat b :: u64) = a - b" if "b \<le> a" "a \<le> ss_done s" for a b
    unfolding of_nat_diff [OF that(1), symmetric] by (rule small) (use that in simp)
  have eq: "okGets = of_nat ng - of_nat ge" "allGets = of_nat ng" "okSets = of_nat ns - of_nat se" "allSets = of_nat ns"
    "okChecks = of_nat nc - of_nat ic" "allChecks = of_nat nc" "requests = of_nat (ng + ns)"
    using assms(3) t by (auto simp: printed_def summary_def tallies_def)
  have le: "ge + nc \<le> ng" "se \<le> ns" "ic \<le> nc" "ss_done s = ng + ns" "se = 0 \<longrightarrow> ic = 0" using t by (auto simp: tallies_def)
  have c: "unat (getErrs (ss_count s)) = ge" "unat (setErrs (ss_count s)) = se" "unat (inconsistencies (ss_count s)) = ic"
    using t le small [of ge] small [of se] small [of ic] by (simp_all add: tallies_def)
  have words: "unat okGets = ng - ge" "unat okSets = ns - se" "unat okChecks = nc - ic" "unat allGets = ng" "unat allSets = ns"
    "unat allChecks = nc" "unat requests = ng + ns"
    unfolding eq using le small [of ng] small [of ns] small [of nc] small [of "ng + ns"] diff [of ge ng] diff [of se ns] diff [of ic nc]
    by simp_all
  have "okSets = allSets \<and> okChecks = allChecks" if "setErrs (ss_count s) = 0"
    using that c(2) le(5) by (simp add: eq)
  then show ?thesis using le unfolding c words by simp
qed

text \<open>One \<open>Get\<close> of a key that was never set: begun, read and checked.\<close>

definition one_get :: "pending_get list \<Rightarrow> u64 \<Rightarrow> stress_state" where
  "one_get pending checks =
     \<lparr>ss_world = (example_world (MakeConsistencyChecker\<lparr>ChecksRun := checks\<rparr>) [] pending None {})\<lparr>w_used := {}\<rparr>,
      ss_count = no_counts\<lparr>gets := checks\<rparr>, ss_done = unat checks\<rparr>"

lemma one_get_reach: "report_reach example_flags 5 (one_get [] 1)"
proof -
  let ?R = "report_reach example_flags 5"
  let ?g = "\<lambda>res. \<lparr>pg_key = ''k'', pg_version = 0, pg_pending = False, pg_start = 0, pg_result = res\<rparr>"
  have step: "?R s \<Longrightarrow> stress_step example_flags 5 s s' \<Longrightarrow> ?R s'" for s s' by (erule reach_step) simp
  have "?R (one_get [] 0)"
    by (rule reach_init) (simp add: stress_init_def one_get_def init_world_def example_world_def MakeConsistencyChecker_def no_counts_def)
  moreover have "stress_step example_flags 5 (one_get [] 0) (one_get [?g None] 0)"
    using ss_progress [of example_flags 5 "one_get [] 0" "ss_world (one_get [?g None] 0)"]
      wstep.get_begin [of 0 "ss_world (one_get [] 0)" example_flags "''k''" 0 False 5]
    by (simp add: one_get_def example_defs BeginRead_def gm_getz_def)
  moreover have "stress_step example_flags 5 (one_get [?g None] 0) (one_get [?g (Some (NotFound, 0))] 0)"
    using ss_progress [of example_flags 5 "one_get [?g None] 0" "ss_world (one_get [?g (Some (NotFound, 0))] 0)"]
      wstep.get_read [of "ss_world (one_get [?g None] 0)" "[]" "?g None" "[]" example_flags 5]
    by (simp add: one_get_def example_defs store_read_def)
  moreover have "stress_step example_flags 5 (one_get [?g (Some (NotFound, 0))] 0) (one_get [] 1)"
    using ss_get [of "one_get [?g (Some (NotFound, 0))] 0" "[]" "?g (Some (NotFound, 0))" "[]" NotFound 0 example_flags None
        "MakeConsistencyChecker\<lparr>ChecksRun := 1\<rparr>" 5 False]
    by (simp add: one_get_def example_defs check_get_def CheckReadCorrect_def gm_getz_def Let_def count_get_def no_counts_def)
  ultimately show ?thesis using step by blast
qed

theorem stress_report_sound_witness:
  "report_reach example_flags 5 (one_get [] 1) \<and> printed (one_get [] 1) = ((1, 1), (0, 0), (1, 1), 1)"
proof -
  obtain a b c d e f n where p: "printed (one_get [] 1) = ((a, b), (c, d), (e, f), n)" by (cases "printed (one_get [] 1)") auto
  have "ss_done (one_get [] 1) < 2 ^ 64" "setErrs (ss_count (one_get [] 1)) = 0" by (simp_all add: one_get_def no_counts_def)
  with stress_report_sound [OF one_get_reach _ p] have "e = f" "c = d" by auto
  then show ?thesis using p one_get_reach
    by (auto simp: printed_def summary_def one_get_def no_counts_def example_world_def MakeConsistencyChecker_def)
qed

end
