(* ===== verification/Shard_Map_Delivery.thy ===== *)
theory Shard_Map_Delivery
  imports Shard_Map_Conc
begin

text \<open>
  Why a server may rely on the signals of \<open>ShardMap.Update\<close> (\<open>lab4/kv/shardmap.go\<close>, \<open>lab4/kv/server.go\<close>): the runs of \<open>Shard_Map_Conc\<close> with a
  history. States are numbered in the order of the swaps; \<open>d_mine t\<close> is the number that thread \<open>t\<close> put in place in its
  current \<open>Update\<close>, and \<open>d_seen ch\<close> the number in force when the loop of channel \<open>ch\<close> last received, that is the oldest state
  its \<open>handleShardMapUpdate\<close> can read.
\<close>

record delivery =
  d_conc :: conc
  d_version :: nat
  d_mine :: "nat \<Rightarrow> nat"
  d_seen :: "chan_id \<Rightarrow> nat"

definition delivery_init :: "delivery \<Rightarrow> bool" where
  "delivery_init d \<longleftrightarrow> conc_init (d_conc d) \<and> d_version d = 0 \<and> d_mine d = (\<lambda>_. 0) \<and> d_seen d = (\<lambda>_. 0)"

text \<open>Steps of \<open>cstep\<close> that neither swap the state nor deliver a signal.\<close>

definition silent :: "conc \<Rightarrow> conc \<Rightarrow> bool" where
  "silent s s' \<longleftrightarrow> cstep s s' \<and> (\<forall>t. c_upd s' t = USwapped \<longrightarrow> c_upd s t = USwapped) \<and>
     (\<forall>t todo don. c_upd s' t = USending todo don \<longrightarrow> (don = [] \<and> c_upd s t = USwapped) \<or> c_upd s t = USending todo don)"

inductive dstep :: "delivery \<Rightarrow> delivery \<Rightarrow> bool" where
  d_swap: "c_upd (d_conc d) t = UIdle \<Longrightarrow>
    dstep d (d\<lparr>d_conc := (d_conc d)\<lparr>c_sm := sm_Swap st (c_sm (d_conc d)), c_upd := (c_upd (d_conc d))(t := USwapped)\<rparr>,
      d_version := d_version d + 1, d_mine := (d_mine d)(t := d_version d + 1)\<rparr>)"
| d_send: "c_upd (d_conc d) t = USending (ch # todo) don \<Longrightarrow> ch \<notin> c_closed (d_conc d) \<Longrightarrow> ch \<in> c_loops (d_conc d) \<Longrightarrow>
    dstep d (d\<lparr>d_conc := (d_conc d)\<lparr>c_upd := (c_upd (d_conc d))(t := USending todo (don @ [ch]))\<rparr>,
      d_seen := (d_seen d)(ch := d_version d)\<rparr>)"
| d_silent: "silent (d_conc d) s' \<Longrightarrow> dstep d (d\<lparr>d_conc := s'\<rparr>)"

inductive_cases dstepE: "dstep d d'"

text \<open>The history only observes: each run of the shard map has one, and each step of it is a step of the shard map.\<close>

lemma dstep_conc: "dstep d d' \<Longrightarrow> cstep (d_conc d) (d_conc d')"
  by (erule dstepE) (auto simp: silent_def intro: cstep.intros)

lemma cstep_kinds:
  assumes "cstep s s'"
  obtains (swap) t st where "c_upd s t = UIdle" "s' = s\<lparr>c_sm := sm_Swap st (c_sm s), c_upd := (c_upd s)(t := USwapped)\<rparr>"
  | (send) t ch todo don where "c_upd s t = USending (ch # todo) don" "ch \<notin> c_closed s" "ch \<in> c_loops s"
      "s' = s\<lparr>c_upd := (c_upd s)(t := USending todo (don @ [ch]))\<rparr>"
  | (quiet) "silent s s'"
  using assms
proof cases
  case (upd_swap t st)
  then show thesis using swap by blast
next
  case (upd_send t ch todo don)
  then show thesis using send by blast
next
  case (upd_rlock t order)
  then show thesis using quiet assms by (simp add: silent_def)
next
  case (upd_runlock t don)
  then show thesis using quiet assms by (simp add: silent_def)
qed (use quiet assms in \<open>simp_all add: silent_def\<close>)

lemma cstep_history:
  assumes "cstep (d_conc d) s'"
  shows "\<exists>d'. dstep d d' \<and> d_conc d' = s'"
  using assms
proof (cases rule: cstep_kinds)
  case (swap t st)
  then show ?thesis using d_swap [of d t st] by force
next
  case (send t ch todo don)
  then show ?thesis using d_send [of d t ch todo don] by force
next
  case quiet
  then show ?thesis using d_silent [of d s'] by force
qed

interpretation history: simulation conc_init cstep delivery_init dstep "\<lambda>s d. d_conc d = s"
proof
  fix s assume "conc_init s"
  then have "delivery_init \<lparr>d_conc = s, d_version = 0, d_mine = (\<lambda>_. 0), d_seen = (\<lambda>_. 0)\<rparr>" by (simp add: delivery_init_def)
  then show "\<exists>d. delivery_init d \<and> d_conc d = s" by force
qed (use cstep_history in blast)

lemma history_conc: "reach delivery_init dstep d \<Longrightarrow> reach conc_init cstep (d_conc d)"
proof (induction rule: reach.induct)
  case (reach_init d)
  then show ?case by (simp add: delivery_init_def reach.reach_init)
next
  case (reach_step d d')
  then show ?case using dstep_conc reach.reach_step by metis
qed

subsection \<open>The invariant\<close>

definition dinv :: "delivery \<Rightarrow> bool" where
  "dinv d \<longleftrightarrow> (\<forall>t. d_mine d t \<le> d_version d) \<and> (\<forall>ch. d_seen d ch \<le> d_version d) \<and>
     (\<forall>t todo don. c_upd (d_conc d) t = USending todo don \<longrightarrow> (\<forall>ch \<in> set don. d_mine d t \<le> d_seen d ch))"

lemma dinvD: "dinv d \<Longrightarrow> c_upd (d_conc d) t = USending todo don \<Longrightarrow> ch \<in> set don \<Longrightarrow> d_mine d t \<le> d_seen d ch"
  by (simp add: dinv_def)

lemma dinv_step: "dinv d \<Longrightarrow> dstep d d' \<Longrightarrow> dinv d'"
proof -
  assume inv: "dinv d" and step: "dstep d d'"
  have le: "d_mine d t \<le> d_version d" "d_seen d ch \<le> d_version d" for t ch using inv by (simp_all add: dinv_def)
  from step show ?thesis
  proof cases
    case (d_swap t st)
    then show ?thesis using le dinvD [OF inv] by (auto simp: dinv_def le_SucI)
  next
    case (d_send t ch todo don)
    then show ?thesis using le dinvD [OF inv] by (auto simp: dinv_def split: if_splits)
  next
    case (d_silent s')
    have "\<forall>ch \<in> set don. d_mine d t \<le> d_seen d ch" if "c_upd s' t = USending todo don" for t todo don
      using d_silent(2) that dinvD [OF inv] unfolding silent_def by (metis empty_iff list.set(1))
    then show ?thesis using le d_silent(1) by (simp add: dinv_def)
  qed
qed

interpretation deliveries: inv_system delivery_init dstep dinv
  by unfold_locales (simp add: delivery_init_def dinv_def conc_init_def, rule dinv_step)

subsection \<open>Properties\<close>

text \<open>C15: No lost update. Take any history of the shard map, that is any interleaving of updates, new listeners, closings and shutdowns (a
  history neither adds nor forbids a step). Whenever an \<open>Update\<close> has worked through its channels and is about to return, the loop of
  every registered listener has received at a moment when the state in place was the one of this update or a later one, so a
  handler that reads the shard map on each signal never stays behind.\<close>

theorem Update_reaches_every_listener:
  assumes "reach delivery_init dstep d"
  shows "(c_upd (d_conc d) t = USending [] don \<and> ch \<in> set (chans (d_conc d)) \<longrightarrow> d_mine d t \<le> d_seen d ch \<and> d_seen d ch \<le> d_version d) \<and>
    (\<forall>s'. cstep (d_conc d) s' \<longleftrightarrow> (\<exists>d'. dstep d d' \<and> d_conc d' = s'))"
proof -
  have inv: "dinv d" by (rule deliveries.reach_inv [OF assms])
  have "d_mine d t \<le> d_seen d ch \<and> d_seen d ch \<le> d_version d" if sent: "c_upd (d_conc d) t = USending [] don" "ch \<in> set (chans (d_conc d))"
  proof -
    have "mset ([] @ don) = mset (chans (d_conc d))" by (rule sent_order(1) [OF smc.reach_inv [OF history_conc [OF assms]] sent(1)])
    then have "ch \<in> set don" using sent(2) by (metis append_Nil mset_eq_setD)
    then show ?thesis using dinvD [OF inv sent(1)] inv by (simp add: dinv_def)
  qed
  then show ?thesis using cstep_history [of d] dstep_conc [of d] by blast
qed

text \<open>One listener, one update that has signalled it.\<close>

theorem Update_reaches_every_listener_witness:
  "\<exists>d :: delivery. reach delivery_init dstep d \<and> c_upd (d_conc d) 0 = USending [] [0] \<and> 0 \<in> set (chans (d_conc d)) \<and>
     d_mine d 0 \<le> d_seen d 0"
proof -
  obtain d where d: "reach delivery_init dstep d" "d_conc d = conc_sending [] [0]" using history.reach_refines [OF conc_sent_reach] by blast
  have pc: "c_upd (d_conc d) 0 = USending [] [0]" "0 \<in> set (chans (d_conc d))"
    unfolding d(2) by (simp_all add: conc_sending_def conc_listening_def sm_Swap_def MakeListener_def Let_def zero_ShardMap_def)
  then show ?thesis using Update_reaches_every_listener [OF d(1), of 0 "[0]" 0] d(1) by blast
qed

end
