(* ===== verification/Test_Clusters.thy ===== *)
theory Test_Clusters
  imports Test_Setup Client_Pool
begin

text \<open>
  The cluster that the tests of the key-value lab run on (\<open>lab4/kv/test/test_setup.go\<close>): the
  constructors of shard maps, the construction of a cluster with its servers, listeners and mocked
  clients, and the forwarding methods. The clusters of the random constructor depend on a loop that
  draws until it has enough different nodes; it ends for every fair source of draws.
\<close>

subsection \<open>Shard maps of the tests\<close>

definition node_name :: "nat \<Rightarrow> string" where
  "node_name i = ''n'' @ decimal i"

definition makeNodeInfos :: "nat \<Rightarrow> (string, NodeInfo) gomap" where
  "makeNodeInfos n =
     fold (\<lambda>i. gm_put (node_name i) \<lparr>Address = [], Port = of_nat i\<rparr>) [1..<Suc n] []"

definition MakeBasicOneShard :: ShardMapState where
  "MakeBasicOneShard = \<lparr>Nodes = makeNodeInfos 1, ShardsToNodes = [(1, [''n1''])], NumShards = 1\<rparr>"

definition MakeMultiShardSingleNode :: ShardMapState where
  "MakeMultiShardSingleNode = \<lparr>Nodes = makeNodeInfos 1,
     ShardsToNodes = [(1, [''n1'']), (2, [''n1'']), (3, [''n1'']), (4, [''n1'']), (5, [''n1''])], NumShards = 5\<rparr>"

definition MakeNoShardAssigned :: ShardMapState where
  "MakeNoShardAssigned = \<lparr>Nodes = makeNodeInfos 1, ShardsToNodes = [], NumShards = 1\<rparr>"

definition MakeSingleNodeHalfShardsAssigned :: ShardMapState where
  "MakeSingleNodeHalfShardsAssigned = \<lparr>Nodes = makeNodeInfos 1,
     ShardsToNodes = [(1, [''n1'']), (2, [''n1'']), (3, [''n1'']), (4, [''n1'']), (5, []), (6, []), (7, []), (8, [])],
     NumShards = 8\<rparr>"

definition MakeTwoNodeBothAssignedSingleShard :: ShardMapState where
  "MakeTwoNodeBothAssignedSingleShard = \<lparr>Nodes = makeNodeInfos 2,
     ShardsToNodes = [(1, [''n1'', ''n2''])], NumShards = 1\<rparr>"

definition MakeTwoNodeMultiShard :: ShardMapState where
  "MakeTwoNodeMultiShard = \<lparr>Nodes = makeNodeInfos 2,
     ShardsToNodes = [(1, [''n1'']), (2, [''n1'']), (3, [''n1'']), (4, [''n1'']), (5, [''n1'']),
       (6, [''n2'']), (7, [''n2'']), (8, [''n2'']), (9, [''n2'']), (10, [''n2''])], NumShards = 10\<rparr>"

definition MakeFourNodesWithFiveShards :: ShardMapState where
  "MakeFourNodesWithFiveShards = \<lparr>Nodes = makeNodeInfos 4,
     ShardsToNodes = [(1, [''n1'', ''n2'', ''n3'']), (2, [''n1'', ''n2'', ''n4'']), (3, [''n2'', ''n3'']),
       (4, [''n3'', ''n4'']), (5, [''n2''])], NumShards = 5\<rparr>"

text \<open>The inner loop of \<open>MakeManyNodesWithManyShards\<close>: draw nodes until there are \<open>r\<close> different ones.
  It may run for ever, so not returning is the value \<open>None\<close>.\<close>

partial_function (option) pick_replicas ::
  "string list \<Rightarrow> nat \<Rightarrow> (string, unit) gomap \<Rightarrow> string list \<Rightarrow> rng \<Rightarrow> (string list \<times> rng) go option" where
  "pick_replicas nodeNames r replicas nodes rng =
     (if length replicas < r
      then (case Intn (int (length nodeNames)) rng of
              Ret (idx, rng') \<Rightarrow>
                (let node = nodeNames ! nat idx
                 in if node = [] then Some (Panic ''empty node name'')
                    else if gm_get replicas node = Some ()
                    then pick_replicas nodeNames r replicas nodes rng'
                    else pick_replicas nodeNames r (gm_put node () replicas) (nodes @ [node]) rng')
            | Panic e \<Rightarrow> Some (Panic e) | Fatal e \<Rightarrow> Some (Fatal e) | Hang \<Rightarrow> Some Hang)
      else Some (Ret (nodes, rng)))"

declare pick_replicas.simps [code]

text \<open>The outer loop over the shards that are left to assign.\<close>

fun assign_shards :: "string list \<Rightarrow> nat list \<Rightarrow> (int, string list) gomap \<Rightarrow> rng \<Rightarrow>
    ((int, string list) gomap \<times> rng) go option" where
  "assign_shards nodeNames [] shardsToNodes rng = Some (Ret (shardsToNodes, rng))"
| "assign_shards nodeNames (shard # shards) shardsToNodes rng =
     (let maxR = min 5 (length nodeNames); minR = min 2 maxR
      in case Intn (int (maxR - minR + 1)) rng of
           Ret (k, rng1) \<Rightarrow>
             (case pick_replicas nodeNames (nat k + minR) [] [] rng1 of
                Some (Ret (nodes, rng2)) \<Rightarrow>
                  assign_shards nodeNames shards (gm_put (int shard) nodes shardsToNodes) rng2
              | Some (Panic e) \<Rightarrow> Some (Panic e) | Some (Fatal e) \<Rightarrow> Some (Fatal e) | Some Hang \<Rightarrow> Some Hang
              | None \<Rightarrow> None)
         | Panic e \<Rightarrow> Some (Panic e) | Fatal e \<Rightarrow> Some (Fatal e) | Hang \<Rightarrow> Some Hang)"

definition MakeManyNodesWithManyShards :: "nat \<Rightarrow> nat \<Rightarrow> rng \<Rightarrow> (ShardMapState \<times> rng) go option" where
  "MakeManyNodesWithManyShards numShards numNodes rng =
     (case assign_shards (map node_name [1..<Suc numNodes]) [1..<Suc numShards] [] rng of
        Some (Ret (shardsToNodes, rng')) \<Rightarrow>
          Some (Ret (\<lparr>Nodes = makeNodeInfos numNodes, ShardsToNodes = shardsToNodes, NumShards = int numShards\<rparr>, rng'))
      | Some (Panic e) \<Rightarrow> Some (Panic e) | Some (Fatal e) \<Rightarrow> Some (Fatal e) | Some Hang \<Rightarrow> Some Hang
      | None \<Rightarrow> None)"

definition chars :: string where
  "chars = ''abcdefghijklmnopqrstuvwxyz''"

fun randomString :: "rng \<Rightarrow> nat \<Rightarrow> string \<times> rng" where
  "randomString rng 0 = ([], rng)"
| "randomString rng (Suc n) =
     (let c = chars ! (shd rng mod length chars); (out, rng') = randomString (stl rng) n in (c # out, rng'))"

fun RandomKeys :: "nat \<Rightarrow> nat \<Rightarrow> rng \<Rightarrow> string list" where
  "RandomKeys 0 len rng = []"
| "RandomKeys (Suc n) len rng = (let (k, rng') = randomString rng len in k # RandomKeys n len rng')"

subsection \<open>Nodes and names\<close>

lemma node_name_inj [simp]: "node_name i = node_name j \<longleftrightarrow> i = j"
  by (simp add: node_name_def)

lemma node_name_nonempty [simp]: "node_name i \<noteq> []" "[] \<noteq> node_name i"
  by (simp_all add: node_name_def)

lemma distinct_node_names: "distinct (map node_name xs) \<longleftrightarrow> distinct xs"
  by (simp add: distinct_map inj_on_def)

lemma fold_put_get:
  "gm_get (fold (\<lambda>i. gm_put (f i) (g i)) is m) k \<noteq> None \<longleftrightarrow> k \<in> f ` set is \<or> gm_get m k \<noteq> None"
  by (induction "is" arbitrary: m) auto

lemma fold_put_wf: "gm_wf m \<Longrightarrow> gm_wf (fold (\<lambda>i. gm_put (f i) (g i)) is m)"
  by (induction "is" arbitrary: m) auto

lemma makeNodeInfos_get: "gm_get (makeNodeInfos n) k \<noteq> None \<longleftrightarrow> k \<in> node_name ` {1..n}"
  unfolding makeNodeInfos_def fold_put_get by (auto simp: atLeastLessThanSuc_atLeastAtMost)

lemma makeNodeInfos_wf: "gm_wf (makeNodeInfos n)"
  unfolding makeNodeInfos_def by (rule fold_put_wf) simp

subsection \<open>Termination and result of the random constructor\<close>

text \<open>A source of draws is fair for \<open>n\<close> when every residue comes up again and again.\<close>

definition fair :: "nat \<Rightarrow> rng \<Rightarrow> bool" where
  "fair n r \<longleftrightarrow> (\<forall>i < n. \<forall>k. \<exists>j \<ge> k. (r !! j) mod n = i)"

lemma fair_sdrop: "fair n r \<Longrightarrow> fair n (sdrop k r)"
proof (unfold fair_def, intro allI impI)
  fix i m assume "\<forall>i<n. \<forall>k. \<exists>j\<ge>k. r !! j mod n = i" "i < n"
  then obtain j where "j \<ge> k + m" "r !! j mod n = i" by blast
  then show "\<exists>j\<ge>m. sdrop k r !! j mod n = i" by (intro exI [of _ "j - k"]) (simp add: sdrop_snth)
qed

lemma fair_stl: "fair n r \<Longrightarrow> fair n (stl r)"
  using fair_sdrop [of n r 1] by simp

lemma fair_draw: "fair n r \<Longrightarrow> i < n \<Longrightarrow> \<exists>j. (r !! j) mod n = i"
  by (auto simp: fair_def)

lemma Intn_len: "0 < n \<Longrightarrow> Intn (int n) r = Ret (int (shd r mod n), stl r)"
  by (simp add: Intn_def zmod_int)

definition as_set :: "string list \<Rightarrow> (string, unit) gomap" where
  "as_set nodes = map (\<lambda>x. (x, ())) nodes"

lemma as_set_get: "gm_get (as_set nodes) x = Some () \<longleftrightarrow> x \<in> set nodes"
  by (induction nodes) (auto simp: as_set_def)

lemma as_set_put: "x \<notin> set nodes \<Longrightarrow> gm_put x () (as_set nodes) = as_set (nodes @ [x])"
  by (induction nodes) (auto simp: as_set_def)

lemma length_as_set [simp]: "length (as_set nodes) = length nodes"
  by (simp add: as_set_def)

lemma pick_replicas_draw:
  assumes "length nodes < r" "r \<le> length names" "[] \<notin> set names"
  shows "pick_replicas names r (as_set nodes) nodes rng =
    (let node = names ! (shd rng mod length names)
     in if node \<in> set nodes then pick_replicas names r (as_set nodes) nodes (stl rng)
        else pick_replicas names r (as_set (nodes @ [node])) (nodes @ [node]) (stl rng))"
proof -
  have pos: "0 < length names" using assms by linarith
  then have "names ! (shd rng mod length names) \<noteq> []"
    using assms(3) by (metis mod_less_divisor nth_mem)
  then show ?thesis
    using assms(1) by (subst pick_replicas.simps) (simp add: Intn_len [OF pos] as_set_get as_set_put Let_def)
qed

definition picked :: "string list \<Rightarrow> nat \<Rightarrow> string list \<Rightarrow> bool" where
  "picked names r nodes \<longleftrightarrow> distinct nodes \<and> set nodes \<subseteq> set names \<and> length nodes = r"

lemma fresh_name:
  assumes "distinct names" "length nodes < length names" "distinct nodes"
  shows "\<exists>i < length names. names ! i \<notin> set nodes"
proof (rule ccontr)
  assume "\<not> ?thesis"
  then have "set names \<subseteq> set nodes" by (auto simp: set_conv_nth)
  then have "card (set names) \<le> card (set nodes)" by (rule card_mono [OF finite_set])
  then show False using assms by (simp add: distinct_card)
qed

lemma pick_replicas_ok:
  assumes "distinct names" "[] \<notin> set names" "r \<le> length names"
  shows "distinct nodes \<Longrightarrow> set nodes \<subseteq> set names \<Longrightarrow> length nodes \<le> r \<Longrightarrow> fair (length names) rng \<Longrightarrow>
    \<exists>nodes' k. pick_replicas names r (as_set nodes) nodes rng = Some (Ret (nodes', sdrop k rng)) \<and> picked names r nodes'"
proof (induction "r - length nodes" arbitrary: nodes rng)
  case 0
  then show ?case
    by (intro exI [of _ nodes] exI [of _ 0]) (subst pick_replicas.simps, simp add: picked_def)
next
  case (Suc d)
  then have short: "length nodes < r" by simp
  note draw = pick_replicas_draw [OF short assms(3,2)]
  obtain i where i: "i < length names" "names ! i \<notin> set nodes"
    using fresh_name [OF assms(1)] Suc.prems(1) short assms(3) by (meson less_le_trans)
  have hit: "\<exists>nodes' k. pick_replicas names r (as_set nodes) nodes rng = Some (Ret (nodes', sdrop k rng)) \<and> picked names r nodes'"
    if fresh: "names ! (shd rng mod length names) \<notin> set nodes" and fr: "fair (length names) rng" for rng
  proof -
    let ?node = "names ! (shd rng mod length names)"
    have "shd rng mod length names < length names" by (rule mod_less_divisor) (use i in linarith)
    then have "?node \<in> set names" by (rule nth_mem)
    moreover have "d = r - length (nodes @ [?node])" using Suc.hyps(2) by simp
    ultimately obtain nodes' k where "pick_replicas names r (as_set (nodes @ [?node])) (nodes @ [?node]) (stl rng) =
        Some (Ret (nodes', sdrop k (stl rng)))" "picked names r nodes'"
      using Suc.hyps(1) [of "nodes @ [?node]" "stl rng"] Suc.prems(1,2) short fresh fair_stl [OF fr] by auto
    then show ?thesis using fresh draw by (intro exI [of _ nodes'] exI [of _ "Suc k"]) (simp add: Let_def)
  qed
  obtain j where "names ! ((rng !! j) mod length names) \<notin> set nodes"
    using fair_draw [OF Suc.prems(4) i(1)] i(2) by metis
  then show ?case using Suc.prems(4)
  proof (induction j arbitrary: rng)
    case (Suc j)
    show ?case
    proof (cases "names ! (shd rng mod length names) \<in> set nodes")
      case True
      obtain nodes' k where "pick_replicas names r (as_set nodes) nodes (stl rng) =
          Some (Ret (nodes', sdrop k (stl rng)))" "picked names r nodes'"
        using Suc.IH [of "stl rng"] Suc.prems fair_stl by auto
      then show ?thesis using True draw by (intro exI [of _ nodes'] exI [of _ "Suc k"]) (simp add: Let_def)
    qed (use hit Suc.prems(2) in blast)
  qed (use hit in simp)
qed

text \<open>The shards assigned so far have between two and five replicas (all nodes when there are fewer).\<close>

definition replicas_ok :: "string list \<Rightarrow> string list \<Rightarrow> bool" where
  "replicas_ok names nodes \<longleftrightarrow> distinct nodes \<and> set nodes \<subseteq> set names \<and>
     min 2 (length names) \<le> length nodes \<and> length nodes \<le> 5"

lemma assign_shards_ok:
  assumes "distinct names" "[] \<notin> set names"
  shows "fair (length names) rng \<Longrightarrow> gm_wf m \<Longrightarrow> \<exists>m' k. assign_shards names shards m rng = Some (Ret (m', sdrop k rng)) \<and>
    gm_wf m' \<and> (\<forall>s. s \<notin> int ` set shards \<longrightarrow> gm_get m' s = gm_get m s) \<and>
    (\<forall>s \<in> int ` set shards. \<exists>nodes. gm_get m' s = Some nodes \<and> replicas_ok names nodes)"
proof (induction shards arbitrary: m rng)
  case Nil
  then show ?case by (auto intro: exI [of _ 0])
next
  case (Cons shard shards)
  let ?maxR = "min 5 (length names)"
  let ?minR = "min 2 ?maxR"
  let ?k = "shd rng mod (?maxR - ?minR + 1)"
  have "?k < ?maxR - ?minR + 1" by simp
  then have r: "?k + ?minR \<le> length names" "?k + ?minR \<le> 5" "min 2 (length names) \<le> ?k + ?minR" by linarith+
  have intn: "Intn (int (?maxR - ?minR + 1)) rng = Ret (int ?k, stl rng)" by (rule Intn_len) simp
  obtain nodes j where nodes: "pick_replicas names (?k + ?minR) [] [] (stl rng) = Some (Ret (nodes, sdrop j (stl rng)))"
    "picked names (?k + ?minR) nodes"
    using pick_replicas_ok [OF assms r(1), of "[]" "stl rng"] fair_stl [OF Cons.prems(1)] by (auto simp: as_set_def)
  let ?rng = "sdrop j (stl rng)"
  have fair: "fair (length names) ?rng" using Cons.prems(1) by (intro fair_sdrop fair_stl)
  obtain m' i where m': "assign_shards names shards (gm_put (int shard) nodes m) ?rng = Some (Ret (m', sdrop i ?rng))"
    "gm_wf m'" "\<forall>s. s \<notin> int ` set shards \<longrightarrow> gm_get m' s = gm_get (gm_put (int shard) nodes m) s"
    "\<forall>s \<in> int ` set shards. \<exists>nodes. gm_get m' s = Some nodes \<and> replicas_ok names nodes"
    using Cons.IH [OF fair gm_wf_put [OF Cons.prems(2)]] by blast
  have ok: "replicas_ok names nodes" using nodes(2) r(2,3) unfolding picked_def replicas_ok_def by metis
  have "sdrop i ?rng = sdrop (Suc (i + j)) rng" by (metis add.commute sdrop.simps(2) sdrop_add)
  then have "assign_shards names (shard # shards) m rng = Some (Ret (m', sdrop (Suc (i + j)) rng))"
    unfolding assign_shards.simps Let_def intn using nodes(1) m'(1) by simp
  moreover have "\<forall>s \<in> int ` set (shard # shards). \<exists>nodes. gm_get m' s = Some nodes \<and> replicas_ok names nodes"
  proof
    fix s assume "s \<in> int ` set (shard # shards)"
    then show "\<exists>nodes. gm_get m' s = Some nodes \<and> replicas_ok names nodes"
      using m'(3) bspec [OF m'(4), of s] ok by (cases "s \<in> int ` set shards") simp_all
  qed
  moreover have "\<forall>s. s \<notin> int ` set (shard # shards) \<longrightarrow> gm_get m' s = gm_get m s" using m'(3) by simp
  ultimately show ?case using m'(2) by blast
qed


subsection \<open>The cluster of a test\<close>

text \<open>
  The fields of \<open>TestSetup\<close>. Its \<open>kv\<close> field is a pair of pointers to the other two, made anew where
  it is used. The channels of the listeners are numbered in the order they are made.
\<close>

record TestSetup =
  ts_shardMap :: ShardMap
  ts_nodes :: "(string, KvServerImpl option) gomap"
  ts_clientPool :: TestClientPool

definition zero_TestClientPool :: TestClientPool where
  "zero_TestClientPool = \<lparr>getClientErrors = None, tp_nodes = None\<rparr>"

text \<open>The loop that starts one server per node.\<close>

fun start_servers :: "string list \<Rightarrow> chan_id \<Rightarrow> ShardMap \<Rightarrow> (string, KvServerImpl option) gomap \<Rightarrow>
    ShardMap \<times> (string, KvServerImpl option) gomap" where
  "start_servers [] ch sm nodes = (sm, nodes)"
| "start_servers (name # names) ch sm nodes =
     (let (server, sm') = MakeKvServer name ch sm
      in start_servers names (Suc ch) sm' (gm_put name (Some server) nodes))"

definition MakeTestSetup :: "ShardMapState \<Rightarrow> TestSetup go" where
  "MakeTestSetup st =
     (let sm = sm_Swap st zero_ShardMap
      in go_bind (sm_Nodes sm) (\<lambda>infos.
           let (sm', nodes) = start_servers (gm_keys infos) 0 sm []
           in Ret \<lparr>ts_shardMap = sm', ts_nodes = nodes, ts_clientPool = tp_Setup nodes zero_TestClientPool\<rparr>))"

definition MakeTestSetupWithoutServers :: "ShardMapState \<Rightarrow> TestSetup go" where
  "MakeTestSetupWithoutServers st =
     (let sm = sm_Swap st zero_ShardMap
      in go_bind (sm_Nodes sm) (\<lambda>infos.
           let nodes = fold (\<lambda>name. gm_put name None) (gm_keys infos) []
           in Ret \<lparr>ts_shardMap = sm, ts_nodes = nodes, ts_clientPool = tp_Setup nodes zero_TestClientPool\<rparr>))"

definition ts_server :: "string \<Rightarrow> TestSetup \<Rightarrow> KvServerImpl option" where
  "ts_server name ts = gm_getz None (ts_nodes ts) name"

definition NodeGet :: "string \<Rightarrow> string \<Rightarrow> TestSetup \<Rightarrow> (string \<times> bool \<times> string option) go" where
  "NodeGet name key ts =
     go_bind (nil_deref (\<lambda>s. srv_Get s key) (ts_server name ts)) (\<lambda>(val, wasFound). Ret (val, wasFound, None))"

definition NodeSet :: "string \<Rightarrow> string \<Rightarrow> string \<Rightarrow> int \<Rightarrow> TestSetup \<Rightarrow> string option go" where
  "NodeSet name key val ttlMs ts =
     go_bind (nil_deref (\<lambda>s. srv_Set s key val ttlMs) (ts_server name ts)) (\<lambda>_. Ret None)"

definition NodeDelete :: "string \<Rightarrow> string \<Rightarrow> TestSetup \<Rightarrow> string option go" where
  "NodeDelete name key ts = go_bind (nil_deref (\<lambda>s. srv_Delete s key) (ts_server name ts)) (\<lambda>_. Ret None)"

definition ts_kv :: "TestSetup \<Rightarrow> TestClientPool Kv" where
  "ts_kv ts = MakeKv (ts_shardMap ts) (ts_clientPool ts)"

definition ts_Get :: "string \<Rightarrow> TestSetup \<Rightarrow> (string \<times> bool \<times> string option) go" where
  "ts_Get key ts = kv_Get key (ts_kv ts)"

definition ts_Set :: "string \<Rightarrow> string \<Rightarrow> int \<Rightarrow> TestSetup \<Rightarrow> string option go" where
  "ts_Set key val ttl ts = kv_Set key val ttl (ts_kv ts)"

definition ts_Delete :: "string \<Rightarrow> TestSetup \<Rightarrow> string option go" where
  "ts_Delete key ts = kv_Delete key (ts_kv ts)"

definition ts_NumShards :: "TestSetup \<Rightarrow> int go" where
  "ts_NumShards ts = sm_NumShards (ts_shardMap ts)"

text \<open>\<open>Shutdown\<close> shuts the servers down one after the other. A node without a server is a nil pointer.\<close>

fun shutdown_nodes :: "(string \<times> KvServerImpl option) list \<Rightarrow> ShardMap \<Rightarrow> ((string \<times> KvServerImpl option) list \<times> ShardMap) go" where
  "shutdown_nodes [] sm = Ret ([], sm)"
| "shutdown_nodes ((name, server) # rest) sm =
     (case server of
        None \<Rightarrow> Panic ''nil pointer dereference''
      | Some s \<Rightarrow>
          go_bind (srv_Shutdown s sm) (\<lambda>(s', sm').
            go_bind (shutdown_nodes rest sm') (\<lambda>(rest', sm''). Ret ((name, Some s') # rest', sm''))))"

definition ts_Shutdown :: "TestSetup \<Rightarrow> TestSetup go" where
  "ts_Shutdown ts =
     go_bind (GetState (ts_shardMap ts)) (\<lambda>_.
       go_bind (shutdown_nodes (ts_nodes ts) (ts_shardMap ts)) (\<lambda>(nodes, sm). Ret (ts\<lparr>ts_nodes := nodes, ts_shardMap := sm\<rparr>)))"

subsection \<open>What the construction gives\<close>

text \<open>Starting servers for different names: each gets the next channel, registered under the same
  number, and no earlier registration is touched.\<close>

definition servers_from :: "chan_id \<Rightarrow> string list \<Rightarrow> (string \<times> KvServerImpl option) list" where
  "servers_from ch names =
     map (\<lambda>(i, name). (name, Some \<lparr>nodeName = name, srv_listener = \<lparr>l_ch = i, l_id = int i\<rparr>, srv_running = True\<rparr>))
       (zip [ch..<ch + length names] names)"

lemma servers_from_Cons:
  "servers_from ch (name # names) =
     (name, Some \<lparr>nodeName = name, srv_listener = \<lparr>l_ch = ch, l_id = int ch\<rparr>, srv_running = True\<rparr>) #
     servers_from (Suc ch) names"
proof -
  have "[ch..<ch + length (name # names)] = ch # [Suc ch..<Suc ch + length names]"
    by (simp add: upt_conv_Cons del: upt_Suc)
  then show ?thesis unfolding servers_from_def by simp
qed

lemma servers_from_keys: "gm_keys (servers_from ch names) = names"
proof (induction names arbitrary: ch)
  case Nil
  then show ?case by (simp add: servers_from_def)
next
  case (Cons a names)
  then show ?case by (simp add: servers_from_Cons)
qed

lemma start_servers_eq:
  assumes "distinct names" "set names \<inter> set (gm_keys nodes) = {}" "updateChannelCounter sm = int ch"
    "updateChannels sm = map (\<lambda>i. (int i, i)) [0..<ch]"
  shows "start_servers names ch sm nodes =
    (sm\<lparr>updateChannelCounter := int (ch + length names), updateChannels := map (\<lambda>i. (int i, i)) [0..<ch + length names]\<rparr>,
     nodes @ servers_from ch names)"
  using assms
proof (induction names arbitrary: ch sm nodes)
  case Nil
  then show ?case by (simp add: servers_from_def)
next
  case (Cons name names)
  let ?server = "\<lparr>nodeName = name, srv_listener = \<lparr>l_ch = ch, l_id = int ch\<rparr>, srv_running = True\<rparr>"
  let ?sm = "sm\<lparr>updateChannelCounter := int (Suc ch), updateChannels := map (\<lambda>i. (int i, i)) [0..<Suc ch]\<rparr>"
  have reg: "gm_put (int ch) ch (map (\<lambda>i. (int i, i)) [0..<ch]) = map (\<lambda>i. (int i, i)) [0..<ch] @ [(int ch, ch)]"
    by (rule gm_put_new) auto
  have make: "MakeKvServer name ch sm = (?server, ?sm)"
    using Cons.prems(3,4) reg
    by (simp add: MakeKvServer_def MakeListener_def handleShardMapUpdate_def Let_def add.commute)
  have put: "gm_put name (Some ?server) nodes = nodes @ [(name, Some ?server)]"
    using Cons.prems(2) by (intro gm_put_new) auto
  have "start_servers names (Suc ch) ?sm (nodes @ [(name, Some ?server)]) =
    (?sm\<lparr>updateChannelCounter := int (Suc ch + length names),
      updateChannels := map (\<lambda>i. (int i, i)) [0..<Suc ch + length names]\<rparr>,
     (nodes @ [(name, Some ?server)]) @ servers_from (Suc ch) names)"
    using Cons.prems(1,2) by (intro Cons.IH) auto
  then show ?case using make put by (simp add: servers_from_Cons)
qed

lemma MakeTestSetup_eq:
  assumes "state_wf st"
  shows "MakeTestSetup st = Ret
    \<lparr>ts_shardMap = \<lparr>sm_state = Some st, updateChannels = map (\<lambda>i. (int i, i)) [0..<length (Nodes st)],
        updateChannelCounter = int (length (Nodes st))\<rparr>,
     ts_nodes = servers_from 0 (gm_keys (Nodes st)),
     ts_clientPool = tp_Setup (servers_from 0 (gm_keys (Nodes st))) zero_TestClientPool\<rparr>"
  using assms start_servers_eq [of "gm_keys (Nodes st)" "[]" "sm_Swap st zero_ShardMap" 0]
  by (simp add: MakeTestSetup_def sm_Nodes_def GetState_def sm_Swap_def zero_ShardMap_def state_wf_def gm_wf_def)


lemma tp_Setup_node:
  assumes "gm_wf nodes"
  shows "tp_node name (tp_Setup nodes cp) = map_option zero_TestClient (gm_get nodes name)"
proof -
  have "fold (\<lambda>(name, server). gm_put name (zero_TestClient server)) nodes [] =
      fold (\<lambda>p. gm_put (fst p) (zero_TestClient (snd p))) nodes []"
    by (rule fold_cong) auto
  moreover have "gm_get (fold (\<lambda>p. gm_put (fst p) (zero_TestClient (snd p))) nodes m) name =
      (case gm_get nodes name of None \<Rightarrow> gm_get m name | Some s \<Rightarrow> Some (zero_TestClient s))" for m
    using assms
  proof (induction nodes arbitrary: m)
    case (Cons p nodes)
    obtain k s where p: "p = (k, s)" by (cases p)
    then have "k \<notin> set (gm_keys nodes)" "gm_wf nodes" using Cons.prems by (simp_all add: gm_wf_Cons)
    moreover from this have "gm_get nodes k = None" by (simp add: map_of_eq_None_iff)
    ultimately show ?case using Cons.IH [of "gm_put k (zero_TestClient s) m"] p
      by (cases "name = k") (simp_all split: option.split)
  qed simp
  ultimately show ?thesis by (simp add: tp_node_def tp_Setup_def split: option.split)
qed

definition stopped :: "(string \<times> KvServerImpl option) list \<Rightarrow> (string \<times> KvServerImpl option) list" where
  "stopped nodes = map (map_prod id (map_option (\<lambda>s. s\<lparr>srv_running := False\<rparr>))) nodes"

lemma shutdown_nodes_servers:
  "updateChannels sm = map (\<lambda>i. (int i, i)) [ch..<ch + length names] \<Longrightarrow>
   shutdown_nodes (servers_from ch names) sm = Ret (stopped (servers_from ch names), sm\<lparr>updateChannels := []\<rparr>)"
proof (induction names arbitrary: ch sm)
  case Nil
  then show ?case by (simp add: servers_from_def stopped_def)
next
  case (Cons name names)
  have chans: "updateChannels sm = (int ch, ch) # map (\<lambda>i. (int i, i)) [Suc ch..<Suc ch + length names]"
    using Cons.prems by (simp add: upt_conv_Cons del: upt_Suc)
  let ?sm = "sm\<lparr>updateChannels := map (\<lambda>i. (int i, i)) [Suc ch..<Suc ch + length names]\<rparr>"
  have "sm_Unregister \<lparr>l_ch = ch, l_id = int ch\<rparr> sm = ?sm"
    using chans by (auto simp: sm_Unregister_def AList.delete_eq intro!: filter_True)
  moreover have "shutdown_nodes (servers_from (Suc ch) names) ?sm = Ret (stopped (servers_from (Suc ch) names), ?sm\<lparr>updateChannels := []\<rparr>)"
    by (rule Cons.IH) simp
  ultimately show ?case by (simp add: servers_from_Cons srv_Shutdown_def stopped_def)
qed

lemma randomString_spec:
  "length (fst (randomString rng n)) = n \<and> set (fst (randomString rng n)) \<subseteq> set chars"
proof (induction n arbitrary: rng)
  case (Suc n)
  have "shd rng mod length chars < length chars" by (simp add: chars_def)
  then show ?case using Suc [of "stl rng"] by (auto simp: Let_def split: prod.split)
qed simp

subsection \<open>Properties\<close>

text \<open>
  C27: \<open>MakeManyNodesWithManyShards\<close> ends for every fair source of draws, for every number of shards
  and nodes. The shard map it returns is valid, every shard from 1 to \<open>numShards\<close> is assigned, and
  each has at least two replicas (or all nodes, when there are fewer) and at most five, all on
  different nodes.
\<close>

theorem MakeManyNodesWithManyShards_correct:
  assumes "fair numNodes rng"
  shows "\<exists>st rng'. MakeManyNodesWithManyShards numShards numNodes rng = Some (Ret (st, rng')) \<and>
    state_wf st \<and> IsValid st \<and> NumShards st = int numShards \<and>
    (\<forall>shard. 1 \<le> shard \<and> shard \<le> int numShards \<longrightarrow>
       min 2 numNodes \<le> length (nodes_for_shard st shard) \<and> length (nodes_for_shard st shard) \<le> 5 \<and>
       distinct (nodes_for_shard st shard))"
proof -
  let ?names = "map node_name [1..<Suc numNodes]"
  have names: "distinct ?names" "[] \<notin> set ?names" "fair (length ?names) rng"
    using assms by (auto simp: distinct_node_names simp del: upt_Suc)
  obtain m k where m: "assign_shards ?names [1..<Suc numShards] [] rng = Some (Ret (m, sdrop k rng))" "gm_wf m"
    "\<forall>s. s \<notin> int ` set [1..<Suc numShards] \<longrightarrow> gm_get m s = gm_get [] s"
    "\<forall>s \<in> int ` set [1..<Suc numShards]. \<exists>nodes. gm_get m s = Some nodes \<and> replicas_ok ?names nodes"
    using assign_shards_ok [OF names gm_wf_Nil] by blast
  let ?st = "\<lparr>Nodes = makeNodeInfos numNodes, ShardsToNodes = m, NumShards = int numShards\<rparr>"
  have range: "s \<in> int ` set [1..<Suc numShards] \<longleftrightarrow> 1 \<le> s \<and> s \<le> int numShards" for s
    by (auto intro!: image_eqI [of _ _ "nat s"])
  have known: "\<forall>node \<in> set nodes. gm_get (makeNodeInfos numNodes) node \<noteq> None" if "replicas_ok ?names nodes" for nodes
    using that unfolding replicas_ok_def makeNodeInfos_get by (auto simp: atLeastLessThanSuc_atLeastAtMost)
  have entry: "1 \<le> s \<and> s \<le> int numShards \<and> replicas_ok ?names nodes" if "gm_get m s = Some nodes" for s nodes
    using m(3,4) that range [of s] by (cases "s \<in> int ` set [1..<Suc numShards]") auto
  have wf: "state_wf ?st" using m(2) makeNodeInfos_wf by (simp add: state_wf_def)
  have valid: "IsValid ?st"
    unfolding IsValid_gm_iff [OF wf]
  proof (intro conjI allI impI)
    fix s nodes assume "gm_get (ShardsToNodes ?st) s = Some nodes"
    then have e: "1 \<le> s" "s \<le> int numShards" "replicas_ok ?names nodes" using entry [of s nodes] by simp_all
    then show "1 \<le> s" "s \<le> NumShards ?st" "distinct nodes" by (simp_all add: replicas_ok_def)
    show "\<forall>node\<in>set nodes. gm_get (Nodes ?st) node \<noteq> None" using known [OF e(3)] by simp
  qed simp
  have count: "min 2 numNodes \<le> length (nodes_for_shard ?st shard) \<and> length (nodes_for_shard ?st shard) \<le> 5 \<and>
      distinct (nodes_for_shard ?st shard)" if "1 \<le> shard \<and> shard \<le> int numShards" for shard
    using bspec [OF m(4), of shard] that range [of shard] by (auto simp: nodes_for_shard_def replicas_ok_def simp del: upt_Suc)
  have "MakeManyNodesWithManyShards numShards numNodes rng = Some (Ret (?st, sdrop k rng))"
    unfolding MakeManyNodesWithManyShards_def m(1) by simp
  then show ?thesis using wf valid count by (intro exI [of _ ?st] exI [of _ "sdrop k rng"]) simp
qed

lemma fair_fromN: "0 < n \<Longrightarrow> fair n (fromN 0)"
  unfolding fair_def
proof (intro allI impI)
  fix i k assume "i < n" "0 < n"
  then show "\<exists>j\<ge>k. fromN 0 !! j mod n = i" by (intro exI [of _ "k * n + i"]) (simp add: trans_le_add1)
qed

theorem MakeManyNodesWithManyShards_correct_witness:
  "\<exists>st rng'. MakeManyNodesWithManyShards 4 3 (fromN 0) = Some (Ret (st, rng')) \<and> IsValid st"
  using MakeManyNodesWithManyShards_correct [OF fair_fromN [of 3], of 4] by auto

text \<open>
  The fixed shard maps that the tests start from are all well formed and valid.
\<close>

theorem test_shard_maps_valid:
  "list_all (\<lambda>st. IsValid st \<and> state_wf st)
     [MakeBasicOneShard, MakeMultiShardSingleNode, MakeNoShardAssigned, MakeSingleNodeHalfShardsAssigned,
      MakeTwoNodeBothAssignedSingleShard, MakeTwoNodeMultiShard, MakeFourNodesWithFiveShards]"
  by code_simp

text \<open>
  \<open>MakeTestSetup\<close> on a well-formed shard map gives a cluster with a running server for every node
  and no other, each with a listener of its own registered in the shard map, and a pool whose
  \<open>GetClient\<close> answers every node of the shard map without an error. Shutting the cluster down closes
  every listener.
\<close>

theorem MakeTestSetup_ready:
  assumes "state_wf st" and "MakeTestSetup st = Ret ts"
  shows "(\<forall>name. ts_server name ts \<noteq> None \<longleftrightarrow> name \<in> set (gm_keys (Nodes st))) \<and>
    (\<forall>name \<in> set (gm_keys (Nodes st)). tp_GetClient name (ts_clientPool ts) = Ret ((Some name, None), ts_clientPool ts)) \<and>
    (\<forall>name s. ts_server name ts = Some s \<longrightarrow> nodeName s = name \<and>
       gm_get (updateChannels (ts_shardMap ts)) (l_id (srv_listener s)) = Some (l_ch (srv_listener s))) \<and>
    (\<exists>ts'. ts_Shutdown ts = Ret ts' \<and> updateChannels (ts_shardMap ts') = [] \<and> GetState (ts_shardMap ts') = Ret st)"
proof (intro conjI)
  let ?names = "gm_keys (Nodes st)"
  note ts = assms(2) [unfolded MakeTestSetup_eq [OF assms(1)], simplified go.inject, symmetric]
  have wf: "gm_wf (servers_from 0 ?names)"
    using assms(1) by (simp add: gm_wf_def servers_from_keys state_wf_def)
  have mem: "gm_get (servers_from 0 ?names) name \<noteq> None \<longleftrightarrow> name \<in> set ?names" for name
    unfolding gm_get_keys servers_from_keys ..
  have entry: "\<exists>i < length ?names. v = Some \<lparr>nodeName = name, srv_listener = \<lparr>l_ch = i, l_id = int i\<rparr>, srv_running = True\<rparr>"
    if "gm_get (servers_from 0 ?names) name = Some v" for name v
    using map_of_SomeD [OF that] by (auto simp: servers_from_def set_zip)
  have chan: "gm_get (map (\<lambda>i. (int i, i)) [0..<n]) (int i) = Some i" if "i < n" for i n
    using that by (subst gm_get_mem [symmetric]) (auto simp: gm_wf_def distinct_map inj_on_def)
  have srv: "ts_server name ts \<noteq> None \<longleftrightarrow> name \<in> set ?names" for name
    using mem [of name] entry [of name] by (auto simp: ts ts_server_def gm_getz_def split: option.splits)
  then show "\<forall>name. ts_server name ts \<noteq> None \<longleftrightarrow> name \<in> set ?names" by blast
  show "\<forall>name \<in> set ?names. tp_GetClient name (ts_clientPool ts) = Ret ((Some name, None), ts_clientPool ts)"
  proof
    fix name assume "name \<in> set ?names"
    then obtain v where "gm_get (servers_from 0 ?names) name = Some v" using mem [of name] by blast
    then have "tp_node name (ts_clientPool ts) = Some (zero_TestClient v)"
      using tp_Setup_node [OF wf, of name zero_TestClientPool] by (simp add: ts)
    moreover have "getClientErrors (ts_clientPool ts) = None" "tp_nodes (ts_clientPool ts) \<noteq> None"
      by (simp_all add: ts tp_Setup_def zero_TestClientPool_def)
    ultimately show "tp_GetClient name (ts_clientPool ts) = Ret ((Some name, None), ts_clientPool ts)"
      by (simp add: tp_GetClient_def)
  qed
  show "\<forall>name s. ts_server name ts = Some s \<longrightarrow> nodeName s = name \<and>
      gm_get (updateChannels (ts_shardMap ts)) (l_id (srv_listener s)) = Some (l_ch (srv_listener s))"
  proof (intro allI impI)
    fix name s assume "ts_server name ts = Some s"
    then have "gm_get (servers_from 0 ?names) name = Some (Some s)"
      by (simp add: ts ts_server_def gm_getz_def split: option.splits)
    from entry [OF this] obtain i where "i < length ?names"
      "s = \<lparr>nodeName = name, srv_listener = \<lparr>l_ch = i, l_id = int i\<rparr>, srv_running = True\<rparr>" by blast
    then show "nodeName s = name \<and>
      gm_get (updateChannels (ts_shardMap ts)) (l_id (srv_listener s)) = Some (l_ch (srv_listener s))"
      using chan [of i "length (Nodes st)"] by (simp add: ts)
  qed
  show "\<exists>ts'. ts_Shutdown ts = Ret ts' \<and> updateChannels (ts_shardMap ts') = [] \<and> GetState (ts_shardMap ts') = Ret st"
    using shutdown_nodes_servers [of "ts_shardMap ts" 0 ?names]
    by (simp add: ts ts_Shutdown_def GetState_def)
qed

theorem MakeTestSetup_ready_witness:
  "\<exists>ts. MakeTestSetup example_state = Ret ts \<and> ts_server ''n1'' ts \<noteq> None \<and> ts_server ''n9'' ts = None"
proof -
  obtain ts where ts: "MakeTestSetup example_state = Ret ts"
    using MakeTestSetup_eq [OF example_state_valid(2)] by blast
  note M = MakeTestSetup_ready [OF example_state_valid(2) ts]
  have "''n1'' \<in> set (gm_keys (Nodes example_state))" "''n9'' \<notin> set (gm_keys (Nodes example_state))"
    by (simp_all add: example_state_def)
  then show ?thesis using ts M by blast
qed

text \<open>
  Random keys have the requested length and consist of lower-case letters.
\<close>

theorem RandomKeys_correct:
  "length (RandomKeys n len rng) = n \<and>
   (\<forall>key \<in> set (RandomKeys n len rng). length key = len \<and> set key \<subseteq> set chars)"
proof (induction n arbitrary: rng)
  case (Suc n)
  obtain k rng' where "randomString rng len = (k, rng')" by fastforce
  then show ?case using Suc [of rng'] randomString_spec [of rng len] by auto
qed simp

theorem RandomKeys_correct_witness:
  "length (hd (RandomKeys 2 3 (fromN 0))) = 3"
  using RandomKeys_correct [of 2 3 "fromN 0"] by (cases "RandomKeys 2 3 (fromN 0)") auto

end
