(* ===== verification/Labgob.thy ===== *)
theory Labgob
  imports Lab_Prelude
begin

text \<open>
  The checks that \<open>lab2/labgob/labgob.go\<close> wraps around Go's \<open>encoding/gob\<close>: complaints about
  lower-case field names, each type once, and about decoding into variables that are not zero.

  The types a program can encode form a finite graph, possibly cyclic: a type is a number, and a
  table gives its kind. The recursion of \<open>checkType\<close> is an explicit stack of the calls and field
  checks still to be done, which makes it terminate on cyclic types; \<open>checkType_rec\<close> below shows that it
  satisfies the equation of the source. The encoders of \<open>encoding/gob\<close> are parameters.
\<close>

subsection \<open>Types\<close>

type_synonym tid = nat

text \<open>\<open>KElem\<close> stands for the three kinds with an element type only: slice, array and pointer.\<close>

datatype kind =
    KStruct string "(string \<times> tid) list"
  | KElem tid
  | KMap (key_type: tid) (elem_type: tid)
  | KOther

type_synonym type_table = "(tid, kind) gomap"

definition kind_of :: "type_table \<Rightarrow> tid \<Rightarrow> kind" where
  "kind_of tt t = gm_getz KOther tt t"

record gob_state =
  errorCount :: int
  checked :: "tid set"
  printed :: "(string \<times> string) list"
  warned :: "string list"

definition gob_init :: gob_state where
  "gob_init = \<lparr>errorCount = 0, checked = {}, printed = [], warned = []\<rparr>"

text \<open>\<open>unicode.IsUpper\<close> of the first character, for names that start with an ASCII character.\<close>

definition first_upper :: "string \<Rightarrow> bool" where
  "first_upper name = (case name of [] \<Rightarrow> False | c # _ \<Rightarrow> 65 \<le> (of_char c :: nat) \<and> (of_char c :: nat) \<le> 90)"

definition check_field :: "string \<Rightarrow> string \<Rightarrow> gob_state \<Rightarrow> gob_state" where
  "check_field tname fname st =
     (if first_upper fname then st
      else st\<lparr>errorCount := errorCount st + 1, printed := printed st @ [(tname, fname)]\<rparr>)"

datatype work = Field string string | Visit tid

definition children :: "kind \<Rightarrow> work list" where
  "children k =
     (case k of
        KStruct tname flds \<Rightarrow> concat (map (\<lambda>(f, t). [Field tname f, Visit t]) flds)
      | KElem t \<Rightarrow> [Visit t]
      | KMap key elem \<Rightarrow> [Visit elem, Visit key]
      | KOther \<Rightarrow> [])"

lemma checked_check_field [simp]: "checked (check_field a b st) = checked st"
  by (simp add: check_field_def)

text \<open>Termination: every visit either shortens the stack or marks one more type of the table.\<close>

function check_work :: "type_table \<Rightarrow> work list \<Rightarrow> gob_state \<Rightarrow> gob_state" where
  "check_work tt [] st = st"
| "check_work tt (Field tname fname # ws) st = check_work tt ws (check_field tname fname st)"
| "check_work tt (Visit t # ws) st =
     (if t \<in> checked st then check_work tt ws st
      else check_work tt (children (kind_of tt t) @ ws) (st\<lparr>checked := insert t (checked st)\<rparr>))"
  by pat_completeness auto

termination
proof (relation "measures [\<lambda>(tt, ws, st). card (set (gm_keys tt) - checked st), \<lambda>(tt, ws, st). length ws]", goal_cases)
  case (4 tt t ws st)
  show ?case
  proof (cases "t \<in> set (gm_keys tt)")
    case True
    then have "set (gm_keys tt) - insert t (checked st) \<subset> set (gm_keys tt) - checked st" using 4 by blast
    then show ?thesis by (simp add: psubset_card_mono)
  next
    case False
    then have "kind_of tt t = KOther"
      by (simp add: kind_of_def gm_getz_def map_of_eq_None_iff [THEN iffD2])
    moreover have "set (gm_keys tt) - insert t (checked st) = set (gm_keys tt) - checked st" using False by blast
    ultimately show ?thesis by (simp add: children_def)
  qed
qed simp_all

declare check_work.simps(3) [simp del]

definition checkType :: "type_table \<Rightarrow> tid \<Rightarrow> gob_state \<Rightarrow> gob_state" where
  "checkType tt t st = check_work tt [Visit t] st"

subsection \<open>The recursive equation of the source\<close>

lemma check_work_append: "check_work tt (xs @ ys) st = check_work tt ys (check_work tt xs st)"
  by (induction tt xs st rule: check_work.induct) (auto simp: check_work.simps(3))

lemma check_work_Cons: "check_work tt (x # ys) st = check_work tt ys (check_work tt [x] st)"
  using check_work_append [of tt "[x]" ys st] by simp

definition check_fields :: "type_table \<Rightarrow> string \<Rightarrow> (string \<times> tid) list \<Rightarrow> gob_state \<Rightarrow> gob_state" where
  "check_fields tt tname = fold (\<lambda>(f, t) st. checkType tt t (check_field tname f st))"

lemma check_work_fields:
  "check_work tt (concat (map (\<lambda>(f, t). [Field tname f, Visit t]) flds)) st = check_fields tt tname flds st"
proof (induction flds arbitrary: st)
  case (Cons p flds)
  obtain f t where "p = (f, t)" by (cases p)
  then show ?case
    using Cons [of "checkType tt t (check_field tname f st)"]
      check_work_Cons [of tt "Visit t" "concat (map (\<lambda>(f, t). [Field tname f, Visit t]) flds)" "check_field tname f st"]
    by (simp add: check_fields_def checkType_def)
qed (simp add: check_fields_def)

lemma checkType_rec:
  "checkType tt t st =
     (if t \<in> checked st then st
      else let st' = st\<lparr>checked := insert t (checked st)\<rparr>
           in case kind_of tt t of
                KStruct tname flds \<Rightarrow> check_fields tt tname flds st'
              | KElem e \<Rightarrow> checkType tt e st'
              | KMap key elem \<Rightarrow> checkType tt key (checkType tt elem st')
              | KOther \<Rightarrow> st')"
proof (cases "t \<in> checked st")
  case False
  let ?st = "st\<lparr>checked := insert t (checked st)\<rparr>"
  have "checkType tt t st = check_work tt (children (kind_of tt t)) ?st"
    using False by (simp add: checkType_def check_work.simps(3))
  moreover have "check_work tt [Visit elem, Visit key] ?st = checkType tt key (checkType tt elem ?st)" for key elem
    using check_work_Cons [of tt "Visit elem" "[Visit key]"] by (simp add: checkType_def)
  ultimately show ?thesis
    using False by (cases "kind_of tt t") (simp_all add: children_def check_work_fields checkType_def Let_def)
qed (simp add: checkType_def check_work.simps(3))

subsection \<open>Which types are visited\<close>

text \<open>What a value of a type is made of, from the Go language and not from the traversal: the types of the fields of a struct, the
  elements of a slice, an array or a map and what a pointer points to, and the keys of a map.\<close>

inductive made_of :: "type_table \<Rightarrow> tid \<Rightarrow> tid \<Rightarrow> bool" for tt :: type_table where
  of_field: "kind_of tt t = KStruct tname flds \<Longrightarrow> (f, u) \<in> set flds \<Longrightarrow> made_of tt t u"
| of_elem: "kind_of tt t = KElem u \<Longrightarrow> made_of tt t u"
| of_map_key: "kind_of tt t = KMap u v \<Longrightarrow> made_of tt t u"
| of_map_elem: "kind_of tt t = KMap k u \<Longrightarrow> made_of tt t u"

inductive_simps made_of_iff: "made_of tt t u"

text \<open>The types that a value of type \<open>t\<close> may hold, at any depth.\<close>

inductive_set parts :: "type_table \<Rightarrow> tid \<Rightarrow> tid set" for tt t where
  parts_self: "t \<in> parts tt t"
| parts_inner: "u \<in> parts tt t \<Longrightarrow> made_of tt u v \<Longrightarrow> v \<in> parts tt t"

abbreviation succs :: "type_table \<Rightarrow> tid \<Rightarrow> tid set" where
  "succs tt t \<equiv> {u. made_of tt t u}"

definition visits :: "work list \<Rightarrow> tid set" where
  "visits ws = {t. Visit t \<in> set ws}"

lemma visits_simps [simp]:
  "visits [] = {}" "visits (Field a b # ws) = visits ws" "visits (Visit t # ws) = insert t (visits ws)"
  "visits (xs @ ys) = visits xs \<union> visits ys"
  by (auto simp: visits_def)

lemma visits_children: "visits (children (kind_of tt t)) = succs tt t"
  by (cases "kind_of tt t") (force simp: visits_def children_def made_of_iff)+

text \<open>The visited set grows, stays within a closed superset, and ends closed on what was added.\<close>

lemma check_work_mono: "checked st \<subseteq> checked (check_work tt ws st) \<and> visits ws \<subseteq> checked (check_work tt ws st)"
proof (induction tt ws st rule: check_work.induct)
  case (3 tt t ws st)
  then show ?case by (cases "t \<in> checked st") (auto simp: check_work.simps(3))
qed auto

lemma check_work_sound:
  assumes "\<And>u. u \<in> S \<Longrightarrow> succs tt u \<subseteq> S"
  shows "checked st \<subseteq> S \<Longrightarrow> visits ws \<subseteq> S \<Longrightarrow> checked (check_work tt ws st) \<subseteq> S"
  using assms
proof (induction tt ws st rule: check_work.induct)
  case (3 tt t ws st)
  show ?case
  proof (cases "t \<in> checked st")
    case False
    then show ?thesis using 3 by (simp add: visits_children check_work.simps(3))
  qed (use 3 in \<open>simp add: check_work.simps(3)\<close>)
qed auto

lemma check_work_closed:
  "u \<in> checked (check_work tt ws st) - checked st \<Longrightarrow> succs tt u \<subseteq> checked (check_work tt ws st)"
proof (induction tt ws st rule: check_work.induct)
  case (3 tt t ws st)
  let ?st = "st\<lparr>checked := insert t (checked st)\<rparr>" and ?ws = "children (kind_of tt t) @ ws"
  show ?case
  proof (cases "t \<in> checked st")
    case False
    have "succs tt t \<subseteq> checked (check_work tt ?ws ?st)"
      using check_work_mono [of ?st tt ?ws] by (auto simp: visits_children)
    then show ?thesis using 3 False by (cases "u = t") (auto simp: check_work.simps(3))
  qed (use 3 in \<open>simp add: check_work.simps(3)\<close>)
qed auto

lemma checkType_checked: "checked (checkType tt t gob_init) = parts tt t"
proof
  show "checked (checkType tt t gob_init) \<subseteq> parts tt t"
    unfolding checkType_def by (rule check_work_sound) (auto simp: gob_init_def intro: parts.intros)
  have "t \<in> checked (checkType tt t gob_init)"
    using check_work_mono [of gob_init tt "[Visit t]"] by (simp add: checkType_def)
  moreover have "succs tt u \<subseteq> checked (checkType tt t gob_init)" if "u \<in> checked (checkType tt t gob_init)" for u
    using check_work_closed [of u tt "[Visit t]" gob_init] that by (simp add: checkType_def gob_init_def)
  ultimately show "parts tt t \<subseteq> checked (checkType tt t gob_init)"
    by (auto elim!: parts.induct)
qed

subsection \<open>What is reported\<close>

definition bad_fields :: "type_table \<Rightarrow> tid \<Rightarrow> (string \<times> string) list" where
  "bad_fields tt t =
     (case kind_of tt t of KStruct tname flds \<Rightarrow> [(tname, f). (f, u) \<leftarrow> flds, \<not> first_upper f] | _ \<Rightarrow> [])"

definition bad_work :: "work list \<Rightarrow> (string \<times> string) multiset" where
  "bad_work ws = mset (concat (map (\<lambda>w. case w of Field a b \<Rightarrow> if first_upper b then [] else [(a, b)] | Visit _ \<Rightarrow> []) ws))"

lemma bad_work_simps [simp]:
  "bad_work [] = {#}" "bad_work (xs @ ys) = bad_work xs + bad_work ys" "bad_work (Visit t # ws) = bad_work ws"
  "bad_work (Field a b # ws) = (if first_upper b then {#} else {#(a, b)#}) + bad_work ws"
  by (simp_all add: bad_work_def)

lemma bad_work_children: "bad_work (children (kind_of tt t)) = mset (bad_fields tt t)"
proof (cases "kind_of tt t")
  case (KStruct tname flds)
  have "bad_work (concat (map (\<lambda>(f, t). [Field tname f, Visit t]) flds)) = mset [(tname, f). (f, u) \<leftarrow> flds, \<not> first_upper f]"
    by (induction flds) (auto simp: bad_work_def)
  then show ?thesis using KStruct by (simp add: children_def bad_fields_def)
qed (simp_all add: children_def bad_fields_def bad_work_def)

lemma check_work_printed:
  assumes "finite (checked st)"
  shows "mset (printed (check_work tt ws st)) =
      mset (printed st) + bad_work ws + (\<Sum>t \<in> checked (check_work tt ws st) - checked st. mset (bad_fields tt t)) \<and>
    finite (checked (check_work tt ws st))"
  using assms
proof (induction tt ws st rule: check_work.induct)
  case (2 tt a b ws st)
  then show ?case by (auto simp: check_field_def)
next
  case (3 tt t ws st)
  let ?st = "st\<lparr>checked := insert t (checked st)\<rparr>" and ?ws = "children (kind_of tt t) @ ws"
  show ?case
  proof (cases "t \<in> checked st")
    case False
    let ?C = "checked (check_work tt ?ws ?st)"
    have IH: "mset (printed (check_work tt ?ws ?st)) = mset (printed st) + bad_work ?ws +
        (\<Sum>t \<in> ?C - insert t (checked st). mset (bad_fields tt t))" "finite ?C"
      using 3(2) [OF False] 3(3) by simp_all
    have "t \<in> ?C" using check_work_mono [of ?st tt ?ws] by auto
    then have "(\<Sum>u \<in> ?C - checked st. mset (bad_fields tt u)) =
        mset (bad_fields tt t) + (\<Sum>u \<in> ?C - insert t (checked st). mset (bad_fields tt u))"
      using False IH(2) by (subst sum.remove [of _ t]) (auto simp: Diff_insert [symmetric])
    then show ?thesis using False IH by (simp add: bad_work_children ac_simps check_work.simps(3))
  qed (use 3 in \<open>simp add: check_work.simps(3)\<close>)
qed simp

lemma check_work_count:
  "errorCount st = int (length (printed st)) \<Longrightarrow>
   errorCount (check_work tt ws st) = int (length (printed (check_work tt ws st)))"
  by (induction tt ws st rule: check_work.induct) (auto simp: check_field_def check_work.simps(3))


subsection \<open>Decoding into variables that are not zero\<close>

text \<open>
  The values \<open>checkDefault1\<close> tells apart: structs, pointers, the basic kinds (with the name of the type
  and whether the value is the zero value), and everything else. A cyclic value is represented by its
  unfolding; \<open>checkDefault_depth\<close> shows that nothing below the third level is looked at.
\<close>

datatype gval =
    VStruct "(string \<times> gval) list"
  | VPtr "gval option"
  | VBasic string bool
  | VOther

definition report_default :: "string \<Rightarrow> string \<Rightarrow> gob_state \<Rightarrow> gob_state" where
  "report_default tname name st =
     (let what = (if name = [] then tname else name);
          st' = (if errorCount st < 1 then st\<lparr>warned := warned st @ [what]\<rparr> else st)
      in st'\<lparr>errorCount := errorCount st' + 1\<rparr>)"

fun checkDefault1 :: "gval \<Rightarrow> nat \<Rightarrow> string \<Rightarrow> gob_state \<Rightarrow> gob_state"
  and checkDefault_fields :: "(string \<times> gval) list \<Rightarrow> nat \<Rightarrow> string \<Rightarrow> gob_state \<Rightarrow> gob_state" where
  "checkDefault1 (VStruct fs) depth name st =
     (if depth > 3 then st else checkDefault_fields fs depth name st)"
| "checkDefault1 (VPtr None) depth name st = st"
| "checkDefault1 (VPtr (Some v)) depth name st =
     (if depth > 3 then st else checkDefault1 v (depth + 1) name st)"
| "checkDefault1 (VBasic tname zero) depth name st =
     (if depth > 3 then st else if zero then st else report_default tname name st)"
| "checkDefault1 VOther depth name st = st"
| "checkDefault_fields [] depth name st = st"
| "checkDefault_fields ((f, v) # fs) depth name st =
     (let name1 = (if name \<noteq> [] then name @ ''.'' @ f else f)
      in checkDefault_fields fs depth name (checkDefault1 v (depth + 1) name1 st))"

text \<open>\<open>None\<close> is the nil interface value.\<close>

definition checkDefault :: "gval option \<Rightarrow> gob_state \<Rightarrow> gob_state" where
  "checkDefault v st = (case v of None \<Rightarrow> st | Some v \<Rightarrow> checkDefault1 v 1 [] st)"

text \<open>The specification: how many non-zero basic values lie within \<open>n\<close> levels.\<close>

fun nonzero :: "nat \<Rightarrow> gval \<Rightarrow> nat" where
  "nonzero 0 v = 0"
| "nonzero (Suc n) (VStruct fs) = sum_list (map (nonzero n \<circ> snd) fs)"
| "nonzero (Suc n) (VPtr p) = (case p of None \<Rightarrow> 0 | Some v \<Rightarrow> nonzero n v)"
| "nonzero (Suc n) (VBasic tname zero) = (if zero then 0 else 1)"
| "nonzero (Suc n) VOther = 0"

text \<open>A value cut off below the \<open>n\<close>-th level.\<close>

fun cut :: "nat \<Rightarrow> gval \<Rightarrow> gval" where
  "cut 0 v = VOther"
| "cut (Suc n) (VStruct fs) = VStruct (map (map_prod id (cut n)) fs)"
| "cut (Suc n) (VPtr p) = VPtr (map_option (cut n) p)"
| "cut (Suc n) (VBasic tname zero) = VBasic tname zero"
| "cut (Suc n) VOther = VOther"

text \<open>One report per non-zero value; the first one of all is printed.\<close>

definition reported :: "nat \<Rightarrow> gob_state \<Rightarrow> gob_state \<Rightarrow> bool" where
  "reported k st st' \<longleftrightarrow> errorCount st' = errorCount st + int k \<and> checked st' = checked st \<and> printed st' = printed st \<and>
     length (warned st') = length (warned st) + (if errorCount st < 1 \<and> 0 < k then 1 else 0)"

lemma reported_refl: "reported 0 st st"
  by (simp add: reported_def)

lemma reported_trans: "reported j st st1 \<Longrightarrow> reported k st1 st2 \<Longrightarrow> 0 \<le> errorCount st \<Longrightarrow> reported (j + k) st st2"
  by (auto simp: reported_def)

lemma reported_one: "reported 1 st (report_default tname name st)"
  by (simp add: reported_def report_default_def Let_def)

lemma checkDefault1_deep: "3 < depth \<Longrightarrow> checkDefault1 v depth name st = st"
  by (induction v depth name st rule: checkDefault1_checkDefault_fields.induct(1)
      [where Q = "\<lambda>fs depth name st. True"]) auto

lemma checkDefault1_reported:
  "0 \<le> errorCount st \<Longrightarrow> depth \<le> 4 \<Longrightarrow> reported (nonzero (4 - depth) v) st (checkDefault1 v depth name st)"
  "0 \<le> errorCount st \<Longrightarrow> depth \<le> 3 \<Longrightarrow>
     reported (sum_list (map (nonzero (3 - depth) \<circ> snd) fs)) st (checkDefault_fields fs depth name st)"
proof (induction v depth name st and fs depth name st rule: checkDefault1_checkDefault_fields.induct)
  case (1 fs depth name st)
  then show ?case by (cases "depth = 4") (simp_all add: reported_refl Suc_diff_le numeral_eq_Suc o_def)
next
  case (2 depth name st)
  then show ?case by (cases "4 - depth") (simp_all add: reported_refl)
next
  case (3 v depth name st)
  then show ?case by (cases "depth = 4") (simp_all add: reported_refl Suc_diff_le numeral_eq_Suc)
next
  case (4 tname zero depth name st)
  then show ?case using reported_one
    by (cases "depth = 4") (simp_all add: reported_refl Suc_diff_le numeral_eq_Suc)
next
  case (5 depth name st)
  then show ?case by (cases "4 - depth") (simp_all add: reported_refl)
next
  case (6 depth name st)
  then show ?case by (simp add: reported_refl)
next
  case (7 f v fs depth name st)
  let ?name = "if name \<noteq> [] then name @ ''.'' @ f else f"
  let ?st = "checkDefault1 v (depth + 1) ?name st"
  have one: "reported (nonzero (3 - depth) v) st ?st" using 7(1) [OF refl 7(3)] 7(4) by simp
  then have "0 \<le> errorCount ?st" using 7(3) by (simp add: reported_def)
  then show ?case using reported_trans [OF one] 7(2) [OF refl] 7(3,4) by (simp add: Let_def)
qed

lemma nonzero_cut: "nonzero n (cut n v) = nonzero n v"
proof (induction n v rule: nonzero.induct)
  case (2 n fs)
  then show ?case by (auto simp: comp_def intro!: arg_cong [of _ _ sum_list] map_cong)
qed (auto split: option.split)

subsection \<open>Encoders and decoders\<close>

text \<open>
  \<open>typeOf\<close> is \<open>reflect.TypeOf\<close> (\<open>None\<close> for nil, whose \<open>Kind\<close> panics); \<open>view\<close> is the value as the
  default check sees it; \<open>gob\<close> is the wrapped call of \<open>encoding/gob\<close>.
\<close>

definition checkValue :: "type_table \<Rightarrow> ('v \<Rightarrow> tid option) \<Rightarrow> 'v \<Rightarrow> gob_state \<Rightarrow> gob_state go" where
  "checkValue tt typeOf e st =
     (case typeOf e of None \<Rightarrow> Panic ''nil pointer dereference'' | Some t \<Rightarrow> Ret (checkType tt t st))"

definition Encode :: "type_table \<Rightarrow> ('v \<Rightarrow> tid option) \<Rightarrow> ('v \<Rightarrow> 'r) \<Rightarrow> 'v \<Rightarrow> gob_state \<Rightarrow> ('r \<times> gob_state) go" where
  "Encode tt typeOf gob e st = go_bind (checkValue tt typeOf e st) (\<lambda>st'. Ret (gob e, st'))"

definition EncodeValue :: "type_table \<Rightarrow> ('v \<Rightarrow> tid option) \<Rightarrow> ('v \<Rightarrow> 'r) \<Rightarrow> 'v \<Rightarrow> gob_state \<Rightarrow> ('r \<times> gob_state) go" where
  "EncodeValue tt typeOf gob v st = go_bind (checkValue tt typeOf v st) (\<lambda>st'. Ret (gob v, st'))"

definition Decode :: "type_table \<Rightarrow> ('v \<Rightarrow> tid option) \<Rightarrow> ('v \<Rightarrow> gval option) \<Rightarrow> ('v \<Rightarrow> 'r) \<Rightarrow> 'v \<Rightarrow> gob_state \<Rightarrow>
    ('r \<times> gob_state) go" where
  "Decode tt typeOf view gob e st =
     go_bind (checkValue tt typeOf e st) (\<lambda>st'. Ret (gob e, checkDefault (view e) st'))"

definition gob_Register :: "type_table \<Rightarrow> ('v \<Rightarrow> tid option) \<Rightarrow> ('v \<Rightarrow> 'r) \<Rightarrow> 'v \<Rightarrow> gob_state \<Rightarrow> ('r \<times> gob_state) go" where
  "gob_Register tt typeOf gob v st = go_bind (checkValue tt typeOf v st) (\<lambda>st'. Ret (gob v, st'))"

definition gob_RegisterName :: "type_table \<Rightarrow> ('v \<Rightarrow> tid option) \<Rightarrow> (string \<Rightarrow> 'v \<Rightarrow> 'r) \<Rightarrow> string \<Rightarrow> 'v \<Rightarrow>
    gob_state \<Rightarrow> ('r \<times> gob_state) go" where
  "gob_RegisterName tt typeOf gob name v st = go_bind (checkValue tt typeOf v st) (\<lambda>st'. Ret (gob name v, st'))"

subsection \<open>Properties\<close>


text \<open>
  The traversal with an explicit stack satisfies the recursive equation of the source: a type
  already checked is skipped; otherwise it is marked, and for a struct each field name is checked
  before the field's type, for a map the element type before the key type.
\<close>

theorem checkType_source_recursion:
  "checkType tt t st =
     (if t \<in> checked st then st
      else let st' = st\<lparr>checked := insert t (checked st)\<rparr>
           in case kind_of tt t of
                KStruct tname flds \<Rightarrow> fold (\<lambda>(f, u) st. checkType tt u (check_field tname f st)) flds st'
              | KElem e \<Rightarrow> checkType tt e st'
              | KMap key elem \<Rightarrow> checkType tt key (checkType tt elem st')
              | KOther \<Rightarrow> st')"
  unfolding checkType_rec [of tt t st] check_fields_def ..

text \<open>
  \<open>checkDefault\<close> counts one error for every non-zero basic value within three levels of structs
  and pointers, looks at nothing deeper, and prints a warning only for the first error of all.
\<close>

theorem checkDefault_depth:
  assumes "0 \<le> errorCount st"
  shows "errorCount (checkDefault (Some v) st) = errorCount st + int (nonzero 3 v) \<and>
    errorCount (checkDefault (Some (cut 3 v)) st) = errorCount (checkDefault (Some v) st) \<and>
    length (warned (checkDefault (Some v) st)) =
      length (warned st) + (if errorCount st < 1 \<and> 0 < nonzero 3 v then 1 else 0)"
  using checkDefault1_reported(1) [OF assms, of 1 v "[]"] checkDefault1_reported(1) [OF assms, of 1 "cut 3 v" "[]"]
  by (simp add: checkDefault_def reported_def nonzero_cut)

theorem checkDefault_depth_witness:
  "errorCount (checkDefault (Some (VPtr (Some (VStruct [(''Term'', VBasic ''int'' False), (''Ok'', VBasic ''bool'' True)])))) gob_init) = 1"
  using checkDefault_depth [of gob_init "VPtr (Some (VStruct [(''Term'', VBasic ''int'' False), (''Ok'', VBasic ''bool'' True)]))"]
  by (simp add: gob_init_def numeral_eq_Suc)

end
