(* ===== verification/Labrpc.thy ===== *)
theory Labrpc
  imports Lab_Prelude
begin

text \<open>
  The simulated network of the Raft lab (\<open>lab2/labrpc/labrpc.go\<close>): a network of client end-points,
  connections and servers, and the life of one remote call.

  A server is reached through a pointer, and \<open>isServerDead\<close> compares pointers, so the network holds
  addresses and a store from addresses to servers. The encoder and decoder (\<open>labgob\<close> around
  \<open>encoding/gob\<close>) and the methods of the receiver object are parameters. The random choices are a
  stream, and the network that a request sees at its 100 ms polls and at its last check may be
  different from the one it started with, because other threads change it: those are arguments too.
\<close>

subsection \<open>Messages, services, servers\<close>

text \<open>The dynamic values used as names: \<open>interface{}\<close> holding a string or an integer.\<close>

datatype iface = IStr string | IInt int

record reqMsg =
  rq_endname :: iface
  rq_svcMeth :: string
  rq_argsType :: string
  rq_args :: "byte list"

record replyMsg =
  rp_ok :: bool
  rp_reply :: "byte list"

definition fail_reply :: replyMsg where
  "fail_reply = \<lparr>rp_ok = False, rp_reply = []\<rparr>"

text \<open>Encoding gives the bytes written and an error; decoding gives the variable's content and an
  error.\<close>

record 'v codec =
  cd_enc :: "'v \<Rightarrow> byte list \<times> string option"
  cd_dec :: "string \<Rightarrow> byte list \<Rightarrow> 'v \<times> string option"

text \<open>A method as \<open>reflect\<close> describes it, with its effect on an argument.\<close>

record 'v rmethod =
  m_name :: string
  m_PkgPath :: string
  m_NumIn :: int
  m_In2_ptr :: bool
  m_NumOut :: int
  m_Func :: "'v \<Rightarrow> 'v go"

record 'v Service =
  svc_name :: string
  svc_methods :: "(string, 'v rmethod) gomap"

record 'v Server =
  services :: "(string, 'v Service) gomap"
  srv_count :: int

definition is_handler :: "'v rmethod \<Rightarrow> bool" where
  "is_handler m \<longleftrightarrow> \<not> (m_PkgPath m \<noteq> [] \<or> m_NumIn m \<noteq> 3 \<or> \<not> m_In2_ptr m \<or> m_NumOut m \<noteq> 0)"

definition MakeService :: "string \<Rightarrow> 'v rmethod list \<Rightarrow> 'v Service" where
  "MakeService tname ms =
     \<lparr>svc_name = tname,
      svc_methods = fold (\<lambda>m acc. if is_handler m then gm_put (m_name m) m acc else acc) ms []\<rparr>"

definition MakeServer :: "'v Server" where
  "MakeServer = \<lparr>services = [], srv_count = 0\<rparr>"

definition AddService :: "'v Service \<Rightarrow> 'v Server \<Rightarrow> 'v Server" where
  "AddService svc rs = rs\<lparr>services := gm_put (svc_name svc) svc (services rs)\<rparr>"

definition srv_GetCount :: "'v Server \<Rightarrow> int" where
  "srv_GetCount rs = srv_count rs"

definition svc_dispatch :: "'v codec \<Rightarrow> string \<Rightarrow> reqMsg \<Rightarrow> 'v Service \<Rightarrow> replyMsg go" where
  "svc_dispatch cd methname req svc =
     (case gm_get (svc_methods svc) methname of
        Some m \<Rightarrow>
          go_bind (m_Func m (fst (cd_dec cd (rq_argsType req) (rq_args req))))
            (\<lambda>replyv. Ret \<lparr>rp_ok = True, rp_reply = fst (cd_enc cd replyv)\<rparr>)
      | None \<Rightarrow> Fatal ''labrpc.Service.dispatch(): unknown method'')"

text \<open>\<open>strings.LastIndex\<close> for a one-character separator.\<close>

definition LastIndex :: "string \<Rightarrow> char \<Rightarrow> int" where
  "LastIndex s c =
     (if c \<in> set s then int (length s) - 1 - int (length (takeWhile (\<lambda>x. x \<noteq> c) (rev s))) else - 1)"

text \<open>The call counts before the name is split; a name without a dot makes the slice expression
  panic.\<close>

definition srv_dispatch :: "'v codec \<Rightarrow> reqMsg \<Rightarrow> 'v Server \<Rightarrow> (replyMsg \<times> 'v Server) go" where
  "srv_dispatch cd req rs =
     (let rs' = rs\<lparr>srv_count := srv_count rs + 1\<rparr>;
          dot = LastIndex (rq_svcMeth req) CHR ''.''
      in if dot < 0 then Panic ''slice bounds out of range''
         else
           let serviceName = take (nat dot) (rq_svcMeth req);
               methodName = drop (nat dot + 1) (rq_svcMeth req)
           in case gm_get (services rs') serviceName of
                Some service \<Rightarrow> go_bind (svc_dispatch cd methodName req service) (\<lambda>r. Ret (r, rs'))
              | None \<Rightarrow> Fatal ''labrpc.Server.dispatch(): unknown service'')"

subsection \<open>The network\<close>

type_synonym addr = nat

record ClientEnd =
  ce_endname :: iface

record 'v Network =
  reliable :: bool
  longDelays :: bool
  longReordering :: bool
  net_ends :: "(iface, ClientEnd) gomap"
  net_enabled :: "(iface, bool) gomap"
  net_servers :: "(iface, addr option) gomap"
  connections :: "(iface, iface option) gomap"
  net_store :: "addr \<Rightarrow> 'v Server"
  net_done :: bool
  net_count :: u32
  net_bytes :: u64

definition MakeNetwork :: "'v Network" where
  "MakeNetwork =
     \<lparr>reliable = True, longDelays = False, longReordering = False, net_ends = [], net_enabled = [],
      net_servers = [], connections = [], net_store = (\<lambda>_. MakeServer), net_done = False, net_count = 0, net_bytes = 0\<rparr>"

text \<open>The goroutine of \<open>MakeNetwork\<close> on one request: it counts the request and its bytes.\<close>

definition net_receive :: "reqMsg \<Rightarrow> 'v Network \<Rightarrow> 'v Network" where
  "net_receive xreq rn =
     rn\<lparr>net_count := net_count rn + 1, net_bytes := net_bytes rn + of_nat (length (rq_args xreq))\<rparr>"

text \<open>Closing a closed channel panics.\<close>

definition Cleanup :: "'v Network \<Rightarrow> 'v Network go" where
  "Cleanup rn = (if net_done rn then Panic ''close of closed channel'' else Ret (rn\<lparr>net_done := True\<rparr>))"

definition Reliable :: "bool \<Rightarrow> 'v Network \<Rightarrow> 'v Network" where
  "Reliable yes rn = rn\<lparr>reliable := yes\<rparr>"

definition LongReordering :: "bool \<Rightarrow> 'v Network \<Rightarrow> 'v Network" where
  "LongReordering yes rn = rn\<lparr>longReordering := yes\<rparr>"

definition LongDelays :: "bool \<Rightarrow> 'v Network \<Rightarrow> 'v Network" where
  "LongDelays yes rn = rn\<lparr>longDelays := yes\<rparr>"

definition readEndnameInfo :: "iface \<Rightarrow> 'v Network \<Rightarrow> bool \<times> iface option \<times> addr option \<times> bool \<times> bool" where
  "readEndnameInfo endname rn =
     (let enabled = gm_getz False (net_enabled rn) endname;
          servername = gm_getz None (connections rn) endname;
          server = (case servername of None \<Rightarrow> None | Some sn \<Rightarrow> gm_getz None (net_servers rn) sn)
      in (enabled, servername, server, reliable rn, longReordering rn))"

definition isServerDead :: "iface \<Rightarrow> iface \<Rightarrow> addr option \<Rightarrow> 'v Network \<Rightarrow> bool" where
  "isServerDead endname servername server rn \<longleftrightarrow>
     gm_getz False (net_enabled rn) endname = False \<or> gm_getz None (net_servers rn) servername \<noteq> server"

definition MakeEnd :: "iface \<Rightarrow> 'v Network \<Rightarrow> (ClientEnd \<times> 'v Network) go" where
  "MakeEnd endname rn =
     (if gm_get (net_ends rn) endname \<noteq> None then Fatal ''MakeEnd: already exists''
      else let e = \<lparr>ce_endname = endname\<rparr>
           in Ret (e, rn\<lparr>net_ends := gm_put endname e (net_ends rn),
                         net_enabled := gm_put endname False (net_enabled rn),
                         connections := gm_put endname None (connections rn)\<rparr>))"

text \<open>\<open>a\<close> is the address of the server object that the caller allocated.\<close>

definition AddServer :: "iface \<Rightarrow> addr \<Rightarrow> 'v Server \<Rightarrow> 'v Network \<Rightarrow> 'v Network" where
  "AddServer servername a rs rn =
     rn\<lparr>net_servers := gm_put servername (Some a) (net_servers rn), net_store := (net_store rn)(a := rs)\<rparr>"

definition DeleteServer :: "iface \<Rightarrow> 'v Network \<Rightarrow> 'v Network" where
  "DeleteServer servername rn = rn\<lparr>net_servers := gm_put servername None (net_servers rn)\<rparr>"

definition Connect :: "iface \<Rightarrow> iface \<Rightarrow> 'v Network \<Rightarrow> 'v Network" where
  "Connect endname servername rn = rn\<lparr>connections := gm_put endname (Some servername) (connections rn)\<rparr>"

definition Enable :: "iface \<Rightarrow> bool \<Rightarrow> 'v Network \<Rightarrow> 'v Network" where
  "Enable endname enabled rn = rn\<lparr>net_enabled := gm_put endname enabled (net_enabled rn)\<rparr>"

definition net_GetCount :: "iface \<Rightarrow> 'v Network \<Rightarrow> int go" where
  "net_GetCount servername rn =
     (case gm_getz None (net_servers rn) servername of
        None \<Rightarrow> Panic ''nil pointer dereference''
      | Some a \<Rightarrow> Ret (srv_GetCount (net_store rn a)))"

definition GetTotalCount :: "'v Network \<Rightarrow> int" where
  "GetTotalCount rn = sint (net_count rn)"

definition GetTotalBytes :: "'v Network \<Rightarrow> int" where
  "GetTotalBytes rn = sint (net_bytes rn)"

subsection \<open>The life of a request\<close>

text \<open>
  The waiting loop of \<open>processReq\<close>: a poll every 100 ms until the handler's result is there. The polls that
  happen before the result are given by the networks they see, and \<open>rest\<close> is the number of milliseconds from the last of
  them to the result; the result is \<open>Hang\<close> for a handler that never returns. The loop gives the reply, if
  it came before a poll found the server dead, and how long it waited.
\<close>

fun await_reply :: "('n \<Rightarrow> bool) \<Rightarrow> 'n list \<Rightarrow> nat \<Rightarrow> 'r go \<Rightarrow> ('r option \<times> nat) go" where
  "await_reply dead [] rest r = go_bind r (\<lambda>x. Ret (Some x, rest))"
| "await_reply dead (n # ns) rest r =
     (if dead n then Ret (None, 100) else go_bind (await_reply dead ns rest r) (\<lambda>(x, ms). Ret (x, ms + 100)))"

text \<open>What \<open>processReq\<close> sends back, after how many milliseconds since the request came in, and by how many bytes it
  raises the statistics.\<close>

record outcome =
  o_reply :: replyMsg
  o_delay :: int
  o_bytes :: nat

definition fail_after :: "int \<Rightarrow> outcome" where
  "fail_after ms = \<lparr>o_reply = fail_reply, o_delay = ms, o_bytes = 0\<rparr>"

definition lossy :: "bool \<Rightarrow> rng \<Rightarrow> bool \<times> rng" where
  "lossy rel rng = (if rel then (False, rng) else (shd rng mod 1000 < 100, stl rng))"

definition short_delay :: "bool \<Rightarrow> rng \<Rightarrow> nat \<times> rng" where
  "short_delay rel rng = (if rel then (0, rng) else draw 27 rng)"

definition send_reply :: "bool \<Rightarrow> bool \<Rightarrow> int \<Rightarrow> rng \<Rightarrow> replyMsg \<Rightarrow> outcome" where
  "send_reply rel reorder ms0 rng reply =
     (let (drop_reply, rng1) = lossy rel rng
      in if drop_reply then fail_after ms0
         else if reorder \<and> shd rng1 mod 900 < 600
         then let (k, rng2) = draw 2000 (stl rng1); (j, _) = draw (1 + k) rng2
              in \<lparr>o_reply = reply, o_delay = ms0 + 200 + int j, o_bytes = length (rp_reply reply)\<rparr>
         else \<lparr>o_reply = reply, o_delay = ms0, o_bytes = length (rp_reply reply)\<rparr>)"

definition processReq :: "'v codec \<Rightarrow> rng \<Rightarrow> 'v Network list \<Rightarrow> nat \<Rightarrow> 'v Network \<Rightarrow> reqMsg \<Rightarrow> 'v Network \<Rightarrow> outcome go" where
  "processReq cd rng polls rest final req rn =
     (case readEndnameInfo (rq_endname req) rn of
        (True, Some servername, Some server, rel, reorder) \<Rightarrow>
          (let (ms0, rng1) = short_delay rel rng;
               (drop_req, rng2) = lossy rel rng1
           in if drop_req then Ret (fail_after (int ms0))
              else
                go_bind (await_reply (isServerDead (rq_endname req) servername (Some server)) polls rest
                           (srv_dispatch cd req (net_store rn server)))
                  (\<lambda>(r, waited). case r of
                         None \<Rightarrow> Ret (fail_after (int (ms0 + waited)))
                       | Some (reply, _) \<Rightarrow>
                           if isServerDead (rq_endname req) servername (Some server) final
                           then Ret (fail_after (int (ms0 + waited)))
                           else Ret (send_reply rel reorder (int (ms0 + waited)) rng2 reply)))
      | _ \<Rightarrow> Ret (fail_after (int (shd rng mod (if longDelays rn then 7000 else 100)))))"

text \<open>What processing leaves behind in the network: \<open>dispatch\<close> has raised the counter of the server it ran on,
  whatever became of the reply, and the bytes of a delivered reply are added to the total.\<close>

definition dispatched :: "rng \<Rightarrow> reqMsg \<Rightarrow> 'v Network \<Rightarrow> addr option" where
  "dispatched rng req rn =
     (case readEndnameInfo (rq_endname req) rn of
        (True, Some _, Some server, rel, _) \<Rightarrow>
          (if fst (lossy rel (snd (short_delay rel rng))) then None else Some server)
      | _ \<Rightarrow> None)"

definition net_deliver :: "addr option \<Rightarrow> outcome \<Rightarrow> 'v Network \<Rightarrow> 'v Network" where
  "net_deliver srv out rn =
     (let rn1 = (case srv of None \<Rightarrow> rn
                 | Some a \<Rightarrow> rn\<lparr>net_store := (net_store rn)(a := (net_store rn a)\<lparr>srv_count := srv_count (net_store rn a) + 1\<rparr>)\<rparr>)
      in rn1\<lparr>net_bytes := net_bytes rn1 + of_nat (o_bytes out)\<rparr>)"

text \<open>\<open>Call\<close>: encode, hand the request over (which may fail only when the network has been cleaned up),
  wait for the reply, decode it.\<close>

definition Call :: "'v codec \<Rightarrow> bool \<Rightarrow> rng \<Rightarrow> 'v Network list \<Rightarrow> nat \<Rightarrow> 'v Network \<Rightarrow> ClientEnd \<Rightarrow>
    string \<Rightarrow> string \<Rightarrow> 'v \<Rightarrow> string \<Rightarrow> 'v Network \<Rightarrow> (bool \<times> 'v option) go" where
  "Call cd delivered rng polls rest final e svcMeth argsType args replyType rn =
     (case cd_enc cd args of
        (_, Some err) \<Rightarrow> Panic err
      | (data, None) \<Rightarrow>
          (if net_done rn \<and> \<not> delivered then Ret (False, None)
           else
             let req = \<lparr>rq_endname = ce_endname e, rq_svcMeth = svcMeth, rq_argsType = argsType, rq_args = data\<rparr>
             in go_bind (processReq cd rng polls rest final req (net_receive req rn)) (\<lambda>out.
                  if rp_ok (o_reply out)
                  then case cd_dec cd replyType (rp_reply (o_reply out)) of
                         (_, Some err) \<Rightarrow> Fatal ''ClientEnd.Call(): decode reply''
                       | (reply, None) \<Rightarrow> Ret (True, Some reply)
                  else Ret (False, None))))"

subsection \<open>Splitting service and method\<close>

lemma LastIndex_append:
  assumes "c \<notin> set meth"
  shows "LastIndex (svc @ c # meth) c = int (length svc)"
proof -
  have "takeWhile (\<lambda>x. x \<noteq> c) (rev meth @ c # rev svc) = rev meth"
    using assms by (subst takeWhile_append2) auto
  then show ?thesis by (simp add: LastIndex_def)
qed

lemma srv_dispatch_named:
  assumes "CHR ''.'' \<notin> set meth" "rq_svcMeth req = svc @ CHR ''.'' # meth" "gm_get (services rs) svc = Some service"
  shows "srv_dispatch cd req rs =
    go_bind (svc_dispatch cd meth req service) (\<lambda>r. Ret (r, rs\<lparr>srv_count := srv_count rs + 1\<rparr>))"
  using assms by (simp add: srv_dispatch_def LastIndex_append Let_def)

lemma srv_dispatch_ok: "srv_dispatch cd req rs = Ret (r, rs') \<Longrightarrow> rp_ok r \<and> srv_count rs' = srv_count rs + 1"
  by (auto simp: srv_dispatch_def svc_dispatch_def Let_def go_bind_Ret_iff split: if_splits option.splits)

lemma MakeService_methods:
  "gm_get (svc_methods (MakeService tname ms)) n = Some m \<Longrightarrow> m \<in> set ms \<and> is_handler m \<and> m_name m = n"
proof -
  have "gm_get (fold (\<lambda>m acc. if is_handler m then gm_put (m_name m) m acc else acc) ms acc) n = Some m \<Longrightarrow>
      gm_get acc n = Some m \<or> m \<in> set ms \<and> is_handler m \<and> m_name m = n" for acc
  proof (induction ms arbitrary: acc)
    case (Cons a ms)
    let ?acc = "if is_handler a then gm_put (m_name a) a acc else acc"
    have "gm_get ?acc n = Some m \<or> m \<in> set ms \<and> is_handler m \<and> m_name m = n"
      by (rule Cons.IH) (use Cons.prems in simp)
    then show ?case by (auto split: if_splits)
  qed simp
  from this [of "[]"] show "gm_get (svc_methods (MakeService tname ms)) n = Some m \<Longrightarrow> ?thesis"
    by (simp add: MakeService_def)
qed

subsection \<open>Waiting and replying\<close>

lemma await_reply_Ret:
  "await_reply dead ns rest r = Ret (Some x, ms) \<longleftrightarrow> r = Ret x \<and> (\<forall>n \<in> set ns. \<not> dead n) \<and> ms = 100 * length ns + rest"
  by (induction ns arbitrary: ms) (auto simp: go_bind_Ret_iff)

lemma await_reply_Hang:
  "await_reply dead ns rest r = Hang \<longleftrightarrow> r = Hang \<and> (\<forall>n \<in> set ns. \<not> dead n)"
  by (induction ns) (auto simp: go_bind_def split: go.splits)

text \<open>A dead server is noticed at the first poll that sees it, whatever the handler does.\<close>

lemma await_reply_dead:
  "i < length ns \<Longrightarrow> dead (ns ! i) \<Longrightarrow> \<exists>ms. await_reply dead ns rest r = Ret (None, ms) \<and> ms \<le> 100 * (i + 1)"
proof (induction ns arbitrary: i)
  case (Cons n ns)
  show ?case
  proof (cases "dead n")
    case False
    then obtain j where "i = Suc j" using Cons.prems(2) by (cases i) auto
    then obtain ms where "await_reply dead ns rest r = Ret (None, ms)" "ms \<le> 100 * (j + 1)" using Cons by auto
    then show ?thesis using False \<open>i = Suc j\<close> by auto
  qed simp
qed simp

lemma await_reply_bound: "await_reply dead ns rest r = Ret (x, ms) \<Longrightarrow> ms \<le> 100 * length ns + rest"
  by (induction ns arbitrary: x ms) (auto simp: go_bind_Ret_iff split: if_splits)

lemma lossy_reliable [simp]: "lossy True rng = (False, rng)"
  by (simp add: lossy_def)

lemma fail_after_simps [simp]:
  "rp_ok (o_reply (fail_after ms)) = False" "o_delay (fail_after ms) = ms" "o_bytes (fail_after ms) = 0"
  by (simp_all add: fail_after_def fail_reply_def)

lemma send_reply_cases:
  "rp_ok (o_reply (send_reply rel reorder ms rng reply)) \<Longrightarrow> o_reply (send_reply rel reorder ms rng reply) = reply"
  by (auto simp: send_reply_def Let_def split: prod.splits if_splits)

lemma send_reply_reliable: "o_reply (send_reply True reorder ms rng reply) = reply"
  by (simp add: send_reply_def Let_def split: prod.split)

lemma send_reply_delay:
  "ms \<le> o_delay (send_reply rel reorder ms rng reply) \<and> o_delay (send_reply rel reorder ms rng reply) < ms + 2200"
proof -
  have "j < 2000" if "draw 2000 r = (k, r')" "draw (1 + k) r' = (j, r'')" for r r' r'' j k
    using draw_less [of 2000 r] draw_less [of "1 + k" r'] that by simp
  then show ?thesis
    by (auto simp: send_reply_def Let_def split: prod.split)
qed

lemma readEndnameInfo_net_receive [simp]: "readEndnameInfo e (net_receive req rn) = readEndnameInfo e rn"
  by (simp add: readEndnameInfo_def net_receive_def Let_def split: option.split)

lemma net_store_receive [simp]: "net_store (net_receive req rn) = net_store rn"
  by (simp add: net_receive_def)

text \<open>An end is attached when it is enabled and connected to a server that exists.\<close>

definition attached :: "iface \<Rightarrow> iface \<Rightarrow> addr \<Rightarrow> 'v Network \<Rightarrow> bool" where
  "attached endname servername a rn \<longleftrightarrow>
     gm_getz False (net_enabled rn) endname \<and> gm_getz None (connections rn) endname = Some servername \<and>
     gm_getz None (net_servers rn) servername = Some a"

lemma readEndnameInfo_attached:
  "readEndnameInfo e rn = (True, Some sn, Some a, rel, reorder) \<longleftrightarrow>
     attached e sn a rn \<and> rel = reliable rn \<and> reorder = longReordering rn"
  by (auto simp: readEndnameInfo_def attached_def Let_def)

text \<open>Either the request finds an attached end, or it fails after a delay.\<close>

lemma processReq_cases:
  obtains (up) sn a where "readEndnameInfo (rq_endname req) rn = (True, Some sn, Some a, reliable rn, longReordering rn)"
  | (down) "\<And>sn a. \<not> attached (rq_endname req) sn a rn" "\<And>cd rng polls rest final. processReq cd rng polls rest final req rn =
      Ret (fail_after (int (shd rng mod (if longDelays rn then 7000 else 100))))"
proof (cases "\<exists>sn a. attached (rq_endname req) sn a rn")
  case True
  then show ?thesis using up readEndnameInfo_attached by blast
next
  case False
  have "processReq cd rng polls rest final req rn =
      Ret (fail_after (int (shd rng mod (if longDelays rn then 7000 else 100))))" for cd rng polls rest final
    using False
    by (cases "gm_getz False (net_enabled rn) (rq_endname req)"; cases "gm_getz None (connections rn) (rq_endname req)";
        cases "gm_getz None (net_servers rn) (the (gm_getz None (connections rn) (rq_endname req)))")
      (simp_all add: processReq_def readEndnameInfo_def attached_def Let_def)
  then show ?thesis using down False by blast
qed

lemma processReq_up:
  assumes "readEndnameInfo (rq_endname req) rn = (True, Some sn, Some a, rel, reorder)"
  shows "processReq cd rng polls rest final req rn =
    (let ms0 = fst (short_delay rel rng); l = lossy rel (snd (short_delay rel rng))
     in if fst l then Ret (fail_after (int ms0))
        else go_bind (await_reply (isServerDead (rq_endname req) sn (Some a)) polls rest (srv_dispatch cd req (net_store rn a)))
          (\<lambda>(r, waited). case r of None \<Rightarrow> Ret (fail_after (int (ms0 + waited)))
             | Some (reply, _) \<Rightarrow> if isServerDead (rq_endname req) sn (Some a) final then Ret (fail_after (int (ms0 + waited)))
                 else Ret (send_reply rel reorder (int (ms0 + waited)) (snd l) reply)))"
proof -
  obtain ms0 rng1 where d: "short_delay rel rng = (ms0, rng1)" by fastforce
  obtain l rng2 where "lossy rel rng1 = (l, rng2)" by fastforce
  with d show ?thesis
    using assms by (auto simp: processReq_def Let_def intro!: arg_cong2 [of _ _ _ _ go_bind] ext split: option.split)
qed

text \<open>How a request that was not lost ends.\<close>

lemma processReq_waited:
  assumes "readEndnameInfo (rq_endname req) rn = (True, Some sn, Some a, rel, reorder)"
    and "processReq cd rng polls rest final req rn = Ret out" "\<not> fst (lossy rel (snd (short_delay rel rng)))"
  obtains r ms where "await_reply (isServerDead (rq_endname req) sn (Some a)) polls rest (srv_dispatch cd req (net_store rn a)) = Ret (r, ms)"
    "(case r of None \<Rightarrow> out = fail_after (int (fst (short_delay rel rng) + ms))
      | Some (reply, _) \<Rightarrow> out = (if isServerDead (rq_endname req) sn (Some a) final then fail_after (int (fst (short_delay rel rng) + ms))
          else send_reply rel reorder (int (fst (short_delay rel rng) + ms)) (snd (lossy rel (snd (short_delay rel rng)))) reply))"
proof -
  obtain r ms where r: "await_reply (isServerDead (rq_endname req) sn (Some a)) polls rest (srv_dispatch cd req (net_store rn a)) = Ret (r, ms)"
    "(case r of None \<Rightarrow> Ret (fail_after (int (fst (short_delay rel rng) + ms)))
      | Some (reply, _) \<Rightarrow> if isServerDead (rq_endname req) sn (Some a) final then Ret (fail_after (int (fst (short_delay rel rng) + ms)))
          else Ret (send_reply rel reorder (int (fst (short_delay rel rng) + ms)) (snd (lossy rel (snd (short_delay rel rng)))) reply)) = Ret out"
    using assms(2,3) unfolding processReq_up [OF assms(1)] Let_def by (auto simp: go_bind_Ret_iff)
  show thesis by (rule that [OF r(1)]) (use r(2) in \<open>auto split: option.splits if_splits\<close>)
qed

lemma processReq_ok:
  assumes "processReq cd rng polls rest final req rn = Ret out" "rp_ok (o_reply out)"
  obtains sn a reply rs where "attached (rq_endname req) sn a rn"
    "srv_dispatch cd req (net_store rn a) = Ret (reply, rs)" "o_reply out = reply"
    "\<forall>n \<in> set (polls @ [final]). \<not> isServerDead (rq_endname req) sn (Some a) n"
proof (cases rule: processReq_cases [of req rn])
  case (up sn a)
  let ?d = "short_delay (reliable rn) rng"
  let ?l = "lossy (reliable rn) (snd ?d)"
  have "\<not> fst ?l" using assms unfolding processReq_up [OF up] Let_def by (auto split: if_splits)
  from processReq_waited [OF up assms(1) this] obtain r ms
    where r: "await_reply (isServerDead (rq_endname req) sn (Some a)) polls rest (srv_dispatch cd req (net_store rn a)) = Ret (r, ms)"
    "(case r of None \<Rightarrow> out = fail_after (int (fst ?d + ms))
      | Some (reply, _) \<Rightarrow> out = (if isServerDead (rq_endname req) sn (Some a) final then fail_after (int (fst ?d + ms))
          else send_reply (reliable rn) (longReordering rn) (int (fst ?d + ms)) (snd ?l) reply))" .
  then obtain reply rs where some: "r = Some (reply, rs)" "\<not> isServerDead (rq_endname req) sn (Some a) final"
    "out = send_reply (reliable rn) (longReordering rn) (int (fst ?d + ms)) (snd ?l) reply"
    using assms(2) by (auto split: option.splits if_splits)
  show ?thesis
  proof (rule that)
    show "attached (rq_endname req) sn a rn" using up readEndnameInfo_attached by blast
    show "srv_dispatch cd req (net_store rn a) = Ret (reply, rs)"
      "\<forall>n \<in> set (polls @ [final]). \<not> isServerDead (rq_endname req) sn (Some a) n"
      using r(1) some by (auto simp: await_reply_Ret)
    show "o_reply out = reply" using send_reply_cases assms(2) some(3) by blast
  qed
next
  case down
  then show ?thesis using assms by auto
qed

lemma Call_ok:
  assumes "reliable rn" and "attached (ce_endname e) sn a rn" and "\<not> net_done rn"
    and "gm_get (services (net_store rn a)) svc = Some service" and "gm_get (svc_methods service) meth = Some m"
    and "CHR ''.'' \<notin> set meth"
    and "cd_enc cd args = (data, None)" and "fst (cd_dec cd argsType data) = args"
    and "m_Func m args = Ret reply"
    and "cd_enc cd reply = (rdata, rerr)" and "cd_dec cd replyType rdata = (reply, None)"
    and "\<forall>n \<in> set (polls @ [final]). \<not> isServerDead (ce_endname e) sn (Some a) n"
  shows "Call cd delivered rng polls rest final e (svc @ CHR ''.'' # meth) argsType args replyType rn = Ret (True, Some reply)"
proof -
  let ?req = "\<lparr>rq_endname = ce_endname e, rq_svcMeth = svc @ CHR ''.'' # meth, rq_argsType = argsType, rq_args = data\<rparr>"
  let ?rs = "net_store rn a"
  have info: "readEndnameInfo (rq_endname ?req) (net_receive ?req rn) = (True, Some sn, Some a, True, longReordering rn)"
    using assms(1,2) by (simp add: readEndnameInfo_attached)
  have "svc_dispatch cd meth ?req service = Ret \<lparr>rp_ok = True, rp_reply = rdata\<rparr>"
    using assms(5,8,9,10) by (simp add: svc_dispatch_def)
  then have "srv_dispatch cd ?req ?rs = Ret (\<lparr>rp_ok = True, rp_reply = rdata\<rparr>, ?rs\<lparr>srv_count := srv_count ?rs + 1\<rparr>)"
    using srv_dispatch_named [of meth ?req svc ?rs service cd] assms(4,6) by simp
  then have "processReq cd rng polls rest final ?req (net_receive ?req rn) =
      Ret (send_reply True (longReordering rn) (int (100 * length polls + rest)) rng \<lparr>rp_ok = True, rp_reply = rdata\<rparr>)"
    unfolding processReq_up [OF info] using assms(12)
    by (simp add: Let_def short_delay_def await_reply_Ret [THEN iffD2])
  then show ?thesis using assms(3,7,11) by (simp add: Call_def Let_def send_reply_reliable)
qed

text \<open>The statistics after one undisturbed request: one more request in all and at the server, and the bytes
  of the arguments and of the reply.\<close>

lemma request_statistics:
  assumes "reliable rn" "attached (rq_endname req) sn a rn"
    and "srv_dispatch cd req (net_store rn a) = Ret (reply, rs)"
    and "\<not> isServerDead (rq_endname req) sn (Some a) final"
  shows "\<exists>out. processReq cd rng [] rest final req rn = Ret out \<and> o_reply out = reply \<and>
    (let rn' = net_deliver (dispatched rng req rn) out (net_receive req rn)
     in net_count rn' = net_count rn + 1 \<and>
        net_bytes rn' = net_bytes rn + of_nat (length (rq_args req)) + of_nat (length (rp_reply reply)) \<and>
        net_store rn' = (net_store rn)(a := (net_store rn a)\<lparr>srv_count := srv_count (net_store rn a) + 1\<rparr>))"
proof -
  have info: "readEndnameInfo (rq_endname req) rn = (True, Some sn, Some a, True, longReordering rn)"
    using assms(1,2) by (simp add: readEndnameInfo_attached)
  let ?out = "send_reply True (longReordering rn) (int rest) rng reply"
  have "processReq cd rng [] rest final req rn = Ret ?out"
    unfolding processReq_up [OF info] using assms(3,4) by (simp add: Let_def short_delay_def)
  moreover have "o_bytes ?out = length (rp_reply reply)" by (simp add: send_reply_def Let_def split: prod.split)
  moreover have "dispatched rng req rn = Some a" by (simp add: dispatched_def info)
  ultimately show ?thesis
    by (simp add: send_reply_reliable net_deliver_def net_receive_def Let_def)
qed

subsection \<open>Properties\<close>

text \<open>A network for the witnesses: one end, one server with one echo method, a codec of single bytes.\<close>

definition echo_codec :: "nat codec" where
  "echo_codec = \<lparr>cd_enc = (\<lambda>v. ([of_nat v], None)), cd_dec = (\<lambda>t bs. (unat (hd bs), None))\<rparr>"

definition echo_method :: "nat rmethod" where
  "echo_method = \<lparr>m_name = ''Echo'', m_PkgPath = [], m_NumIn = 3, m_In2_ptr = True, m_NumOut = 0, m_Func = (\<lambda>v. Ret (v + 1))\<rparr>"

definition echo_server :: "nat Server" where
  "echo_server = AddService (MakeService ''Srv'' [echo_method]) MakeServer"

definition echo_net :: "nat Network" where
  "echo_net = Enable (IStr ''e'') True (Connect (IStr ''e'') (IInt 0) (AddServer (IInt 0) 7 echo_server MakeNetwork))"

lemma echo_net_facts:
  "attached (IStr ''e'') (IInt 0) 7 echo_net" "reliable echo_net" "net_done echo_net = False"
  "\<not> isServerDead (IStr ''e'') (IInt 0) (Some 7) echo_net"
  "gm_get (services (net_store echo_net 7)) ''Srv'' = Some (MakeService ''Srv'' [echo_method])"
  "gm_get (svc_methods (MakeService ''Srv'' [echo_method])) ''Echo'' = Some echo_method"
  by (simp_all add: echo_net_def echo_server_def echo_method_def attached_def isServerDead_def Enable_def Connect_def
      AddServer_def MakeNetwork_def AddService_def MakeService_def MakeServer_def is_handler_def gm_getz_def)

text \<open>
  C16: over a reliable network, a call through an enabled end that is connected to a live server
  returns true with the method's reply: the name \<open>svc.meth\<close> is split at its last dot, the arguments
  arrive as they were sent and the reply comes back as the method produced it, for every value the
  encoding carries faithfully. Delayed and reordered replies change nothing but the time.
\<close>

theorem Call_round_trip:
  assumes "reliable rn" and "attached (ce_endname e) sn a rn" and "\<not> net_done rn"
    and "gm_get (services (net_store rn a)) svc = Some service" and "gm_get (svc_methods service) meth = Some m"
    and "CHR ''.'' \<notin> set meth"
    and "cd_enc cd args = (data, None)" and "fst (cd_dec cd argsType data) = args"
    and "m_Func m args = Ret reply"
    and "cd_enc cd reply = (rdata, rerr)" and "cd_dec cd replyType rdata = (reply, None)"
    and "\<forall>n \<in> set (polls @ [final]). \<not> isServerDead (ce_endname e) sn (Some a) n"
  shows "Call cd delivered rng polls rest final e (svc @ CHR ''.'' # meth) argsType args replyType rn = Ret (True, Some reply)"
  using assms by (rule Call_ok)

theorem Call_round_trip_witness:
  "Call echo_codec True (sconst 0) [echo_net] 40 echo_net \<lparr>ce_endname = IStr ''e''\<rparr> ''Srv.Echo'' ''int'' 41 ''int'' echo_net = Ret (True, Some 42)"
  using Call_round_trip [of echo_net "\<lparr>ce_endname = IStr ''e''\<rparr>" "IInt 0" 7 "''Srv''" "MakeService ''Srv'' [echo_method]" "''Echo''"
    echo_method echo_codec 41 "[41]" "''int''" 42 "[42]" None "''int''" "[echo_net]" echo_net True "sconst 0" 40] echo_net_facts
  by (simp add: echo_codec_def echo_method_def)

text \<open>
  C5: \<open>Call\<close> returns true only if the server ran the request: the end was attached to a server when the
  request was processed, that very server (the same object, not a later one of the same name) was
  still registered and the end still enabled at every poll and at the last check before the reply, and
  the reply is the decoding of what this server's dispatch returned. So a client never gets a positive
  answer from a server that \<open>DeleteServer\<close> had removed.
\<close>

theorem Call_true_only_from_live_server:
  assumes "Call cd delivered rng polls rest final e svcMeth argsType args replyType rn = Ret (True, v)"
  shows "\<exists>sn a req reply rs. attached (ce_endname e) sn a rn \<and> rq_svcMeth req = svcMeth \<and>
    srv_dispatch cd req (net_store rn a) = Ret (reply, rs) \<and> cd_dec cd replyType (rp_reply reply) = (the v, None) \<and>
    (\<forall>n \<in> set (polls @ [final]). gm_getz False (net_enabled n) (ce_endname e) \<and> gm_getz None (net_servers n) sn = Some a)"
proof -
  obtain data where data: "cd_enc cd args = (data, None)"
    using assms by (auto simp: Call_def split: prod.splits option.splits)
  let ?req = "\<lparr>rq_endname = ce_endname e, rq_svcMeth = svcMeth, rq_argsType = argsType, rq_args = data\<rparr>"
  obtain out where out: "processReq cd rng polls rest final ?req (net_receive ?req rn) = Ret out" "rp_ok (o_reply out)"
    "cd_dec cd replyType (rp_reply (o_reply out)) = (the v, None)"
    using assms data by (auto simp: Call_def Let_def go_bind_Ret_iff split: if_splits prod.splits option.splits)
  obtain sn a reply rs where up: "attached (rq_endname ?req) sn a (net_receive ?req rn)"
    "srv_dispatch cd ?req (net_store (net_receive ?req rn) a) = Ret (reply, rs)" "o_reply out = reply"
    "\<forall>n \<in> set (polls @ [final]). \<not> isServerDead (rq_endname ?req) sn (Some a) n"
    using processReq_ok [OF out(1,2)] by blast
  have "attached (ce_endname e) sn a rn" using up(1) by (simp add: attached_def net_receive_def)
  moreover have "\<forall>n \<in> set (polls @ [final]). gm_getz False (net_enabled n) (ce_endname e) \<and> gm_getz None (net_servers n) sn = Some a"
    using up(4) by (simp add: isServerDead_def)
  ultimately show ?thesis using up(2,3) out(3) by (intro exI [of _ sn] exI [of _ a] exI [of _ ?req]) auto
qed

lemma echo_call:
  "Call echo_codec True (sconst 0) [] 40 echo_net \<lparr>ce_endname = IStr ''e''\<rparr> ''Srv.Echo'' ''int'' 41 ''int'' echo_net = Ret (True, Some 42)"
  using Call_ok [of echo_net "\<lparr>ce_endname = IStr ''e''\<rparr>" "IInt 0" 7 "''Srv''" "MakeService ''Srv'' [echo_method]" "''Echo''"
    echo_method echo_codec 41 "[41]" "''int''" 42 "[42]" None "''int''" "[]" echo_net True "sconst 0" 40] echo_net_facts
  by (simp add: echo_codec_def echo_method_def)

theorem Call_true_only_from_live_server_witness:
  "\<exists>sn a. attached (IStr ''e'') sn a echo_net"
  using Call_true_only_from_live_server [OF echo_call] by auto

text \<open>A server whose only method never returns.\<close>

definition stuck_net :: "nat Network" where
  "stuck_net = echo_net\<lparr>net_store := (\<lambda>_. AddService (MakeService ''Srv'' [echo_method\<lparr>m_Func := (\<lambda>_. Hang)\<rparr>]) MakeServer)\<rparr>"

definition echo_req :: reqMsg where
  "echo_req = \<lparr>rq_endname = IStr ''e'', rq_svcMeth = ''Srv.Echo'', rq_argsType = ''int'', rq_args = [41]\<rparr>"

lemma stuck_net_facts:
  "attached (IStr ''e'') (IInt 0) 7 stuck_net" "\<not> isServerDead (IStr ''e'') (IInt 0) (Some 7) stuck_net"
  "isServerDead (IStr ''e'') (IInt 0) (Some 7) (DeleteServer (IInt 0) stuck_net)" "dispatched rng echo_req stuck_net = Some 7"
  using echo_net_facts(1,4)
  by (simp_all add: stuck_net_def attached_def isServerDead_def DeleteServer_def echo_req_def dispatched_def readEndnameInfo_def
      echo_net_def Enable_def Connect_def AddServer_def MakeNetwork_def gm_getz_def)

lemma stuck_dispatch: "srv_dispatch echo_codec echo_req (net_store stuck_net 7) = Hang"
proof -
  let ?svc = "MakeService ''Srv'' [echo_method\<lparr>m_Func := (\<lambda>_. Hang)\<rparr>]"
  have "gm_get (services (net_store stuck_net 7)) ''Srv'' = Some ?svc" "gm_get (svc_methods ?svc) ''Echo'' = Some (echo_method\<lparr>m_Func := (\<lambda>_. Hang)\<rparr>)"
    by (simp_all add: stuck_net_def echo_method_def AddService_def MakeService_def MakeServer_def is_handler_def)
  then show ?thesis using srv_dispatch_named [of "''Echo''" echo_req "''Srv''" "net_store stuck_net 7" ?svc echo_codec]
    by (simp add: echo_req_def svc_dispatch_def echo_codec_def)
qed

lemma short_delay_le: "fst (short_delay rel rng) \<le> 26"
  using draw_less [of 27 rng] by (simp add: short_delay_def)

lemma processReq_dead:
  assumes "readEndnameInfo (rq_endname req) rn = (True, Some sn, Some a, rel, reorder)"
    and "i < length polls" "isServerDead (rq_endname req) sn (Some a) (polls ! i)"
  shows "\<exists>out. processReq cd rng polls rest final req rn = Ret out \<and> \<not> rp_ok (o_reply out) \<and> o_delay out \<le> 26 + 100 * (int i + 1)"
proof (cases "fst (lossy rel (snd (short_delay rel rng)))")
  case True
  then show ?thesis using short_delay_le [of rel rng] by (simp add: processReq_up [OF assms(1)] Let_def)
next
  case False
  obtain ms where "await_reply (isServerDead (rq_endname req) sn (Some a)) polls rest (srv_dispatch cd req (net_store rn a)) = Ret (None, ms)"
    "ms \<le> 100 * (i + 1)" using await_reply_dead assms(2,3) by blast
  then show ?thesis using False short_delay_le [of rel rng] by (simp add: processReq_up [OF assms(1)] Let_def)
qed

lemma processReq_delay:
  assumes up: "readEndnameInfo (rq_endname req) rn = (True, Some sn, Some a, rel, reorder)"
    and ret: "processReq cd rng polls rest final req rn = Ret out"
  shows "0 \<le> o_delay out \<and> o_delay out \<le> 2225 + 100 * int (length polls) + int rest"
proof (cases "fst (lossy rel (snd (short_delay rel rng)))")
  case True
  then show ?thesis using ret short_delay_le [of rel rng] by (auto simp: processReq_up [OF up] Let_def)
next
  case False
  let ?d = "fst (short_delay rel rng)"
  from processReq_waited [OF up ret False] obtain r ms
    where r: "await_reply (isServerDead (rq_endname req) sn (Some a)) polls rest (srv_dispatch cd req (net_store rn a)) = Ret (r, ms)"
    "(case r of None \<Rightarrow> out = fail_after (int (?d + ms))
      | Some (reply, _) \<Rightarrow> out = (if isServerDead (rq_endname req) sn (Some a) final then fail_after (int (?d + ms))
          else send_reply rel reorder (int (?d + ms)) (snd (lossy rel (snd (short_delay rel rng)))) reply))" .
  have "int (?d + ms) \<le> o_delay out \<and> o_delay out < int (?d + ms) + 2200" using r(2) send_reply_delay by (auto split: option.splits if_splits)
  then show ?thesis using short_delay_le [of rel rng] await_reply_bound [OF r(1)] by linarith
qed

text \<open>
  C28: when a request returns, and after how long. It blocks for ever exactly if it reached an attached server (it was not lost), the
  handler never returns, and no poll sees the server deleted or the end disabled. As soon as the \<open>i\<close>-th poll does, the request fails,
  at most \<open>100 (i + 1)\<close> milliseconds of waiting and 26 of initial delay after it came in, whatever the handler does. Otherwise the
  time is the handler's (its polls of 100 ms and the rest) with at most 2225 ms of injected delay; without an attached server it is
  below 7 seconds with long delays, and below 100 ms without.
\<close>

theorem processReq_returns:
  "(processReq cd rng polls rest final req rn = Hang \<longleftrightarrow>
      (\<exists>sn a. attached (rq_endname req) sn a rn \<and> dispatched rng req rn = Some a \<and> srv_dispatch cd req (net_store rn a) = Hang \<and>
         (\<forall>n \<in> set polls. \<not> isServerDead (rq_endname req) sn (Some a) n))) \<and>
   (attached (rq_endname req) sn a rn \<and> i < length polls \<and> isServerDead (rq_endname req) sn (Some a) (polls ! i) \<longrightarrow>
      (\<exists>out. processReq cd rng polls rest final req rn = Ret out \<and> \<not> rp_ok (o_reply out) \<and> o_delay out \<le> 26 + 100 * (int i + 1))) \<and>
   (processReq cd rng polls rest final req rn = Ret out \<longrightarrow> 0 \<le> o_delay out \<and>
      (if \<exists>sn a. attached (rq_endname req) sn a rn then o_delay out \<le> 2225 + 100 * int (length polls) + int rest
       else o_delay out < (if longDelays rn then 7000 else 100)))"
proof (cases rule: processReq_cases [of req rn])
  case (up sn' a')
  let ?dead = "isServerDead (rq_endname req) sn' (Some a')" and ?d = "short_delay (reliable rn) rng"
  let ?l = "lossy (reliable rn) (snd ?d)" and ?r = "srv_dispatch cd req (net_store rn a')"
  have att: "attached (rq_endname req) sn' a' rn" using up readEndnameInfo_attached by blast
  have unique: "sn = sn' \<and> a = a'" if "attached (rq_endname req) sn a rn" for sn a using that att by (simp add: attached_def)
  have disp: "dispatched rng req rn = (if fst ?l then None else Some a')" by (simp add: dispatched_def up)
  have "processReq cd rng polls rest final req rn = Hang \<longleftrightarrow> \<not> fst ?l \<and> await_reply ?dead polls rest ?r = Hang"
    unfolding processReq_up [OF up] Let_def by (auto simp: go_bind_def split: go.splits option.splits)
  then have hang: "processReq cd rng polls rest final req rn = Hang \<longleftrightarrow> \<not> fst ?l \<and> ?r = Hang \<and> (\<forall>n \<in> set polls. \<not> ?dead n)"
    by (simp add: await_reply_Hang)
  note dead = processReq_dead [OF up] and delay = processReq_delay [OF up]
  have "processReq cd rng polls rest final req rn = Hang \<longleftrightarrow> attached (rq_endname req) sn' a' rn \<and> dispatched rng req rn = Some a' \<and>
      srv_dispatch cd req (net_store rn a') = Hang \<and> (\<forall>n \<in> set polls. \<not> isServerDead (rq_endname req) sn' (Some a') n)"
    unfolding hang disp using att by simp
  then have "processReq cd rng polls rest final req rn = Hang \<longleftrightarrow>
      (\<exists>sn a. attached (rq_endname req) sn a rn \<and> dispatched rng req rn = Some a \<and> srv_dispatch cd req (net_store rn a) = Hang \<and>
         (\<forall>n \<in> set polls. \<not> isServerDead (rq_endname req) sn (Some a) n))" using unique by metis
  moreover have "\<exists>sn a. attached (rq_endname req) sn a rn" using att by blast
  ultimately show ?thesis using unique [of sn a] dead [of i polls] delay by simp
next
  case down
  then show ?thesis by (auto simp: dispatched_def)
qed

text \<open>A handler that never returns: the request hangs as long as the server stays, and fails at the second poll when it has been
  deleted by then.\<close>

theorem processReq_returns_witness:
  "processReq echo_codec (sconst 0) [stuck_net] 0 stuck_net echo_req stuck_net = Hang \<and>
   (\<exists>out. processReq echo_codec (sconst 0) [stuck_net, DeleteServer (IInt 0) stuck_net] 0 stuck_net echo_req stuck_net = Ret out \<and>
      \<not> rp_ok (o_reply out) \<and> o_delay out \<le> 226)"
proof
  have e: "rq_endname echo_req = IStr ''e''" by (simp add: echo_req_def)
  show "processReq echo_codec (sconst 0) [stuck_net] 0 stuck_net echo_req stuck_net = Hang"
    using processReq_returns [of echo_codec "sconst 0" "[stuck_net]" 0 stuck_net echo_req stuck_net] stuck_net_facts stuck_dispatch e by auto
  have i: "1 < length [stuck_net, DeleteServer (IInt 0) stuck_net]" by simp
  show "\<exists>out. processReq echo_codec (sconst 0) [stuck_net, DeleteServer (IInt 0) stuck_net] 0 stuck_net echo_req stuck_net = Ret out \<and>
      \<not> rp_ok (o_reply out) \<and> o_delay out \<le> 226"
    using processReq_returns [of echo_codec "sconst 0" "[stuck_net, DeleteServer (IInt 0) stuck_net]" 0 stuck_net echo_req stuck_net
      "IInt 0" 7 1] stuck_net_facts e i by auto
qed

end
