(* ===== verification/Raft_Peer.thy ===== *)
theory Raft_Peer
  imports Labrpc
begin

text \<open>
  The persister (\<open>lab2/raft/persister.go\<close>) and the Raft peer as the lab hands it out
  (\<open>lab2/raft/raft.go\<close>). The protocol itself is left to the students, so the handlers and the state
  are stubs; the peer's life cycle (\<open>Make\<close>, \<open>Kill\<close>, \<open>killed\<close>, the ticker loop) and its use of the
  network are there. Persisters are shared by pointer between the tester and the peers, so a peer holds
  the address of its persister.
\<close>

subsection \<open>The persister\<close>

record Persister =
  raftstate :: "byte list"
  snapshot :: "byte list"

definition MakePersister :: Persister where
  "MakePersister = \<lparr>raftstate = [], snapshot = []\<rparr>"

text \<open>A fresh slice of the same length, filled by \<open>copy\<close>.\<close>

definition clone :: "byte list \<Rightarrow> byte list" where
  "clone orig = (let x = replicate (length orig) 0 in take (length orig) orig @ drop (length orig) x)"

definition ps_Copy :: "Persister \<Rightarrow> Persister" where
  "ps_Copy ps = MakePersister\<lparr>raftstate := raftstate ps, snapshot := snapshot ps\<rparr>"

definition SaveRaftState :: "byte list \<Rightarrow> Persister \<Rightarrow> Persister" where
  "SaveRaftState state ps = ps\<lparr>raftstate := clone state\<rparr>"

definition ReadRaftState :: "Persister \<Rightarrow> byte list" where
  "ReadRaftState ps = clone (raftstate ps)"

definition RaftStateSize :: "Persister \<Rightarrow> nat" where
  "RaftStateSize ps = length (raftstate ps)"

definition SaveStateAndSnapshot :: "byte list \<Rightarrow> byte list \<Rightarrow> Persister \<Rightarrow> Persister" where
  "SaveStateAndSnapshot state snap ps = ps\<lparr>raftstate := clone state, snapshot := clone snap\<rparr>"

definition ReadSnapshot :: "Persister \<Rightarrow> byte list" where
  "ReadSnapshot ps = clone (snapshot ps)"

definition SnapshotSize :: "Persister \<Rightarrow> nat" where
  "SnapshotSize ps = length (snapshot ps)"

lemma clone_id [simp]: "clone xs = xs"
  by (simp add: clone_def)

lemma ps_Copy_id [simp]: "ps_Copy ps = ps"
  by (simp add: ps_Copy_def MakePersister_def)

text \<open>What the rest of the lab relies on: reads return the last saved bytes, and the two parts do not
  disturb each other.\<close>

locale persistence =
  fixes save :: "'b \<Rightarrow> 'p \<Rightarrow> 'p" and save_both :: "'b \<Rightarrow> 'b \<Rightarrow> 'p \<Rightarrow> 'p"
    and read_state :: "'p \<Rightarrow> 'b" and read_snap :: "'p \<Rightarrow> 'b" and dup :: "'p \<Rightarrow> 'p"
  assumes read_save: "read_state (save b p) = b" and snap_save: "read_snap (save b p) = read_snap p"
    and read_both: "read_state (save_both b s p) = b" and snap_both: "read_snap (save_both b s p) = s"
    and read_dup: "read_state (dup p) = read_state p" and snap_dup: "read_snap (dup p) = read_snap p"
begin

text \<open>Any sequence of saves, read back from a copy.\<close>

lemma saves_last: "read_state (dup (fold save bs p)) = last (read_state p # bs)"
  by (induction bs rule: rev_induct) (simp_all add: read_dup read_save)

lemma saves_snap: "read_snap (dup (fold save bs p)) = read_snap p"
  by (induction bs rule: rev_induct) (simp_all add: snap_dup snap_save)

lemma restore: "read_state (save_both (read_state p) (read_snap p) q) = read_state p"
  "read_snap (save_both (read_state p) (read_snap p) q) = read_snap p"
  by (simp_all add: read_both snap_both)

end

interpretation ps: persistence SaveRaftState SaveStateAndSnapshot ReadRaftState ReadSnapshot ps_Copy
  by unfold_locales (simp_all add: SaveRaftState_def SaveStateAndSnapshot_def ReadRaftState_def ReadSnapshot_def)

subsection \<open>The peer\<close>

record Raft =
  peers :: "ClientEnd list"
  rf_persister :: addr
  rf_me :: int
  rf_dead :: u32

definition rf_GetState :: "Raft \<Rightarrow> int \<times> bool" where
  "rf_GetState rf = (0, False)"

definition rf_persist :: "Raft \<Rightarrow> Raft" where
  "rf_persist rf = rf"

text \<open>Nothing is restored yet, with or without data.\<close>

definition readPersist :: "byte list \<Rightarrow> Raft \<Rightarrow> Raft" where
  "readPersist data rf = (if length data < 1 then rf else rf)"

definition RequestVote :: "'args \<Rightarrow> 'reply \<Rightarrow> Raft \<Rightarrow> 'reply \<times> Raft" where
  "RequestVote args reply rf = (reply, rf)"

text \<open>\<open>call\<close> is \<open>Call\<close> of the end-point under the network at hand.\<close>

definition sendRequestVote :: "(ClientEnd \<Rightarrow> string \<Rightarrow> 'r go) \<Rightarrow> int \<Rightarrow> Raft \<Rightarrow> 'r go" where
  "sendRequestVote call server rf = go_bind (go_index (peers rf) server) (\<lambda>e. call e ''Raft.RequestVote'')"

definition rf_Start :: "'c \<Rightarrow> Raft \<Rightarrow> int \<times> int \<times> bool" where
  "rf_Start command rf = (- 1, - 1, True)"

definition Kill :: "Raft \<Rightarrow> Raft" where
  "Kill rf = rf\<lparr>rf_dead := 1\<rparr>"

definition killed :: "Raft \<Rightarrow> bool" where
  "killed rf \<longleftrightarrow> rf_dead rf = 1"

text \<open>The ticker on the states it sees, one per iteration: whether it has ended.\<close>

fun ticker :: "Raft list \<Rightarrow> bool" where
  "ticker [] = False"
| "ticker (rf # rfs) = (if killed rf then True else ticker rfs)"

definition Make :: "ClientEnd list \<Rightarrow> int \<Rightarrow> addr \<Rightarrow> Persister \<Rightarrow> Raft" where
  "Make ends i a ps =
     readPersist (ReadRaftState ps) \<lparr>peers = ends, rf_persister = a, rf_me = i, rf_dead = 0\<rparr>"

lemma Make_eq: "Make ends i a ps = \<lparr>peers = ends, rf_persister = a, rf_me = i, rf_dead = 0\<rparr>"
  by (simp add: Make_def readPersist_def)

lemma killed_Kill [simp]: "killed (Kill rf)"
  by (simp add: killed_def Kill_def)

lemma ticker_iff: "ticker rfs \<longleftrightarrow> (\<exists>rf \<in> set rfs. killed rf)"
  by (induction rfs) auto

subsection \<open>Properties\<close>

text \<open>
  A persister gives back what was saved last. After any sequence of saves of the Raft state,
  reading a copy returns the last saved bytes (or the earlier ones when nothing was saved) and the
  snapshot as it was; and saving what was read into any other persister, as the tester does at a crash,
  restores both.
\<close>

theorem Persister_round_trip:
  "ReadRaftState (ps_Copy (fold SaveRaftState states ps)) = last (ReadRaftState ps # states) \<and>
   ReadSnapshot (ps_Copy (fold SaveRaftState states ps)) = ReadSnapshot ps \<and>
   SaveStateAndSnapshot (ReadRaftState ps) (ReadSnapshot ps) other = ps \<and>
   RaftStateSize (SaveRaftState state ps) = length state"
proof (intro conjI)
  show "SaveStateAndSnapshot (ReadRaftState ps) (ReadSnapshot ps) other = ps"
    by (simp add: SaveStateAndSnapshot_def ReadRaftState_def ReadSnapshot_def)
  show "RaftStateSize (SaveRaftState state ps) = length state"
    by (simp add: RaftStateSize_def SaveRaftState_def)
qed (rule ps.saves_last ps.saves_snap)+

end
