(* ===== verification/Raft_Config.thy ===== *)
theory Raft_Config
  imports Raft_Peer
begin

text \<open>
  The tester's cluster of Raft peers (\<open>lab2/raft/config.go\<close>): crashing and restarting servers,
  attaching them to and detaching them from the simulated network. The checks of what the peers commit
  are in \<open>Raft_Checks\<close>.

  Persisters live in a store and are named by their addresses, because the tester hands the pointer to
  the peer and later replaces its own. The peers of crashed instances cannot be stopped: they are kept in
  \<open>cf_old\<close> and may still write to their persister. The random names of client ends (\<open>randstring\<close>) and the
  methods that reflection finds on a peer are arguments.
\<close>

subsection \<open>The configuration\<close>

record ('v, 'c) config =
  cf_net :: "'v Network"
  cf_n :: nat
  cf_rafts :: "Raft option list"
  cf_applyErr :: "string list"
  cf_connected :: "bool list"
  cf_saved :: "addr option list"
  cf_store :: "Persister list"
  cf_endnames :: "string list option list"
  cf_logs :: "(int, 'c) gomap list"
  cf_maxIndex :: int
  cf_old :: "Raft list"
  cf_srvs :: addr

text \<open>The end \<open>endnames[i][j]\<close>, when row \<open>i\<close> is not nil.\<close>

definition end_at :: "('v, 'c) config \<Rightarrow> nat \<Rightarrow> nat \<Rightarrow> string option" where
  "end_at cfg i j = map_option (\<lambda>row. row ! j) (cf_endnames cfg ! i)"

definition enable_all :: "bool \<Rightarrow> string list \<Rightarrow> 'v Network \<Rightarrow> 'v Network" where
  "enable_all b es net = fold (\<lambda>e. Enable (IStr e) b) es net"

definition disconnect :: "nat \<Rightarrow> ('v, 'c) config \<Rightarrow> ('v, 'c) config" where
  "disconnect i cfg =
     (let cfg1 = cfg\<lparr>cf_connected := (cf_connected cfg)[i := False]\<rparr>;
          out = [e. j \<leftarrow> [0..<cf_n cfg], Some e \<leftarrow> [end_at cfg i j]];
          inc = [e. j \<leftarrow> [0..<cf_n cfg], Some e \<leftarrow> [end_at cfg j i]]
      in cfg1\<lparr>cf_net := enable_all False inc (enable_all False out (cf_net cfg))\<rparr>)"

text \<open>Indexing a nil row panics.\<close>

definition connect :: "nat \<Rightarrow> ('v, 'c) config \<Rightarrow> ('v, 'c) config go" where
  "connect i cfg =
     (let conn = (cf_connected cfg)[i := True];
          js = filter (\<lambda>j. conn ! j) [0..<cf_n cfg];
          out = map (\<lambda>j. end_at cfg i j) js;
          inc = map (\<lambda>j. end_at cfg j i) js
      in if None \<in> set (out @ inc) then Panic ''index out of range''
         else Ret (cfg\<lparr>cf_connected := conn,
                       cf_net := enable_all True (map the inc) (enable_all True (map the out) (cf_net cfg))\<rparr>))"

text \<open>Allocation of a persister.\<close>

definition new_persister :: "nat \<Rightarrow> Persister \<Rightarrow> ('v, 'c) config \<Rightarrow> ('v, 'c) config" where
  "new_persister i ps cfg =
     cfg\<lparr>cf_saved := (cf_saved cfg)[i := Some (length (cf_store cfg))], cf_store := cf_store cfg @ [ps]\<rparr>"

definition crash1 :: "nat \<Rightarrow> ('v, 'c) config \<Rightarrow> ('v, 'c) config" where
  "crash1 i cfg =
     (let cfg1 = disconnect i cfg;
          cfg2 = cfg1\<lparr>cf_net := DeleteServer (IInt (int i)) (cf_net cfg1)\<rparr>;
          cfg3 = (case cf_saved cfg2 ! i of None \<Rightarrow> cfg2
                  | Some a \<Rightarrow> new_persister i (ps_Copy (cf_store cfg2 ! a)) cfg2);
          cfg4 = (case cf_rafts cfg3 ! i of None \<Rightarrow> cfg3
                  | Some rf \<Rightarrow> cfg3\<lparr>cf_rafts := (cf_rafts cfg3)[i := None], cf_old := Kill rf # cf_old cfg3\<rparr>)
      in case cf_saved cfg4 ! i of None \<Rightarrow> cfg4
         | Some a \<Rightarrow>
             (let raftlog = ReadRaftState (cf_store cfg4 ! a); snap = ReadSnapshot (cf_store cfg4 ! a)
              in new_persister i (SaveStateAndSnapshot raftlog snap \<lparr>raftstate = [], snapshot = []\<rparr>) cfg4))"

text \<open>The loop that makes and connects the fresh ends of one server.\<close>

fun make_ends :: "nat \<Rightarrow> string list \<Rightarrow> 'v Network \<Rightarrow> (ClientEnd list \<times> 'v Network) go" where
  "make_ends j [] net = Ret ([], net)"
| "make_ends j (name # names) net =
     go_bind (MakeEnd (IStr name) net) (\<lambda>(e, net1).
       go_bind (make_ends (Suc j) names (Connect (IStr name) (IInt (int j)) net1)) (\<lambda>(es, net2). Ret (e # es, net2)))"

text \<open>\<open>names\<close> are the \<open>n\<close> random names; \<open>methods\<close> is what reflection finds on the peer.\<close>

definition start1 :: "(Raft \<Rightarrow> 'v rmethod list) \<Rightarrow> nat \<Rightarrow> string list \<Rightarrow> ('v, 'c) config \<Rightarrow> ('v, 'c) config go" where
  "start1 methods i names cfg =
     (let cfg1 = crash1 i cfg;
          cfg2 = cfg1\<lparr>cf_endnames := (cf_endnames cfg1)[i := Some names]\<rparr>
      in go_bind (make_ends 0 names (cf_net cfg2)) (\<lambda>(ends, net).
           let cfg3 = cfg2\<lparr>cf_net := net\<rparr>;
               cfg4 = (case cf_saved cfg3 ! i of
                         Some a \<Rightarrow> new_persister i (ps_Copy (cf_store cfg3 ! a)) cfg3
                       | None \<Rightarrow> new_persister i MakePersister cfg3);
               a = the (cf_saved cfg4 ! i);
               rf = Make ends (int i) a (cf_store cfg4 ! a);
               srv = AddService (MakeService ''Raft'' (methods rf)) MakeServer
           in Ret (cfg4\<lparr>cf_rafts := (cf_rafts cfg4)[i := Some rf],
                        cf_net := AddServer (IInt (int i)) (cf_srvs cfg4) srv (cf_net cfg4),
                        cf_srvs := Suc (cf_srvs cfg4)\<rparr>)))"

definition setunreliable :: "bool \<Rightarrow> ('v, 'c) config \<Rightarrow> ('v, 'c) config" where
  "setunreliable unrel cfg = cfg\<lparr>cf_net := Reliable (\<not> unrel) (cf_net cfg)\<rparr>"

definition setlongreordering :: "bool \<Rightarrow> ('v, 'c) config \<Rightarrow> ('v, 'c) config" where
  "setlongreordering longrel cfg = cfg\<lparr>cf_net := LongReordering longrel (cf_net cfg)\<rparr>"

definition rpcCount :: "nat \<Rightarrow> ('v, 'c) config \<Rightarrow> int go" where
  "rpcCount server cfg = net_GetCount (IInt (int server)) (cf_net cfg)"

definition rpcTotal :: "('v, 'c) config \<Rightarrow> int" where
  "rpcTotal cfg = GetTotalCount (cf_net cfg)"

definition bytesTotal :: "('v, 'c) config \<Rightarrow> int" where
  "bytesTotal cfg = GetTotalBytes (cf_net cfg)"

text \<open>The configuration before any server is started, with its maps made.\<close>

definition blank_config :: "nat \<Rightarrow> bool \<Rightarrow> ('v, 'c) config" where
  "blank_config n unreliable =
     \<lparr>cf_net = LongDelays True (Reliable (\<not> unreliable) MakeNetwork), cf_n = n, cf_rafts = replicate n None,
      cf_applyErr = replicate n [], cf_connected = replicate n False, cf_saved = replicate n None, cf_store = [],
      cf_endnames = replicate n None, cf_logs = replicate n [], cf_maxIndex = 0, cf_old = [], cf_srvs = 0\<rparr>"

definition make_config :: "(Raft \<Rightarrow> 'v rmethod list) \<Rightarrow> nat \<Rightarrow> bool \<Rightarrow> (nat \<Rightarrow> string list) \<Rightarrow> ('v, 'c) config go" where
  "make_config methods n unreliable names =
     go_bind (go_foreach (\<lambda>i. start1 methods i (names i)) [0..<n] (blank_config n unreliable))
       (go_foreach connect [0..<n])"

text \<open>\<open>failed\<close> tells whether the test has failed before, \<open>elapsed\<close> the milliseconds since \<open>make_config\<close>.\<close>

definition checkTimeout :: "bool \<Rightarrow> nat \<Rightarrow> unit go" where
  "checkTimeout failed elapsed =
     (if \<not> failed \<and> elapsed > 120000 then Fatal ''test took longer than 120 seconds'' else Ret ())"

definition cleanup :: "bool \<Rightarrow> nat \<Rightarrow> ('v, 'c) config \<Rightarrow> ('v, 'c) config go" where
  "cleanup failed elapsed cfg =
     (let cfg1 = cfg\<lparr>cf_rafts := map (map_option Kill) (cf_rafts cfg)\<rparr>
      in go_bind (Cleanup (cf_net cfg1)) (\<lambda>net.
           go_bind (checkTimeout failed elapsed) (\<lambda>_. Ret (cfg1\<lparr>cf_net := net\<rparr>))))"

definition LogSize :: "('v, 'c) config \<Rightarrow> nat go" where
  "LogSize cfg =
     go_foreach (\<lambda>i logsize. case cf_saved cfg ! i of
         None \<Rightarrow> Panic ''nil pointer dereference''
       | Some a \<Rightarrow> (let n = RaftStateSize (cf_store cfg ! a) in Ret (if n > logsize then n else logsize)))
       [0..<cf_n cfg] 0"

subsection \<open>Effects on the network\<close>

abbreviation net_on :: "'v Network \<Rightarrow> string \<Rightarrow> bool" where
  "net_on net x \<equiv> gm_getz False (net_enabled net) (IStr x)"

abbreviation net_known :: "'v Network \<Rightarrow> string \<Rightarrow> bool" where
  "net_known net x \<equiv> gm_get (net_ends net) (IStr x) \<noteq> None"

lemma enable_all_on: "net_on (enable_all b es net) x = (if x \<in> set es then b else net_on net x)"
  unfolding enable_all_def by (induction es arbitrary: net) (auto simp: Enable_def)

lemma enable_all_same [simp]:
  "net_ends (enable_all b es net) = net_ends net" "connections (enable_all b es net) = connections net"
  "net_servers (enable_all b es net) = net_servers net"
  unfolding enable_all_def by (induction es arbitrary: net) (auto simp: Enable_def)

definition ends_made :: "string list \<Rightarrow> 'v Network \<Rightarrow> 'v Network \<Rightarrow> bool" where
  "ends_made names net net' \<longleftrightarrow> distinct names \<and> (\<forall>x \<in> set names. \<not> net_known net x) \<and>
     (\<forall>x. net_known net' x \<longleftrightarrow> net_known net x \<or> x \<in> set names) \<and>
     (\<forall>x. net_on net' x \<longleftrightarrow> net_on net x \<and> x \<notin> set names) \<and> net_servers net' = net_servers net"

lemma ends_made_Cons:
  assumes "ends_made [x] net net1" "ends_made xs net1 net2"
  shows "ends_made (x # xs) net net2"
  using assms unfolding ends_made_def by auto

lemma ends_made_one:
  assumes "MakeEnd (IStr name) net = Ret (e, net1)"
  shows "ends_made [name] net (Connect (IStr name) server net1)" "e = \<lparr>ce_endname = IStr name\<rparr>"
  using assms by (auto simp: MakeEnd_def Let_def Connect_def ends_made_def split: if_splits)

lemma make_ends_Ret:
  "make_ends j names net = Ret (es, net') \<Longrightarrow>
   ends_made names net net' \<and> es = map (\<lambda>x. \<lparr>ce_endname = IStr x\<rparr>) names"
proof (induction names arbitrary: j net es)
  case Nil
  then show ?case by (simp add: ends_made_def)
next
  case (Cons name names)
  obtain e net1 es' where 1: "MakeEnd (IStr name) net = Ret (e, net1)"
    "make_ends (Suc j) names (Connect (IStr name) (IInt (int j)) net1) = Ret (es', net')" "es = e # es'"
    using Cons.prems by (auto simp: go_bind_Ret_iff)
  show ?case
    using ends_made_Cons [OF ends_made_one(1) [OF 1(1)]] Cons.IH [OF 1(2)] ends_made_one(2) [OF 1(1)] 1(3) by auto
qed

subsection \<open>The invariant of the network\<close>

definition sizes_ok :: "('v, 'c) config \<Rightarrow> bool" where
  "sizes_ok cfg \<longleftrightarrow> length (cf_rafts cfg) = cf_n cfg \<and> length (cf_connected cfg) = cf_n cfg \<and>
     length (cf_saved cfg) = cf_n cfg \<and> length (cf_endnames cfg) = cf_n cfg \<and> length (cf_logs cfg) = cf_n cfg"

text \<open>Different pairs of servers have different ends, all known to the network, and an end is enabled
  exactly when it is the current end between two connected servers.\<close>

definition ends_inj :: "('v, 'c) config \<Rightarrow> bool" where
  "ends_inj cfg \<longleftrightarrow> (\<forall>a < cf_n cfg. \<forall>b < cf_n cfg. \<forall>a' < cf_n cfg. \<forall>b' < cf_n cfg. \<forall>x.
     end_at cfg a b = Some x \<longrightarrow> end_at cfg a' b' = Some x \<longrightarrow> a = a' \<and> b = b')"

definition ends_known :: "('v, 'c) config \<Rightarrow> bool" where
  "ends_known cfg \<longleftrightarrow> (\<forall>a < cf_n cfg. \<forall>b < cf_n cfg. \<forall>x. end_at cfg a b = Some x \<longrightarrow> net_known (cf_net cfg) x)"

definition linked :: "('v, 'c) config \<Rightarrow> string \<Rightarrow> bool" where
  "linked cfg x \<longleftrightarrow> (\<exists>a < cf_n cfg. \<exists>b < cf_n cfg. end_at cfg a b = Some x \<and> cf_connected cfg ! a \<and> cf_connected cfg ! b)"

lemma linkedI:
  "end_at cfg a b = Some x \<Longrightarrow> a < cf_n cfg \<Longrightarrow> b < cf_n cfg \<Longrightarrow> cf_connected cfg ! a \<Longrightarrow> cf_connected cfg ! b \<Longrightarrow> linked cfg x"
  unfolding linked_def by blast

lemma linkedE:
  assumes "linked cfg x"
  obtains a b where "end_at cfg a b = Some x" "a < cf_n cfg" "b < cf_n cfg" "cf_connected cfg ! a" "cf_connected cfg ! b"
  using assms unfolding linked_def by blast

definition net_inv :: "('v, 'c) config \<Rightarrow> bool" where
  "net_inv cfg \<longleftrightarrow> sizes_ok cfg \<and> ends_inj cfg \<and> ends_known cfg \<and> (\<forall>x. net_on (cf_net cfg) x \<longleftrightarrow> linked cfg x)"

lemma end_at_cong: "cf_endnames cfg' = cf_endnames cfg \<Longrightarrow> end_at cfg' = end_at cfg"
  by (intro ext) (simp add: end_at_def)

lemma set_list_ends: "set [e. j \<leftarrow> js, Some e \<leftarrow> [f j]] = {e. \<exists>j \<in> set js. f j = Some e}"
  by (induction js) (auto split: option.splits)

lemma ends_inj_cong: "end_at cfg' = end_at cfg \<Longrightarrow> cf_n cfg' = cf_n cfg \<Longrightarrow> ends_inj cfg' = ends_inj cfg"
  by (simp add: ends_inj_def)

lemma ends_known_cong:
  "end_at cfg' = end_at cfg \<Longrightarrow> cf_n cfg' = cf_n cfg \<Longrightarrow> net_ends (cf_net cfg') = net_ends (cf_net cfg) \<Longrightarrow>
   ends_known cfg' = ends_known cfg"
  by (simp add: ends_known_def)

text \<open>Parts of a configuration that the network invariant does not look at.\<close>

lemma net_inv_cong:
  assumes "cf_endnames cfg' = cf_endnames cfg" "cf_n cfg' = cf_n cfg" "cf_connected cfg' = cf_connected cfg"
    "net_ends (cf_net cfg') = net_ends (cf_net cfg)" "net_enabled (cf_net cfg') = net_enabled (cf_net cfg)"
    "sizes_ok cfg'"
  shows "net_inv cfg \<Longrightarrow> net_inv cfg'"
  using assms end_at_cong [OF assms(1)]
  by (auto simp: net_inv_def ends_inj_def ends_known_def linked_def)

lemma disconnect_simps [simp]:
  "cf_n (disconnect i cfg) = cf_n cfg" "cf_endnames (disconnect i cfg) = cf_endnames cfg"
  "cf_saved (disconnect i cfg) = cf_saved cfg" "cf_rafts (disconnect i cfg) = cf_rafts cfg"
  "cf_store (disconnect i cfg) = cf_store cfg" "cf_logs (disconnect i cfg) = cf_logs cfg"
  "cf_old (disconnect i cfg) = cf_old cfg" "cf_connected (disconnect i cfg) = (cf_connected cfg)[i := False]"
  "net_ends (cf_net (disconnect i cfg)) = net_ends (cf_net cfg)" "end_at (disconnect i cfg) = end_at cfg"
  by (auto simp: disconnect_def Let_def end_at_def intro!: ext)

lemma disconnect_on:
  "net_on (cf_net (disconnect i cfg)) x \<longleftrightarrow>
     net_on (cf_net cfg) x \<and> \<not> (\<exists>j < cf_n cfg. end_at cfg i j = Some x \<or> end_at cfg j i = Some x)"
  unfolding disconnect_def Let_def by (auto simp: enable_all_on set_list_ends) (metis atLeastLessThan_iff zero_le)+

lemma disconnect_inv: "net_inv cfg \<Longrightarrow> i < cf_n cfg \<Longrightarrow> net_inv (disconnect i cfg)"
proof -
  assume inv: "net_inv cfg" and i: "i < cf_n cfg"
  have len: "length (cf_connected cfg) = cf_n cfg" using inv by (simp add: net_inv_def sizes_ok_def)
  have inj: "a = a' \<and> b = b'" if "end_at cfg a b = Some x" "end_at cfg a' b' = Some x"
    "a < cf_n cfg" "b < cf_n cfg" "a' < cf_n cfg" "b' < cf_n cfg" for a b a' b' x
    using inv that unfolding net_inv_def ends_inj_def by blast
  have "net_on (cf_net (disconnect i cfg)) x \<longleftrightarrow> linked (disconnect i cfg) x" for x
  proof
    assume "net_on (cf_net (disconnect i cfg)) x"
    then have on: "linked cfg x" "\<not> (\<exists>j < cf_n cfg. end_at cfg i j = Some x \<or> end_at cfg j i = Some x)"
      using inv by (auto simp: disconnect_on net_inv_def)
    then obtain a b where ab: "a < cf_n cfg" "b < cf_n cfg" "end_at cfg a b = Some x" "cf_connected cfg ! a" "cf_connected cfg ! b"
      unfolding linked_def by blast
    then have "a \<noteq> i" "b \<noteq> i" using on(2) by blast+
    then show "linked (disconnect i cfg) x" using ab by (intro linkedI [of _ a b]) simp_all
  next
    assume "linked (disconnect i cfg) x"
    then obtain a b where ab: "a < cf_n cfg" "b < cf_n cfg" "end_at cfg a b = Some x"
      "(cf_connected cfg)[i := False] ! a" "(cf_connected cfg)[i := False] ! b"
      unfolding linked_def by auto
    then have ne: "a \<noteq> i" "b \<noteq> i" using len by (metis nth_list_update_eq)+
    then have "linked cfg x" unfolding linked_def using ab by (metis nth_list_update_neq)
    moreover have "\<not> (\<exists>j < cf_n cfg. end_at cfg i j = Some x \<or> end_at cfg j i = Some x)"
      using inj [OF ab(3)] ab(1,2) i ne by blast
    ultimately show "net_on (cf_net (disconnect i cfg)) x" using inv by (simp add: disconnect_on net_inv_def)
  qed
  then show "net_inv (disconnect i cfg)"
    using inv ends_inj_cong [of "disconnect i cfg" cfg] ends_known_cong [of "disconnect i cfg" cfg]
    by (simp add: net_inv_def sizes_ok_def)
qed

lemma connect_inv:
  assumes inv: "net_inv cfg" and i: "i < cf_n cfg" and ret: "connect i cfg = Ret cfg'"
  shows "net_inv cfg'"
proof -
  let ?conn = "(cf_connected cfg)[i := True]"
  let ?js = "filter (\<lambda>j. ?conn ! j) [0..<cf_n cfg]"
  let ?out = "map (\<lambda>j. end_at cfg i j) ?js" and ?inc = "map (\<lambda>j. end_at cfg j i) ?js"
  have len: "length (cf_connected cfg) = cf_n cfg" using inv by (simp add: net_inv_def sizes_ok_def)
  have some: "None \<notin> set (?out @ ?inc)" and cfg': "cfg' = cfg\<lparr>cf_connected := ?conn,
      cf_net := enable_all True (map the ?inc) (enable_all True (map the ?out) (cf_net cfg))\<rparr>"
    using ret unfolding connect_def Let_def by (auto split: if_splits)
  have ends: "end_at cfg' = end_at cfg" unfolding cfg' by (rule end_at_cong) simp
  have same: "cf_n cfg' = cf_n cfg" "cf_connected cfg' = ?conn" by (simp_all add: cfg')
  have js: "j \<in> set ?js \<longleftrightarrow> j < cf_n cfg \<and> ?conn ! j" for j by auto
  have the: "the (end_at cfg i j) = x \<longleftrightarrow> end_at cfg i j = Some x" "the (end_at cfg j i) = x \<longleftrightarrow> end_at cfg j i = Some x"
    if "j \<in> set ?js" for j x
    using some that by (force simp: image_iff)+
  have on: "net_on (cf_net cfg') x \<longleftrightarrow>
      (\<exists>j \<in> set ?js. end_at cfg i j = Some x \<or> end_at cfg j i = Some x) \<or> linked cfg x" for x
  proof -
    have "net_on (cf_net cfg') x \<longleftrightarrow> x \<in> set (map the ?inc) \<or> x \<in> set (map the ?out) \<or> net_on (cf_net cfg) x"
      unfolding cfg' by (simp add: enable_all_on)
    also have "x \<in> set (map the ?inc) \<longleftrightarrow> (\<exists>j \<in> set ?js. end_at cfg j i = Some x)"
      unfolding set_map image_image using the(2) by (metis (no_types, lifting) image_iff)
    also have "x \<in> set (map the ?out) \<longleftrightarrow> (\<exists>j \<in> set ?js. end_at cfg i j = Some x)"
      unfolding set_map image_image using the(1) by (metis (no_types, lifting) image_iff)
    finally show ?thesis using inv unfolding net_inv_def by blast
  qed
  have conn: "?conn ! i" "j \<noteq> i \<Longrightarrow> ?conn ! j = cf_connected cfg ! j" for j using i len by simp_all
  have "net_on (cf_net cfg') x \<longleftrightarrow> linked cfg' x" for x
  proof
    assume "net_on (cf_net cfg') x"
    then consider j where "j \<in> set ?js" "end_at cfg i j = Some x" | j where "j \<in> set ?js" "end_at cfg j i = Some x"
      | "linked cfg x"
      unfolding on by blast
    then show "linked cfg' x"
    proof cases
      case (1 j)
      then show ?thesis using i conn(1) by (intro linkedI [of _ i j]) (auto simp: ends same)
    next
      case (2 j)
      then show ?thesis using i conn(1) by (intro linkedI [of _ j i]) (auto simp: ends same)
    next
      case 3
      then obtain a b where ab: "end_at cfg a b = Some x" "a < cf_n cfg" "b < cf_n cfg" "cf_connected cfg ! a" "cf_connected cfg ! b"
        by (rule linkedE)
      have "?conn ! a" "?conn ! b" using ab(4,5) conn by metis+
      then show ?thesis using ab by (intro linkedI [of _ a b]) (auto simp: ends same)
    qed
  next
    assume "linked cfg' x"
    then obtain a b where ab: "end_at cfg a b = Some x" "a < cf_n cfg" "b < cf_n cfg" "?conn ! a" "?conn ! b"
      by (rule linkedE) (simp add: ends same)
    show "net_on (cf_net cfg') x"
    proof (cases "a = i \<or> b = i")
      case True
      then show ?thesis unfolding on using ab js by blast
    next
      case False
      then have "linked cfg x" using ab conn(2) by (intro linkedI [of _ a b]) auto
      then show ?thesis unfolding on by blast
    qed
  qed
  moreover have "sizes_ok cfg'" using inv by (simp add: cfg' net_inv_def sizes_ok_def)
  moreover have "ends_inj cfg'" using inv ends_inj_cong [OF ends] by (simp add: cfg' net_inv_def)
  moreover have "ends_known cfg'" using inv ends_known_cong [OF ends] by (simp add: cfg' net_inv_def)
  ultimately show ?thesis by (simp add: net_inv_def)
qed

subsection \<open>Crash and restart\<close>

lemma crash1_eq:
  assumes "i < length (cf_saved cfg)"
  shows "crash1 i cfg = (disconnect i cfg)
    \<lparr>cf_net := DeleteServer (IInt (int i)) (cf_net (disconnect i cfg)),
     cf_rafts := (cf_rafts cfg)[i := None],
     cf_old := (case cf_rafts cfg ! i of None \<Rightarrow> [] | Some rf \<Rightarrow> [Kill rf]) @ cf_old cfg,
     cf_saved := (case cf_saved cfg ! i of None \<Rightarrow> cf_saved cfg | Some a \<Rightarrow> (cf_saved cfg)[i := Some (Suc (length (cf_store cfg)))]),
     cf_store := (case cf_saved cfg ! i of None \<Rightarrow> cf_store cfg | Some a \<Rightarrow> cf_store cfg @ [cf_store cfg ! a, cf_store cfg ! a])\<rparr>"
proof -
  have upd: "(cf_rafts cfg)[i := None] = cf_rafts cfg" if "cf_rafts cfg ! i = None"
    using that by (metis list_update_id)
  have ps: "SaveStateAndSnapshot (ReadRaftState p) (ReadSnapshot p) q = p" for p q
    by (simp add: SaveStateAndSnapshot_def ReadRaftState_def ReadSnapshot_def)
  show ?thesis
    using assms upd by (cases "cf_saved cfg ! i"; cases "cf_rafts cfg ! i")
      (simp_all add: crash1_def Let_def new_persister_def ps)
qed

lemma start1_eq:
  assumes "start1 methods i names cfg = Ret cfg'" "i < length (cf_saved cfg)" "length (cf_saved (crash1 i cfg)) = length (cf_saved cfg)"
  defines "c \<equiv> crash1 i cfg"
  defines "a \<equiv> length (cf_store c)"
  defines "p \<equiv> (case cf_saved c ! i of None \<Rightarrow> MakePersister | Some b \<Rightarrow> cf_store c ! b)"
  obtains net ends srv where "ends_made names (cf_net c) net" "ends = map (\<lambda>x. \<lparr>ce_endname = IStr x\<rparr>) names"
    "cfg' = c\<lparr>cf_endnames := (cf_endnames c)[i := Some names], cf_saved := (cf_saved c)[i := Some a], cf_store := cf_store c @ [p],
       cf_rafts := (cf_rafts c)[i := Some (Make ends (int i) a p)],
       cf_net := AddServer (IInt (int i)) (cf_srvs c) srv net, cf_srvs := Suc (cf_srvs c)\<rparr>"
proof -
  obtain ends net where m: "make_ends 0 names (cf_net c) = Ret (ends, net)"
    using assms(1) unfolding start1_def c_def Let_def by (auto simp: go_bind_Ret_iff)
  let ?rf = "Make ends (int i) a p"
  show ?thesis
  proof (rule that)
    show "ends_made names (cf_net c) net" "ends = map (\<lambda>x. \<lparr>ce_endname = IStr x\<rparr>) names" using make_ends_Ret [OF m] by simp_all
    show "cfg' = c\<lparr>cf_endnames := (cf_endnames c)[i := Some names], cf_saved := (cf_saved c)[i := Some a], cf_store := cf_store c @ [p],
       cf_rafts := (cf_rafts c)[i := Some ?rf],
       cf_net := AddServer (IInt (int i)) (cf_srvs c) (AddService (MakeService ''Raft'' (methods ?rf)) MakeServer) net,
       cf_srvs := Suc (cf_srvs c)\<rparr>"
      using assms(1-3) m unfolding start1_def c_def [symmetric] Let_def a_def p_def
      by (cases "cf_saved c ! i") (simp_all add: new_persister_def)
  qed
qed

lemma crash1_simps [simp]:
  assumes "i < length (cf_saved cfg)"
  shows "cf_n (crash1 i cfg) = cf_n cfg" "cf_endnames (crash1 i cfg) = cf_endnames cfg"
    "cf_connected (crash1 i cfg) = (cf_connected cfg)[i := False]" "cf_logs (crash1 i cfg) = cf_logs cfg"
    "net_ends (cf_net (crash1 i cfg)) = net_ends (cf_net cfg)"
    "net_enabled (cf_net (crash1 i cfg)) = net_enabled (cf_net (disconnect i cfg))"
    "length (cf_saved (crash1 i cfg)) = length (cf_saved cfg)" "length (cf_rafts (crash1 i cfg)) = length (cf_rafts cfg)"
  using assms by (simp_all add: crash1_eq DeleteServer_def split: option.split)

lemma sizes_saved: "net_inv cfg \<Longrightarrow> i < cf_n cfg \<Longrightarrow> i < length (cf_saved cfg)"
  by (simp add: net_inv_def sizes_ok_def)

lemma crash1_inv:
  assumes "net_inv cfg" "i < cf_n cfg"
  shows "net_inv (crash1 i cfg)"
proof -
  have "i < length (cf_saved cfg)" using assms by (rule sizes_saved)
  then show ?thesis
    using net_inv_cong [OF _ _ _ _ _ _ disconnect_inv [OF assms], of "crash1 i cfg"] assms(1)
    by (simp add: sizes_ok_def net_inv_def)
qed

lemma start1_inv:
  assumes inv: "net_inv cfg" and i: "i < cf_n cfg" and len: "length names = cf_n cfg"
    and ret: "start1 methods i names cfg = Ret cfg'"
  shows "net_inv cfg'"
proof -
  let ?c = "crash1 i cfg"
  have sav: "i < length (cf_saved cfg)" using inv i by (rule sizes_saved)
  have cinv: "net_inv ?c" using inv i by (rule crash1_inv)
  obtain net ends srv where ends: "ends_made names (cf_net ?c) net" and
    flds: "cf_n cfg' = cf_n cfg" "cf_connected cfg' = (cf_connected cfg)[i := False]"
      "cf_endnames cfg' = (cf_endnames cfg)[i := Some names]" "sizes_ok cfg'"
      "net_ends (cf_net cfg') = net_ends net" "net_enabled (cf_net cfg') = net_enabled net"
  proof (rule start1_eq [OF ret sav], goal_cases)
    case 1
    then show ?case using sav by simp
  next
    case (2 net ends srv)
    then show ?case using cinv sav by (intro 2(1) [of net]) (simp_all add: AddServer_def sizes_ok_def net_inv_def)
  qed
  have len_e: "length (cf_endnames cfg) = cf_n cfg" "length (cf_connected cfg) = cf_n cfg"
    using inv by (simp_all add: net_inv_def sizes_ok_def)
  have e_i: "end_at cfg' i j = Some (names ! j)" for j using i len_e by (simp add: end_at_def flds)
  have e_o: "end_at cfg' a b = end_at ?c a b" if "a \<noteq> i" for a b using that sav by (simp add: end_at_def flds)
  have known: "net_known (cf_net ?c) x" if "end_at ?c a b = Some x" "a < cf_n cfg" "b < cf_n cfg" for a b x
    using cinv that sav by (simp add: net_inv_def ends_known_def)
  have fresh: "\<not> net_known (cf_net ?c) (names ! j)" if "j < cf_n cfg" for j
    using ends that len by (simp add: ends_made_def)
  have notconn: "\<not> cf_connected ?c ! i" using i len_e sav by simp
  have clash: False if "b < cf_n cfg" "a' < cf_n cfg" "b' < cf_n cfg" "end_at ?c a' b' = Some (names ! b)" for b a' b'
    using known [OF that(4,2,3)] fresh [OF that(1)] by contradiction
  have "ends_inj cfg'"
    unfolding ends_inj_def flds
  proof (intro allI impI)
    fix a b a' b' x
    assume lt: "a < cf_n cfg" "b < cf_n cfg" "a' < cf_n cfg" "b' < cf_n cfg"
      and e: "end_at cfg' a b = Some x" "end_at cfg' a' b' = Some x"
    consider "a = i" "a' = i" | "a = i" "a' \<noteq> i" | "a \<noteq> i" "a' = i" | "a \<noteq> i" "a' \<noteq> i" by blast
    then show "a = a' \<and> b = b'"
    proof cases
      case 1
      have "distinct names" using ends by (simp add: ends_made_def)
      moreover have "names ! b = names ! b'" using 1 e by (simp add: e_i)
      ultimately show ?thesis using 1 lt len by (simp add: nth_eq_iff_index_eq)
    next
      case 4
      then show ?thesis using e lt cinv sav by (auto simp: e_o net_inv_def ends_inj_def)
    next
      case 2
      then show ?thesis using clash [of b a' b'] e lt by (simp add: e_i e_o)
    next
      case 3
      then show ?thesis using clash [of b' a b] e lt by (simp add: e_i e_o)
    qed
  qed
  moreover have "ends_known cfg'"
    unfolding ends_known_def flds
  proof (intro allI impI)
    fix a b x assume "a < cf_n cfg" "b < cf_n cfg" "end_at cfg' a b = Some x"
    then show "gm_get (net_ends net) (IStr x) \<noteq> None"
      using ends known e_i e_o len unfolding ends_made_def by (metis nth_mem option.inject)
  qed
  moreover have "net_on (cf_net cfg') x \<longleftrightarrow> linked cfg' x" for x
  proof -
    have on: "net_on (cf_net cfg') x \<longleftrightarrow> linked ?c x \<and> x \<notin> set names"
      using ends cinv by (simp add: flds ends_made_def net_inv_def)
    have "linked cfg' x \<longleftrightarrow> linked ?c x"
    proof
      assume "linked cfg' x"
      then obtain a b where ab: "end_at cfg' a b = Some x" "a < cf_n cfg" "b < cf_n cfg" "cf_connected ?c ! a" "cf_connected ?c ! b"
        using sav by (elim linkedE) (simp add: flds)
      then have "a \<noteq> i" using notconn by blast
      then show "linked ?c x" using ab sav by (intro linkedI [of _ a b]) (simp_all add: e_o)
    next
      assume "linked ?c x"
      then obtain a b where ab: "end_at ?c a b = Some x" "a < cf_n cfg" "b < cf_n cfg" "cf_connected ?c ! a" "cf_connected ?c ! b"
        using sav by (elim linkedE) simp
      then have "a \<noteq> i" using notconn by blast
      then show "linked cfg' x" using ab sav by (intro linkedI [of _ a b]) (simp_all add: e_o flds)
    qed
    moreover have "linked ?c x \<Longrightarrow> x \<notin> set names"
      using ends known sav unfolding ends_made_def by (metis crash1_simps(1) linkedE)
    ultimately show ?thesis using on by blast
  qed
  ultimately show ?thesis using flds(4) by (simp add: net_inv_def)
qed

subsection \<open>The invariant of the persisters\<close>

definition persisted :: "('v, 'c) config \<Rightarrow> nat \<Rightarrow> Persister option" where
  "persisted cfg i = map_option (\<lambda>a. cf_store cfg ! a) (cf_saved cfg ! i)"

text \<open>Every server has its own persister, the live peer uses it, and no old peer does.\<close>

definition ps_inv :: "('v, 'c) config \<Rightarrow> bool" where
  "ps_inv cfg \<longleftrightarrow> sizes_ok cfg \<and>
     (\<forall>i < cf_n cfg. \<forall>a. cf_saved cfg ! i = Some a \<longrightarrow> a < length (cf_store cfg) \<and>
        (\<forall>j < cf_n cfg. cf_saved cfg ! j = Some a \<longrightarrow> j = i) \<and> (\<forall>rf \<in> set (cf_old cfg). rf_persister rf \<noteq> a)) \<and>
     (\<forall>i < cf_n cfg. \<forall>rf. cf_rafts cfg ! i = Some rf \<longrightarrow> cf_saved cfg ! i = Some (rf_persister rf)) \<and>
     (\<forall>rf \<in> set (cf_old cfg). rf_persister rf < length (cf_store cfg))"

definition save_at :: "addr \<Rightarrow> byte list \<Rightarrow> ('v, 'c) config \<Rightarrow> ('v, 'c) config" where
  "save_at a data cfg = cfg\<lparr>cf_store := (cf_store cfg)[a := SaveRaftState data (cf_store cfg ! a)]\<rparr>"

lemma ps_inv_cong:
  "cf_n cfg' = cf_n cfg \<Longrightarrow> cf_saved cfg' = cf_saved cfg \<Longrightarrow> length (cf_store cfg') = length (cf_store cfg) \<Longrightarrow>
   cf_rafts cfg' = cf_rafts cfg \<Longrightarrow> cf_old cfg' = cf_old cfg \<Longrightarrow> sizes_ok cfg' \<Longrightarrow> ps_inv cfg \<Longrightarrow> ps_inv cfg'"
  unfolding ps_inv_def by metis

lemma persister_Kill [simp]: "rf_persister (Kill rf) = rf_persister rf"
  by (simp add: Kill_def)

lemma crash1_fields:
  assumes "i < length (cf_saved cfg)"
  shows "cf_saved (crash1 i cfg) =
      (case cf_saved cfg ! i of None \<Rightarrow> cf_saved cfg | Some a \<Rightarrow> (cf_saved cfg)[i := Some (Suc (length (cf_store cfg)))])"
    "cf_store (crash1 i cfg) =
      cf_store cfg @ (case cf_saved cfg ! i of None \<Rightarrow> [] | Some a \<Rightarrow> [cf_store cfg ! a, cf_store cfg ! a])"
    "cf_rafts (crash1 i cfg) = (cf_rafts cfg)[i := None]"
    "cf_old (crash1 i cfg) = (case cf_rafts cfg ! i of None \<Rightarrow> [] | Some rf \<Rightarrow> [Kill rf]) @ cf_old cfg"
  using assms by (simp_all add: crash1_eq split: option.split)

lemma crash1_persisted:
  assumes "ps_inv cfg" "i < cf_n cfg" "j < cf_n cfg"
  shows "persisted (crash1 i cfg) j = persisted cfg j"
proof -
  have len: "i < length (cf_saved cfg)" "length (cf_saved cfg) = cf_n cfg" using assms by (simp_all add: ps_inv_def sizes_ok_def)
  have valid: "a < length (cf_store cfg)" if "cf_saved cfg ! j = Some a" for a using assms that by (simp add: ps_inv_def)
  show ?thesis
  proof (cases "j = i")
    case True
    then show ?thesis using len
      by (cases "cf_saved cfg ! i") (simp_all add: persisted_def crash1_fields nth_append)
  next
    case False
    then show ?thesis using len valid
      by (cases "cf_saved cfg ! i"; cases "cf_saved cfg ! j") (simp_all add: persisted_def crash1_fields nth_append)
  qed
qed

text \<open>A server gets a fresh persister; its peer, if any, becomes old, and a new peer, if any, uses it.\<close>

lemma ps_inv_fresh:
  assumes inv: "ps_inv cfg" and i: "i < cf_n cfg" and n: "cf_n cfg' = cf_n cfg" and sizes: "sizes_ok cfg'"
    and store: "length (cf_store cfg) \<le> a" "a < length (cf_store cfg')"
    and saved: "cf_saved cfg' = (cf_saved cfg)[i := Some a]" and rafts: "cf_rafts cfg' = (cf_rafts cfg)[i := r]"
    and r: "\<And>rf. r = Some rf \<Longrightarrow> rf_persister rf = a"
    and old: "cf_old cfg' = (case cf_rafts cfg ! i of None \<Rightarrow> [] | Some rf \<Rightarrow> [Kill rf]) @ cf_old cfg"
  shows "ps_inv cfg'"
proof -
  have len: "length (cf_saved cfg) = cf_n cfg" "length (cf_rafts cfg) = cf_n cfg" using inv by (simp_all add: ps_inv_def sizes_ok_def)
  have get: "cf_saved cfg' ! k = (if k = i then Some a else cf_saved cfg ! k)" for k using i len by (simp add: saved)
  have below: "b < length (cf_store cfg)" if "cf_saved cfg ! k = Some b" "k < cf_n cfg" for k b
    using inv that by (simp add: ps_inv_def)
  have uniq: "j = k" if "cf_saved cfg ! j = Some b" "cf_saved cfg ! k = Some b" "j < cf_n cfg" "k < cf_n cfg" for j b k
    using inv that unfolding ps_inv_def by blast
  have gone: "rf_persister rf < length (cf_store cfg) \<and> (\<forall>k < cf_n cfg. cf_saved cfg ! k \<noteq> Some (rf_persister rf))"
    if "rf \<in> set (cf_old cfg)" for rf
    using inv that unfolding ps_inv_def by blast
  have live: "cf_saved cfg ! i = Some (rf_persister rf)" if "cf_rafts cfg ! i = Some rf" for rf
    using inv that i unfolding ps_inv_def by blast
  have olds: "rf_persister rf < length (cf_store cfg)" "\<And>k. k < cf_n cfg \<Longrightarrow> k \<noteq> i \<Longrightarrow> cf_saved cfg ! k \<noteq> Some (rf_persister rf)"
    if rf: "rf \<in> set (cf_old cfg')" for rf
  proof -
    have "rf \<in> set (cf_old cfg) \<or> (\<exists>rf'. cf_rafts cfg ! i = Some rf' \<and> rf_persister rf = rf_persister rf')"
      using rf by (cases "cf_rafts cfg ! i") (auto simp: old)
    then show "rf_persister rf < length (cf_store cfg)" "\<And>k. k < cf_n cfg \<Longrightarrow> k \<noteq> i \<Longrightarrow> cf_saved cfg ! k \<noteq> Some (rf_persister rf)"
      using gone [of rf] live below uniq i by metis+
  qed
  show ?thesis
    unfolding ps_inv_def n
  proof (intro conjI allI impI ballI sizes)
    fix k b assume k: "k < cf_n cfg" "cf_saved cfg' ! k = Some b"
    show "b < length (cf_store cfg')" using k below [of k b] store by (auto simp: get split: if_splits)
    have own: "l = i \<longleftrightarrow> b = a" if "l < cf_n cfg" "cf_saved cfg' ! l = Some b" for l
      using that below [of l b] store(1) by (cases "l = i") (auto simp: get)
    show "j = k" if j: "j < cf_n cfg" "cf_saved cfg' ! j = Some b" for j
    proof (cases "b = a")
      case True
      then show ?thesis using own [OF j] own [OF k] by simp
    next
      case False
      then show ?thesis using own [OF j] own [OF k] uniq [of j b k] j k by (simp add: get)
    qed
    show "rf_persister rf \<noteq> b" if "rf \<in> set (cf_old cfg')" for rf
      using olds [OF that] k store by (auto simp: get split: if_splits)
  next
    fix k rf assume "k < cf_n cfg" "cf_rafts cfg' ! k = Some rf"
    then show "cf_saved cfg' ! k = Some (rf_persister rf)"
      using inv r len i by (cases "k = i") (auto simp: get rafts ps_inv_def)
  next
    fix rf assume "rf \<in> set (cf_old cfg')"
    then show "rf_persister rf < length (cf_store cfg')" using olds(1) store by fastforce
  qed
qed

lemma crash1_ps_inv:
  assumes "ps_inv cfg" "i < cf_n cfg"
  shows "ps_inv (crash1 i cfg)"
proof -
  have len: "i < length (cf_saved cfg)" "sizes_ok (crash1 i cfg)"
    using assms by (simp_all add: ps_inv_def sizes_ok_def)
  show ?thesis
  proof (cases "cf_saved cfg ! i")
    case None
    then have "cf_rafts cfg ! i = None" using assms unfolding ps_inv_def by (metis not_None_eq)
    moreover from this have "(cf_rafts cfg)[i := None] = cf_rafts cfg" by (metis list_update_id)
    ultimately show ?thesis
      using None len assms(1) by (intro ps_inv_cong [of "crash1 i cfg" cfg]) (simp_all add: crash1_fields)
  next
    case (Some b)
    then show ?thesis
      using len assms by (intro ps_inv_fresh [of cfg i "crash1 i cfg" "Suc (length (cf_store cfg))" None]) (simp_all add: crash1_fields)
  qed
qed

lemma start1_persister:
  assumes inv: "ps_inv cfg" and i: "i < cf_n cfg" and ret: "start1 methods i names cfg = Ret cfg'"
  shows "ps_inv cfg'"
    and "persisted cfg' i = Some (case persisted cfg i of None \<Rightarrow> MakePersister | Some p \<Rightarrow> p)"
    and "\<And>j. j < cf_n cfg \<Longrightarrow> j \<noteq> i \<Longrightarrow> persisted cfg' j = persisted cfg j"
    and "\<exists>rf. cf_rafts cfg' ! i = Some rf \<and> \<not> killed rf \<and> peers rf = map (\<lambda>x. \<lparr>ce_endname = IStr x\<rparr>) names"
    and "cf_n cfg' = cf_n cfg"
    and "cf_old cfg' = (case cf_rafts cfg ! i of None \<Rightarrow> [] | Some rf \<Rightarrow> [Kill rf]) @ cf_old cfg"
proof -
  let ?c = "crash1 i cfg"
  let ?p = "case cf_saved ?c ! i of None \<Rightarrow> MakePersister | Some b \<Rightarrow> cf_store ?c ! b"
  have sav: "i < length (cf_saved cfg)" using inv i by (simp add: ps_inv_def sizes_ok_def)
  have cinv: "ps_inv ?c" using inv i by (rule crash1_ps_inv)
  obtain net ends srv where cfg': "ends = map (\<lambda>x. \<lparr>ce_endname = IStr x\<rparr>) names"
    "cfg' = ?c\<lparr>cf_endnames := (cf_endnames ?c)[i := Some names], cf_saved := (cf_saved ?c)[i := Some (length (cf_store ?c))],
       cf_store := cf_store ?c @ [?p], cf_rafts := (cf_rafts ?c)[i := Some (Make ends (int i) (length (cf_store ?c)) ?p)],
       cf_net := AddServer (IInt (int i)) (cf_srvs ?c) srv net, cf_srvs := Suc (cf_srvs ?c)\<rparr>"
  proof (rule start1_eq [OF ret sav], goal_cases)
    case 1
    then show ?case using sav by simp
  next
    case (2 net ends srv)
    then show ?case by (intro 2(1))
  qed
  have len: "length (cf_saved ?c) = cf_n cfg" "length (cf_rafts ?c) = cf_n cfg" "cf_rafts ?c ! i = None"
    using cinv sav i by (simp_all add: ps_inv_def sizes_ok_def crash1_fields)
  have sizes: "sizes_ok cfg'" using cinv by (simp add: cfg'(2) ps_inv_def sizes_ok_def)
  show "cf_n cfg' = cf_n cfg" using sav by (simp add: cfg'(2))
  show "cf_old cfg' = (case cf_rafts cfg ! i of None \<Rightarrow> [] | Some rf \<Rightarrow> [Kill rf]) @ cf_old cfg"
    using sav by (simp add: cfg'(2) crash1_fields)
  show "ps_inv cfg'"
    using sav i sizes len(3) by (intro ps_inv_fresh [OF cinv, of i cfg' "length (cf_store ?c)"
          "Some (Make ends (int i) (length (cf_store ?c)) ?p)"]) (auto simp: cfg'(2) Make_eq)
  have old: "persisted ?c j = persisted cfg j" if "j < cf_n cfg" for j using inv i that by (rule crash1_persisted)
  have "persisted cfg' i = Some ?p" using i len by (simp add: persisted_def cfg'(2))
  moreover have "?p = (case persisted ?c i of None \<Rightarrow> MakePersister | Some p \<Rightarrow> p)"
    by (simp add: persisted_def split: option.split)
  ultimately show "persisted cfg' i = Some (case persisted cfg i of None \<Rightarrow> MakePersister | Some p \<Rightarrow> p)"
    using old [OF i] by simp
  show "persisted cfg' j = persisted cfg j" if "j < cf_n cfg" "j \<noteq> i" for j
  proof -
    have "a < length (cf_store ?c)" if "cf_saved ?c ! j = Some a" for a
      using cinv that \<open>j < cf_n cfg\<close> sav by (simp add: ps_inv_def)
    then have "persisted cfg' j = persisted ?c j"
      using that by (cases "cf_saved ?c ! j") (simp_all add: persisted_def cfg'(2) nth_append)
    then show ?thesis using old [OF that(1)] by simp
  qed
  show "\<exists>rf. cf_rafts cfg' ! i = Some rf \<and> \<not> killed rf \<and> peers rf = map (\<lambda>x. \<lparr>ce_endname = IStr x\<rparr>) names"
    using i len by (simp add: cfg' Make_eq killed_def)
qed

subsection \<open>All runs of the tester\<close>

text \<open>
  What tests do with a cluster, in any order, together with peers, live or old, that save their state at any
  time, and the checks that record committed entries (\<open>Raft_Checks\<close>).
\<close>

inductive cfg_step :: "('v, 'c) config \<Rightarrow> ('v, 'c) config \<Rightarrow> bool" where
  st_connect: "i < cf_n cfg \<Longrightarrow> connect i cfg = Ret cfg' \<Longrightarrow> cfg_step cfg cfg'"
| st_disconnect: "i < cf_n cfg \<Longrightarrow> cfg_step cfg (disconnect i cfg)"
| st_crash: "i < cf_n cfg \<Longrightarrow> cfg_step cfg (crash1 i cfg)"
| st_start: "i < cf_n cfg \<Longrightarrow> length names = cf_n cfg \<Longrightarrow> start1 methods i names cfg = Ret cfg' \<Longrightarrow> cfg_step cfg cfg'"
| st_unreliable: "cfg_step cfg (setunreliable b cfg)"
| st_reorder: "cfg_step cfg (setlongreordering b cfg)"
| st_save_live: "i < cf_n cfg \<Longrightarrow> cf_rafts cfg ! i = Some rf \<Longrightarrow> cfg_step cfg (save_at (rf_persister rf) data cfg)"
| st_save_old: "rf \<in> set (cf_old cfg) \<Longrightarrow> cfg_step cfg (save_at (rf_persister rf) data cfg)"
| st_logs: "length logs = cf_n cfg \<Longrightarrow> cfg_step cfg (cfg\<lparr>cf_logs := logs, cf_maxIndex := m\<rparr>)"

definition cfg_init :: "('v, 'c) config \<Rightarrow> bool" where
  "cfg_init cfg \<longleftrightarrow> (\<exists>n unreliable. cfg = blank_config n unreliable)"

definition cfg_inv :: "('v, 'c) config \<Rightarrow> bool" where
  "cfg_inv cfg \<longleftrightarrow> net_inv cfg \<and> ps_inv cfg"

lemma cfg_inv_init: "cfg_init cfg \<Longrightarrow> cfg_inv cfg"
  by (auto simp: cfg_init_def cfg_inv_def net_inv_def ps_inv_def sizes_ok_def ends_inj_def ends_known_def linked_def
      blank_config_def end_at_def LongDelays_def Reliable_def MakeNetwork_def gm_getz_def)

lemma sizes_of: "cfg_inv cfg \<Longrightarrow> sizes_ok cfg"
  by (simp add: cfg_inv_def net_inv_def)

lemma cfg_inv_same:
  assumes "cfg_inv cfg" "cf_endnames cfg' = cf_endnames cfg" "cf_n cfg' = cf_n cfg" "cf_connected cfg' = cf_connected cfg"
    "net_ends (cf_net cfg') = net_ends (cf_net cfg)" "net_enabled (cf_net cfg') = net_enabled (cf_net cfg)" "sizes_ok cfg'"
    "cf_saved cfg' = cf_saved cfg" "length (cf_store cfg') = length (cf_store cfg)" "cf_rafts cfg' = cf_rafts cfg"
    "cf_old cfg' = cf_old cfg"
  shows "cfg_inv cfg'"
  using assms net_inv_cong [of cfg' cfg] ps_inv_cong [of cfg' cfg] by (simp add: cfg_inv_def)

lemma connect_ps: "connect i cfg = Ret cfg' \<Longrightarrow> sizes_ok cfg' \<Longrightarrow> ps_inv cfg \<Longrightarrow> ps_inv cfg'"
  by (rule ps_inv_cong [of cfg' cfg]) (auto simp: connect_def Let_def split: if_splits)

lemma cfg_inv_step: "cfg_step cfg cfg' \<Longrightarrow> cfg_inv cfg \<Longrightarrow> cfg_inv cfg'"
proof (induction rule: cfg_step.induct)
  case (st_connect i cfg cfg')
  then have "net_inv cfg'" by (auto simp: cfg_inv_def intro: connect_inv)
  then show ?case using st_connect connect_ps by (auto simp: cfg_inv_def net_inv_def)
next
  case (st_disconnect i cfg)
  then have n: "net_inv (disconnect i cfg)" by (auto simp: cfg_inv_def intro: disconnect_inv)
  moreover have "ps_inv (disconnect i cfg)"
    using st_disconnect n by (intro ps_inv_cong [of "disconnect i cfg" cfg]) (simp_all add: cfg_inv_def net_inv_def)
  ultimately show ?case by (simp add: cfg_inv_def)
next
  case (st_crash i cfg)
  then show ?case using crash1_inv crash1_ps_inv unfolding cfg_inv_def by blast
next
  case (st_start i cfg names methods cfg')
  then show ?case using start1_inv start1_persister(1) unfolding cfg_inv_def by blast
next
  case (st_unreliable cfg b)
  then show ?case
    using sizes_of [OF st_unreliable] by (rule_tac cfg_inv_same [of cfg]) (simp_all add: setunreliable_def Reliable_def sizes_ok_def)
next
  case (st_reorder cfg b)
  then show ?case
    using sizes_of [OF st_reorder] by (rule_tac cfg_inv_same [of cfg]) (simp_all add: setlongreordering_def LongReordering_def sizes_ok_def)
next
  case (st_save_live i cfg rf data)
  then show ?case
    using sizes_of [OF st_save_live(3)] by (rule_tac cfg_inv_same [of cfg]) (simp_all add: save_at_def sizes_ok_def)
next
  case (st_save_old rf cfg data)
  then show ?case
    using sizes_of [OF st_save_old(2)] by (rule_tac cfg_inv_same [of cfg]) (simp_all add: save_at_def sizes_ok_def)
next
  case (st_logs logs cfg m)
  then show ?case
    using sizes_of [OF st_logs(2)] by (rule_tac cfg_inv_same [of cfg]) (simp_all add: sizes_ok_def)
qed

interpretation cfgs: inv_system cfg_init cfg_step cfg_inv
  by unfold_locales (auto intro: cfg_inv_init cfg_inv_step)

text \<open>An end that the network knows and that is no current end will never be one again.\<close>

definition retired :: "string \<Rightarrow> ('v, 'c) config \<Rightarrow> bool" where
  "retired x cfg \<longleftrightarrow> net_known (cf_net cfg) x \<and> (\<forall>a < cf_n cfg. \<forall>b < cf_n cfg. end_at cfg a b \<noteq> Some x)"

lemma retired_off: "cfg_inv cfg \<Longrightarrow> retired x cfg \<Longrightarrow> \<not> net_on (cf_net cfg) x"
  by (auto simp: cfg_inv_def net_inv_def linked_def retired_def)

lemma retired_cong:
  "cf_endnames cfg' = cf_endnames cfg \<Longrightarrow> cf_n cfg' = cf_n cfg \<Longrightarrow> net_ends (cf_net cfg') = net_ends (cf_net cfg) \<Longrightarrow>
   retired x cfg \<Longrightarrow> retired x cfg'"
  using end_at_cong [of cfg' cfg] by (simp add: retired_def)

lemma start1_ends:
  assumes inv: "cfg_inv cfg" and i: "i < cf_n cfg" and ret: "start1 methods i names cfg = Ret cfg'"
  shows "net_known (cf_net cfg') x \<longleftrightarrow> net_known (cf_net cfg) x \<or> x \<in> set names"
    and "\<forall>x \<in> set names. \<not> net_known (cf_net cfg) x" and "cf_n cfg' = cf_n cfg"
    and "cf_endnames cfg' = (cf_endnames cfg)[i := Some names]"
proof -
  have sav: "i < length (cf_saved cfg)" using inv i by (simp add: cfg_inv_def sizes_saved)
  obtain net where "ends_made names (cf_net (crash1 i cfg)) net" "net_ends (cf_net cfg') = net_ends net"
    "cf_n cfg' = cf_n cfg" "cf_endnames cfg' = (cf_endnames cfg)[i := Some names]"
  proof (rule start1_eq [OF ret sav], goal_cases)
    case 1
    then show ?case using sav by simp
  next
    case (2 net ends srv)
    then show ?case using sav by (intro 2(1) [of net]) (simp_all add: AddServer_def)
  qed
  then show "net_known (cf_net cfg') x \<longleftrightarrow> net_known (cf_net cfg) x \<or> x \<in> set names"
    "\<forall>x \<in> set names. \<not> net_known (cf_net cfg) x" "cf_n cfg' = cf_n cfg"
    "cf_endnames cfg' = (cf_endnames cfg)[i := Some names]"
    using sav by (simp_all add: ends_made_def)
qed

lemma retired_step: "cfg_step cfg cfg' \<Longrightarrow> cfg_inv cfg \<Longrightarrow> retired x cfg \<Longrightarrow> retired x cfg'"
proof (induction rule: cfg_step.induct)
  case (st_start i cfg names methods cfg')
  note new = start1_ends [OF st_start.prems(1) st_start.hyps(1,3)]
  have len: "length (cf_endnames cfg) = cf_n cfg" using st_start.prems(1) by (simp add: cfg_inv_def net_inv_def sizes_ok_def)
  have "x \<notin> set names" using new(2) st_start.prems(2) by (auto simp: retired_def)
  then have "end_at cfg' a b \<noteq> Some x" if "a < cf_n cfg" "b < cf_n cfg" for a b
    using that st_start.prems(2) st_start.hyps(2) len
    by (cases "a = i") (auto simp: end_at_def new(4) retired_def)
  then show ?case using st_start.prems(2) new(1,3) by (simp add: retired_def)
next
  case (st_crash i cfg)
  then have "i < length (cf_saved cfg)" by (simp add: cfg_inv_def sizes_saved)
  then show ?case using st_crash by (intro retired_cong [of "crash1 i cfg" cfg]) simp_all
next
  case (st_connect i cfg cfg')
  then show ?case by (intro retired_cong [of cfg' cfg]) (auto simp: connect_def Let_def split: if_splits)
qed (erule retired_cong [rotated 3];
    simp add: setunreliable_def Reliable_def setlongreordering_def LongReordering_def save_at_def)+

lemma retired_steps: "cfg_step\<^sup>*\<^sup>* cfg cfg' \<Longrightarrow> cfg_inv cfg \<Longrightarrow> retired x cfg \<Longrightarrow> cfg_inv cfg' \<and> retired x cfg'"
  by (induction rule: rtranclp_induct) (auto intro: cfg_inv_step retired_step)

subsection \<open>Making a cluster\<close>

text \<open>With fresh names a start always succeeds.\<close>

lemma make_ends_total:
  "distinct names \<Longrightarrow> \<forall>x \<in> set names. \<not> net_known net x \<Longrightarrow> \<exists>es net'. make_ends j names net = Ret (es, net')"
proof (induction names arbitrary: j net)
  case (Cons name names)
  obtain e net1 where 1: "MakeEnd (IStr name) net = Ret (e, net1)" using Cons.prems(2) by (auto simp: MakeEnd_def Let_def)
  have "\<forall>x \<in> set names. \<not> net_known (Connect (IStr name) (IInt (int j)) net1) x"
    using ends_made_one(1) [OF 1] Cons.prems unfolding ends_made_def by auto
  then obtain es net' where "make_ends (Suc j) names (Connect (IStr name) (IInt (int j)) net1) = Ret (es, net')"
    using Cons.IH Cons.prems(1) by (metis distinct.simps(2))
  then show ?case using 1 by simp
qed simp

lemma start1_total:
  assumes "cfg_inv cfg" "i < cf_n cfg" "distinct names" "\<forall>x \<in> set names. \<not> net_known (cf_net cfg) x"
  shows "\<exists>cfg'. start1 methods i names cfg = Ret cfg'"
proof -
  have "i < length (cf_saved cfg)" using assms(1,2) by (simp add: cfg_inv_def sizes_saved)
  then obtain es net where "make_ends 0 names (cf_net (crash1 i cfg)) = Ret (es, net)"
    using make_ends_total [OF assms(3), of "cf_net (crash1 i cfg)" 0] assms(4) by auto
  then show ?thesis by (simp add: start1_def Let_def)
qed

lemma start_all:
  assumes "\<forall>i < n. length (names i) = n" "set is \<subseteq> {..<n}" "distinct (concat (map names is))"
    "reach cfg_init cfg_step cfg" "cf_n cfg = n" "\<forall>x \<in> set (concat (map names is)). \<not> net_known (cf_net cfg) x"
  shows "\<exists>cfg'. go_foreach (\<lambda>i. start1 methods i (names i)) is cfg = Ret cfg' \<and> reach cfg_init cfg_step cfg' \<and> cf_n cfg' = n \<and>
    (\<forall>k < n. k \<in> set is \<or> cf_endnames cfg ! k \<noteq> None \<longrightarrow> cf_endnames cfg' ! k \<noteq> None)"
  using assms
proof (induction "is" arbitrary: cfg)
  case (Cons i js)
  have inv: "cfg_inv cfg" by (rule cfgs.reach_inv [OF Cons.prems(4)])
  have i: "i < cf_n cfg" "length (names i) = cf_n cfg" using Cons.prems(1,2,5) by auto
  obtain c where c: "start1 methods i (names i) cfg = Ret c"
    using start1_total [OF inv i(1), of "names i" methods] Cons.prems(3,6) by auto
  note new = start1_ends [OF inv i(1) c]
  have len: "length (cf_endnames cfg) = n" using inv Cons.prems(5) by (simp add: cfg_inv_def net_inv_def sizes_ok_def)
  have reach: "reach cfg_init cfg_step c"
    using reach_step [of cfg_init cfg_step cfg c] st_start [OF i c] Cons.prems(4) by blast
  have fresh: "\<forall>x \<in> set (concat (map names js)). \<not> net_known (cf_net c) x"
    using new(1) Cons.prems(3,6) by auto
  obtain cfg' where "go_foreach (\<lambda>i. start1 methods i (names i)) js c = Ret cfg'" "reach cfg_init cfg_step cfg'" "cf_n cfg' = n"
    "\<forall>k < n. k \<in> set js \<or> cf_endnames c ! k \<noteq> None \<longrightarrow> cf_endnames cfg' ! k \<noteq> None"
    using Cons.IH [OF Cons.prems(1) _ _ reach _ fresh] Cons.prems(2,3,5) new(3) by auto
  moreover have "cf_endnames c ! k \<noteq> None" if "k < n" "k = i \<or> cf_endnames cfg ! k \<noteq> None" for k
    using that new(4) len by (cases "k = i") simp_all
  ultimately show ?case using c by auto
qed simp

lemma connect_fields:
  assumes "connect i cfg = Ret cfg'"
  shows "cf_n cfg' = cf_n cfg" "cf_connected cfg' = (cf_connected cfg)[i := True]" "cf_endnames cfg' = cf_endnames cfg"
    "i < cf_n cfg \<Longrightarrow> length (cf_connected cfg) = cf_n cfg \<Longrightarrow> cf_endnames cfg ! i \<noteq> None"
  using assms by (auto simp: connect_def Let_def end_at_def split: if_splits)

lemma connect_total:
  assumes "\<forall>k < cf_n cfg. cf_endnames cfg ! k \<noteq> None" "i < cf_n cfg"
  shows "\<exists>cfg'. connect i cfg = Ret cfg'"
proof -
  have "None \<noteq> end_at cfg a b" if "a < cf_n cfg" for a b using assms(1) that by (auto simp: end_at_def)
  then show ?thesis using assms(2) by (auto simp: connect_def Let_def)
qed

lemma connect_all:
  assumes "set is \<subseteq> {..<n}" "reach cfg_init cfg_step cfg" "cf_n cfg = n" "\<forall>k < n. cf_endnames cfg ! k \<noteq> None"
  shows "\<exists>cfg'. go_foreach connect is cfg = Ret cfg' \<and> reach cfg_init cfg_step cfg' \<and> cf_n cfg' = n \<and>
    cf_endnames cfg' = cf_endnames cfg \<and> (\<forall>k < n. k \<in> set is \<or> cf_connected cfg ! k \<longrightarrow> cf_connected cfg' ! k)"
  using assms
proof (induction "is" arbitrary: cfg)
  case (Cons i js)
  have i: "i < cf_n cfg" using Cons.prems(1,3) by simp
  obtain c where c: "connect i cfg = Ret c" using connect_total [OF _ i] Cons.prems(3,4) by blast
  note flds = connect_fields [OF c]
  have len: "length (cf_connected cfg) = n"
    using cfgs.reach_inv [OF Cons.prems(2)] Cons.prems(3) by (simp add: cfg_inv_def net_inv_def sizes_ok_def)
  have reach: "reach cfg_init cfg_step c" using reach_step [OF Cons.prems(2) st_connect [OF i c]] .
  obtain cfg' where "go_foreach connect js c = Ret cfg'" "reach cfg_init cfg_step cfg'" "cf_n cfg' = n"
    "cf_endnames cfg' = cf_endnames c" "\<forall>k < n. k \<in> set js \<or> cf_connected c ! k \<longrightarrow> cf_connected cfg' ! k"
    using Cons.IH [OF _ reach] Cons.prems(1,3,4) flds(1,3) by auto
  moreover have "cf_connected c ! k" if "k < n" "k = i \<or> cf_connected cfg ! k" for k
    using that flds(2) len by (cases "k = i") simp_all
  ultimately show ?case using c flds(3) by auto
qed simp

lemma make_config_ready:
  fixes methods :: "Raft \<Rightarrow> 'v rmethod list"
  assumes "\<forall>i < n. length (names i) = n" and "distinct (concat (map names [0..<n]))"
  shows "\<exists>cfg :: ('v, 'c) config. make_config methods n unreliable names = Ret cfg \<and> reach cfg_init cfg_step cfg \<and> cf_n cfg = n \<and>
    (\<forall>i < n. cf_connected cfg ! i) \<and> (\<forall>i < n. cf_endnames cfg ! i \<noteq> None)"
proof -
  let ?b = "blank_config n unreliable :: ('v, 'c) config"
  have init: "reach cfg_init cfg_step ?b" by (rule reach_init) (auto simp: cfg_init_def)
  have "\<not> net_known (cf_net ?b) x" for x
    by (simp add: blank_config_def LongDelays_def Reliable_def MakeNetwork_def)
  then obtain c :: "('v, 'c) config" where c: "go_foreach (\<lambda>i. start1 methods i (names i)) [0..<n] (blank_config n unreliable) = Ret c"
    "reach cfg_init cfg_step c" "cf_n c = n" "\<forall>k < n. cf_endnames c ! k \<noteq> None"
    using start_all [OF assms(1) _ assms(2) init, of methods] by (auto simp: blank_config_def atLeast0LessThan)
  obtain cfg :: "('v, 'c) config" where cfg: "go_foreach connect [0..<n] c = Ret cfg" "reach cfg_init cfg_step cfg" "cf_n cfg = n"
    "cf_endnames cfg = cf_endnames c" "\<forall>k < n. cf_connected cfg ! k"
    using connect_all [OF _ c(2-4), of "[0..<n]"] by (auto simp: atLeast0LessThan)
  have "make_config methods n unreliable names = Ret cfg" using c(1) cfg(1) by (simp add: make_config_def)
  then show ?thesis using cfg c(4) by auto
qed

lemma all_ends_on:
  assumes "cfg_inv cfg" "cf_connected cfg ! i" "cf_connected cfg ! j" "cf_endnames cfg ! i \<noteq> None" "i < cf_n cfg" "j < cf_n cfg"
  shows "\<exists>x. end_at cfg i j = Some x \<and> net_on (cf_net cfg) x"
proof -
  obtain x where x: "end_at cfg i j = Some x" using assms(4) by (auto simp: end_at_def)
  then have "linked cfg x" using assms by (intro linkedI [of cfg i j])
  then show ?thesis using x assms(1) by (auto simp: cfg_inv_def net_inv_def)
qed

text \<open>A server started three times in a row, for the witnesses.\<close>

definition solo_started :: "(nat, nat) config \<Rightarrow> string \<Rightarrow> (nat, nat) config \<Rightarrow> bool" where
  "solo_started c x c' \<longleftrightarrow> start1 (\<lambda>_. []) 0 [x] c = Ret c' \<and> reach cfg_init cfg_step c' \<and> cf_n c' = 1 \<and>
    (\<forall>y. net_known (cf_net c') y \<longleftrightarrow> net_known (cf_net c) y \<or> y = x) \<and> end_at c' 0 0 = Some x \<and>
    cf_rafts c' ! 0 \<noteq> None \<and> (cf_rafts c ! 0 \<noteq> None \<longrightarrow> cf_old c' \<noteq> [])"

lemma solo_startedD:
  assumes "solo_started c x c'"
  shows "start1 (\<lambda>_. []) 0 [x] c = Ret c'" "reach cfg_init cfg_step c'" "cf_n c' = 1"
    "net_known (cf_net c') y \<longleftrightarrow> net_known (cf_net c) y \<or> y = x" "end_at c' 0 0 = Some x"
    "cf_rafts c' ! 0 \<noteq> None" "cf_rafts c ! 0 \<noteq> None \<Longrightarrow> cf_old c' \<noteq> []"
  using assms unfolding solo_started_def by simp_all

lemma solo_start:
  assumes "reach cfg_init cfg_step c" "cf_n c = 1" "\<not> net_known (cf_net c) x"
  shows "\<exists>c'. solo_started c x c'"
proof -
  have inv: "cfg_inv c" by (rule cfgs.reach_inv [OF assms(1)])
  have ps: "ps_inv c" and len: "length (cf_endnames c) = 1" and 0: "0 < cf_n c"
    using inv assms(2) by (simp_all add: cfg_inv_def net_inv_def sizes_ok_def)
  obtain c' where c': "start1 (\<lambda>_. []) 0 [x] c = Ret c'" using start1_total [OF inv 0, of "[x]"] assms(3) by auto
  have "reach cfg_init cfg_step c'" using reach_step [OF assms(1) st_start [OF 0 _ c']] assms(2) by simp
  then show ?thesis
    using c' start1_ends [OF inv 0 c'] start1_persister(4,6) [OF ps 0 c'] assms(2) len by (auto simp: end_at_def solo_started_def)
qed

lemma solo_run:
  obtains c c1 c2 :: "(nat, nat) config" where
    "start1 (\<lambda>_. []) 0 [''x''] c = Ret c1" "start1 (\<lambda>_. []) 0 [''y''] c1 = Ret c2" "end_at c 0 0 = Some ''a''" "cf_old c1 \<noteq> []"
    "reach cfg_init cfg_step c" "reach cfg_init cfg_step c1" "cf_n c = 1" "cf_n c1 = 1"
proof -
  let ?b = "blank_config 1 False :: (nat, nat) config"
  have b: "reach cfg_init cfg_step ?b" "cf_n ?b = 1" "\<And>x. \<not> net_known (cf_net ?b) x"
    by (rule reach_init) (auto simp: cfg_init_def blank_config_def LongDelays_def Reliable_def MakeNetwork_def)
  obtain c where c: "solo_started ?b ''a'' c" using solo_start [OF b, of "''a''"] by blast
  note cD = solo_startedD [OF c]
  have "\<not> net_known (cf_net c) ''x''" unfolding cD(4) using b(3) by simp
  then obtain c1 where c1: "solo_started c ''x'' c1" using solo_start [OF cD(2,3), of "''x''"] by blast
  note c1D = solo_startedD [OF c1]
  have "\<not> net_known (cf_net c1) ''y''" unfolding c1D(4) cD(4) using b(3) by simp
  then obtain c2 where c2: "solo_started c1 ''y'' c2" using solo_start [OF c1D(2,3), of "''y''"] by blast
  show ?thesis using that [OF c1D(1) solo_startedD(1) [OF c2] cD(5) c1D(7) [OF cD(6)] cD(2) c1D(2) cD(3) c1D(3)] .
qed

subsection \<open>Properties\<close>

text \<open>
  \<open>make_config\<close> returns whenever the random end names are all different (otherwise \<open>MakeEnd\<close> ends the
  process), and then every server of the cluster is connected and the client end of every ordered
  pair of servers is enabled.
\<close>

theorem make_config_all_connected:
  fixes methods :: "Raft \<Rightarrow> 'v rmethod list"
  assumes "\<forall>i < n. length (names i) = n" and "distinct (concat (map names [0..<n]))"
  shows "\<exists>cfg :: ('v, 'c) config. make_config methods n unreliable names = Ret cfg \<and> cf_n cfg = n \<and>
    (\<forall>i < n. \<forall>j < n. cf_connected cfg ! i \<and>
       (\<exists>x. end_at cfg i j = Some x \<and> gm_getz False (net_enabled (cf_net cfg)) (IStr x)))"
proof -
  obtain cfg :: "('v, 'c) config" where "make_config methods n unreliable names = Ret cfg" "reach cfg_init cfg_step cfg" "cf_n cfg = n"
    "\<forall>i < n. cf_connected cfg ! i" "\<forall>i < n. cf_endnames cfg ! i \<noteq> None"
    using make_config_ready [OF assms] by blast
  then show ?thesis using all_ends_on [OF cfgs.reach_inv [of cfg]] by (intro exI [of _ cfg]) simp
qed

theorem make_config_all_connected_witness:
  "\<exists>cfg :: (nat, nat) config. make_config (\<lambda>_. []) 2 False (\<lambda>i. [''to0'' @ decimal i, ''to1'' @ decimal i]) = Ret cfg \<and> cf_connected cfg ! 1"
  using make_config_all_connected [of 2 "\<lambda>i. [''to0'' @ decimal i, ''to1'' @ decimal i]" "\<lambda>_. []" False]
  by (auto simp: numeral_2_eq_2 upt_rec)

text \<open>
  C3: in every state that a test can bring a cluster into, a client end is enabled exactly when it is
  the current end from one connected server to another connected server. So a partition made with
  \<open>disconnect\<close> and \<open>connect\<close> lets through the requests between connected servers, in both
  directions, and no others.
\<close>

theorem network_partition:
  assumes "reach cfg_init cfg_step cfg"
  shows "gm_getz False (net_enabled (cf_net cfg)) (IStr x) \<longleftrightarrow>
    (\<exists>i < cf_n cfg. \<exists>j < cf_n cfg. end_at cfg i j = Some x \<and> cf_connected cfg ! i \<and> cf_connected cfg ! j)"
  using cfgs.reach_inv [OF assms] by (simp add: cfg_inv_def net_inv_def linked_def)

theorem network_partition_witness:
  "\<exists>cfg :: (nat, nat) config. reach cfg_init cfg_step cfg \<and> cf_n cfg = 2 \<and>
     (\<exists>x. end_at cfg 0 1 = Some x \<and> gm_getz False (net_enabled (cf_net cfg)) (IStr x))"
proof -
  let ?names = "\<lambda>i. [''to0'' @ decimal i, ''to1'' @ decimal i]"
  obtain cfg :: "(nat, nat) config" where cfg: "reach cfg_init cfg_step cfg" "cf_n cfg = 2" "\<forall>i < 2. cf_connected cfg ! i"
    "\<forall>i < 2. cf_endnames cfg ! i \<noteq> None"
    using make_config_ready [of 2 ?names "\<lambda>_. []" False] by (auto simp: numeral_2_eq_2 upt_rec)
  have "cf_endnames cfg ! 0 \<noteq> None" using cfg(4) by simp
  then obtain x where x: "end_at cfg 0 1 = Some x" by (auto simp: end_at_def)
  have "\<exists>i < cf_n cfg. \<exists>j < cf_n cfg. end_at cfg i j = Some x \<and> cf_connected cfg ! i \<and> cf_connected cfg ! j"
    using x cfg(2,3) by (intro exI [of _ 0] conjI exI [of _ 1]) simp_all
  then have "gm_getz False (net_enabled (cf_net cfg)) (IStr x)" using network_partition [OF cfg(1), of x] by blast
  then show ?thesis using x cfg(1,2) by blast
qed

text \<open>
  C10: after a restart of server \<open>i\<close>, none of the client ends of its earlier instance is ever enabled
  again, whatever the test does later: the requests of an instance that could not be killed never reach
  another server.
\<close>

theorem restart_silences_old_instance:
  assumes "reach cfg_init cfg_step cfg" and "i < cf_n cfg" and "length names = cf_n cfg"
    and "start1 methods i names cfg = Ret cfg1" and "cfg_step\<^sup>*\<^sup>* cfg1 cfg2"
    and "j < cf_n cfg" and "end_at cfg i j = Some x"
  shows "\<not> gm_getz False (net_enabled (cf_net cfg2)) (IStr x)"
proof -
  have inv: "cfg_inv cfg" by (rule cfgs.reach_inv [OF assms(1)])
  note new = start1_ends [OF inv assms(2,4)]
  have known: "net_known (cf_net cfg) x" using inv assms(2,6,7) by (auto simp: cfg_inv_def net_inv_def ends_known_def)
  have len: "length (cf_endnames cfg) = cf_n cfg" using inv by (simp add: cfg_inv_def net_inv_def sizes_ok_def)
  have "x \<notin> set names" using known new(2) by blast
  then have "end_at cfg1 a b \<noteq> Some x" if "a < cf_n cfg" "b < cf_n cfg" for a b
  proof (cases "a = i")
    case True
    then show ?thesis using that \<open>x \<notin> set names\<close> assms(3) len by (auto simp: end_at_def new(4))
  next
    case False
    have "ends_inj cfg" using inv by (simp add: cfg_inv_def net_inv_def)
    then have "end_at cfg a b \<noteq> Some x" using False assms(2,6,7) that unfolding ends_inj_def by blast
    then show ?thesis using False by (simp add: end_at_def new(4))
  qed
  then have "retired x cfg1" using known new(1,3) by (simp add: retired_def)
  moreover have "cfg_inv cfg1" using cfg_inv_step [OF st_start [OF assms(2,3,4)] inv] .
  ultimately show ?thesis using retired_steps [OF assms(5)] retired_off by blast
qed

theorem restart_silences_old_instance_witness:
  "\<exists>c c1 :: (nat, nat) config. start1 (\<lambda>_. []) 0 [''x''] c = Ret c1 \<and> end_at c 0 0 = Some ''a'' \<and>
     \<not> gm_getz False (net_enabled (cf_net c1)) (IStr ''a'')"
proof -
  obtain c c1 :: "(nat, nat) config" where r: "start1 (\<lambda>_. []) 0 [''x''] c = Ret c1"
    "end_at c 0 0 = Some ''a''" "reach cfg_init cfg_step c" "cf_n c = 1"
    by (rule solo_run)
  then show ?thesis using restart_silences_old_instance [OF r(3) _ _ r(1) rtranclp.rtrancl_refl, of 0 "''a''"] by auto
qed


text \<open>
  C17: a restart hands the new instance exactly what was persisted last (an empty persister the first
  time), in a persister of its own, and leaves the other servers' persisted state alone; and whatever
  an old instance saves later, nobody's persisted state changes.
\<close>

theorem restart_keeps_persisted_state:
  assumes "reach cfg_init cfg_step cfg" and "i < cf_n cfg" and "start1 methods i names cfg = Ret cfg'"
    and "old \<in> set (cf_old cfg)"
  shows "persisted cfg' i = Some (case persisted cfg i of None \<Rightarrow> MakePersister | Some p \<Rightarrow> p) \<and>
    (\<forall>j < cf_n cfg. j \<noteq> i \<longrightarrow> persisted cfg' j = persisted cfg j) \<and>
    (\<forall>j < cf_n cfg. persisted (save_at (rf_persister old) data cfg) j = persisted cfg j)"
proof (intro conjI allI impI)
  have inv: "ps_inv cfg" using cfgs.reach_inv [OF assms(1)] by (simp add: cfg_inv_def)
  show "persisted cfg' i = Some (case persisted cfg i of None \<Rightarrow> MakePersister | Some p \<Rightarrow> p)"
    by (rule start1_persister(2) [OF inv assms(2,3)])
  show "persisted cfg' j = persisted cfg j" if "j < cf_n cfg" "j \<noteq> i" for j
    using start1_persister(3) [OF inv assms(2,3)] that .
  show "persisted (save_at (rf_persister old) data cfg) j = persisted cfg j" if "j < cf_n cfg" for j
  proof -
    have "cf_saved cfg ! j \<noteq> Some (rf_persister old)" using inv assms(4) that unfolding ps_inv_def by blast
    then show ?thesis by (cases "cf_saved cfg ! j") (auto simp: persisted_def save_at_def)
  qed
qed

theorem restart_keeps_persisted_state_witness:
  "\<exists>c1 c2 :: (nat, nat) config. start1 (\<lambda>_. []) 0 [''y''] c1 = Ret c2 \<and> 
     persisted c2 0 = Some (case persisted c1 0 of None \<Rightarrow> MakePersister | Some p \<Rightarrow> p)"
proof -
  obtain c1 c2 :: "(nat, nat) config" where r: "start1 (\<lambda>_. []) 0 [''y''] c1 = Ret c2"
    "cf_old c1 \<noteq> []" "reach cfg_init cfg_step c1" "cf_n c1 = 1"
    by (rule solo_run)
  then show ?thesis using restart_keeps_persisted_state [OF r(3) _ r(1), of "hd (cf_old c1)"] by fastforce
qed


end
