(* ===== verification/Raft_Checks.thy ===== *)
theory Raft_Checks
  imports Raft_Config
begin

text \<open>
  What the tester of the Raft lab checks (\<open>lab2/raft/config.go\<close>): that the entries the peers commit agree
  and arrive in order, how many servers have committed an index, that there is one leader, that the
  terms agree, and that a submitted command is agreed on.

  The answers of \<open>GetState\<close> and \<open>Start\<close> are the students' to implement; they are arguments here, one for
  every time they are asked. Waiting reads the committed logs again and again while other threads add to
  them, so the configurations it sees are arguments, too. \<open>cfg.t.Fatal\<close> and \<open>log.Fatal\<close> are the outcome
  \<open>Fatal\<close>.
\<close>

subsection \<open>Committed entries\<close>

record 'c ApplyMsg =
  CommandValid :: bool
  Command :: 'c
  CommandIndex :: int

datatype apply_err = Mismatch int nat nat | OutOfOrder nat int

definition log_at :: "('v, 'c) config \<Rightarrow> nat \<Rightarrow> int \<Rightarrow> 'c option" where
  "log_at cfg i k = gm_get (cf_logs cfg ! i) k"

text \<open>The loop over all logs keeps the last mismatch.\<close>

definition conflicts :: "'c ApplyMsg \<Rightarrow> ('v, 'c) config \<Rightarrow> nat list" where
  "conflicts m cfg =
     filter (\<lambda>j. case log_at cfg j (CommandIndex m) of None \<Rightarrow> False | Some old \<Rightarrow> old \<noteq> Command m)
       [0..<length (cf_logs cfg)]"

definition checkLogs :: "nat \<Rightarrow> 'c ApplyMsg \<Rightarrow> ('v, 'c) config \<Rightarrow> apply_err option \<times> bool \<times> ('v, 'c) config" where
  "checkLogs i m cfg =
     (let js = conflicts m cfg;
          err = (if js = [] then None else Some (Mismatch (CommandIndex m) i (last js)));
          prevok = (log_at cfg i (CommandIndex m - 1) \<noteq> None)
      in (err, prevok,
          cfg\<lparr>cf_logs := (cf_logs cfg)[i := gm_put (CommandIndex m) (Command m) (cf_logs cfg ! i)],
              cf_maxIndex := (if CommandIndex m > cf_maxIndex cfg then CommandIndex m else cf_maxIndex cfg)\<rparr>))"

text \<open>One iteration of \<open>applier\<close>.\<close>

definition apply_one :: "nat \<Rightarrow> 'c ApplyMsg \<Rightarrow> ('v, 'c) config \<Rightarrow> ('v, 'c) config go" where
  "apply_one i m cfg =
     (if \<not> CommandValid m then Ret cfg
      else let (err, prevok, cfg') = checkLogs i m cfg;
               err' = (if CommandIndex m > 1 \<and> \<not> prevok then Some (OutOfOrder i (CommandIndex m)) else err)
           in case err' of None \<Rightarrow> Ret cfg' | Some _ \<Rightarrow> Fatal ''apply error'')"

definition applier :: "nat \<Rightarrow> 'c ApplyMsg list \<Rightarrow> ('v, 'c) config \<Rightarrow> ('v, 'c) config go" where
  "applier i ms = go_foreach (apply_one i) ms"

text \<open>The appliers of all servers, interleaved.\<close>

definition appliers :: "(nat \<times> 'c ApplyMsg) list \<Rightarrow> ('v, 'c) config \<Rightarrow> ('v, 'c) config go" where
  "appliers ims = go_foreach (\<lambda>(i, m). apply_one i m) ims"

subsection \<open>Queries\<close>

definition ncommitted_step :: "int \<Rightarrow> ('v, 'c) config \<Rightarrow> nat \<Rightarrow> nat \<times> 'c option \<Rightarrow> (nat \<times> 'c option) go" where
  "ncommitted_step index cfg i acc =
     (if cf_applyErr cfg ! i \<noteq> [] then Fatal (cf_applyErr cfg ! i)
      else case log_at cfg i index of
             None \<Rightarrow> Ret acc
           | Some cmd1 \<Rightarrow>
               (if fst acc > 0 \<and> snd acc \<noteq> Some cmd1 then Fatal ''committed values do not match''
                else Ret (fst acc + 1, Some cmd1)))"

definition nCommitted :: "int \<Rightarrow> ('v, 'c) config \<Rightarrow> (nat \<times> 'c option) go" where
  "nCommitted index cfg = go_foreach (ncommitted_step index cfg) [0..<length (cf_rafts cfg)] (0, None)"

type_synonym states = "nat \<Rightarrow> int \<times> bool"

definition leaders_of :: "states \<Rightarrow> ('v, 'c) config \<Rightarrow> (int, nat list) gomap" where
  "leaders_of gs cfg =
     fold (\<lambda>i m. if cf_connected cfg ! i \<and> snd (gs i) then gm_put (fst (gs i)) (gm_getz [] m (fst (gs i)) @ [i]) m else m)
       [0..<cf_n cfg] []"

fun last_term :: "(int \<times> nat list) list \<Rightarrow> int \<Rightarrow> int go" where
  "last_term [] lastTerm = Ret lastTerm"
| "last_term ((term, leaders) # rest) lastTerm =
     (if length leaders > 1 then Fatal ''term has more than one leader''
      else last_term rest (if term > lastTerm then term else lastTerm))"

definition leader_round :: "states \<Rightarrow> ('v, 'c) config \<Rightarrow> nat option go" where
  "leader_round gs cfg =
     (let leaders = leaders_of gs cfg
      in go_bind (last_term leaders (- 1)) (\<lambda>lastTerm.
           if length leaders \<noteq> 0
           then go_bind (go_index (gm_getz [] leaders lastTerm) 0) (\<lambda>i. Ret (Some i))
           else Ret None))"

fun leader_rounds :: "states list \<Rightarrow> ('v, 'c) config \<Rightarrow> nat go" where
  "leader_rounds [] cfg = Fatal ''expected one leader, got none''"
| "leader_rounds (gs # rest) cfg =
     go_bind (leader_round gs cfg) (\<lambda>r. case r of Some i \<Rightarrow> Ret i | None \<Rightarrow> leader_rounds rest cfg)"

text \<open>Ten rounds; \<open>gs k\<close> are the answers of \<open>GetState\<close> in round \<open>k\<close>.\<close>

definition checkOneLeader :: "(nat \<Rightarrow> states) \<Rightarrow> ('v, 'c) config \<Rightarrow> nat go" where
  "checkOneLeader gs cfg = leader_rounds (map gs [0..<10]) cfg"

definition checkTerms :: "states \<Rightarrow> ('v, 'c) config \<Rightarrow> int go" where
  "checkTerms gs cfg =
     go_foreach (\<lambda>i term. if \<not> cf_connected cfg ! i then Ret term
                          else if term = - 1 then Ret (fst (gs i))
                          else if term \<noteq> fst (gs i) then Fatal ''servers disagree on term'' else Ret term)
       [0..<cf_n cfg] (- 1)"

definition checkNoLeader :: "states \<Rightarrow> ('v, 'c) config \<Rightarrow> unit go" where
  "checkNoLeader gs cfg =
     go_foreach (\<lambda>i u. if cf_connected cfg ! i \<and> snd (gs i) then Fatal ''expected no leader'' else Ret u) [0..<cf_n cfg] ()"

subsection \<open>Waiting for agreement\<close>

text \<open>Each of the at most 30 rounds of \<open>wait\<close> sees a configuration and, after its sleep, the peers' terms. The
  result tells whether a peer has moved to a later term, and how long it has slept, in milliseconds.\<close>

fun wait_loop :: "int \<Rightarrow> nat \<Rightarrow> int \<Rightarrow> (('v, 'c) config \<times> states) list \<Rightarrow> nat \<Rightarrow> nat \<Rightarrow> (bool \<times> nat) go" where
  "wait_loop index n startTerm [] dur slept = Ret (False, slept)"
| "wait_loop index n startTerm ((cfg, gs) # rest) dur slept =
     go_bind (nCommitted index cfg) (\<lambda>(nd, _).
       if nd \<ge> n then Ret (False, slept)
       else
         let slept' = slept + dur; dur' = (if dur < 1000 then dur * 2 else dur)
         in if startTerm > - 1 \<and> list_ex (\<lambda>i. fst (gs i) > startTerm) [0..<length (cf_rafts cfg)]
            then Ret (True, slept')
            else wait_loop index n startTerm rest dur' slept')"

datatype 'c waited = MovedOn | Agreed "'c option"

definition wait_commit :: "int \<Rightarrow> nat \<Rightarrow> int \<Rightarrow> (nat \<Rightarrow> ('v, 'c) config \<times> states) \<Rightarrow> ('v, 'c) config \<Rightarrow> ('c waited \<times> nat) go" where
  "wait_commit index n startTerm seen final =
     go_bind (wait_loop index n startTerm (map seen [0..<30]) 10 0) (\<lambda>(moved, slept).
       if moved then Ret (MovedOn, slept)
       else go_bind (nCommitted index final) (\<lambda>(nd, cmd).
              if nd < n then Fatal ''not enough servers decided'' else Ret (Agreed cmd, slept)))"

text \<open>One pass over the servers in \<open>one\<close>: \<open>start i\<close> is the answer of \<open>Start\<close> of server \<open>i\<close>.\<close>

fun try_servers :: "(nat \<Rightarrow> int \<times> int \<times> bool) \<Rightarrow> ('v, 'c) config \<Rightarrow> nat \<Rightarrow> nat \<Rightarrow> nat \<times> int" where
  "try_servers start cfg 0 starts = (starts, - 1)"
| "try_servers start cfg (Suc left) starts =
     (let starts' = (starts + 1) mod cf_n cfg
      in if cf_connected cfg ! starts' \<and> cf_rafts cfg ! starts' \<noteq> None \<and> snd (snd (start starts'))
         then (starts', fst (start starts'))
         else try_servers start cfg left starts')"

text \<open>The polls of up to five seconds for the agreement on one index.\<close>

fun poll_agreement :: "int \<Rightarrow> 'c \<Rightarrow> nat \<Rightarrow> ('v, 'c) config list \<Rightarrow> bool go" where
  "poll_agreement index cmd expected [] = Ret False"
| "poll_agreement index cmd expected (cfg # rest) =
     go_bind (nCommitted index cfg) (\<lambda>(nd, cmd1).
       if nd > 0 \<and> nd \<ge> expected \<and> cmd1 = Some cmd then Ret True else poll_agreement index cmd expected rest)"

record ('v, 'c) attempt =
  at_cfg :: "('v, 'c) config"
  at_start :: "nat \<Rightarrow> int \<times> int \<times> bool"
  at_polls :: "('v, 'c) config list"

text \<open>The attempts that fit into the 25 seconds of \<open>one\<close>.\<close>

fun one_loop :: "('v, 'c) attempt list \<Rightarrow> nat \<Rightarrow> 'c \<Rightarrow> nat \<Rightarrow> bool \<Rightarrow> int go" where
  "one_loop [] starts cmd expected retry = Fatal ''failed to reach agreement''"
| "one_loop (a # rest) starts cmd expected retry =
     (let (starts', index) = try_servers (at_start a) (at_cfg a) (cf_n (at_cfg a)) starts
      in if index \<noteq> - 1
         then go_bind (poll_agreement index cmd expected (at_polls a)) (\<lambda>found.
                if found then Ret index
                else if \<not> retry then Fatal ''failed to reach agreement''
                else one_loop rest starts' cmd expected retry)
         else one_loop rest starts' cmd expected retry)"

definition one :: "('v, 'c) attempt list \<Rightarrow> 'c \<Rightarrow> nat \<Rightarrow> bool \<Rightarrow> int go" where
  "one attempts cmd expected retry = one_loop attempts 0 cmd expected retry"

subsection \<open>Statistics of a test\<close>

record test_stats =
  st_rpcs0 :: int
  st_cmds0 :: int
  st_bytes0 :: int
  st_maxIndex0 :: int

definition begin_test :: "('v, 'c) config \<Rightarrow> test_stats" where
  "begin_test cfg = \<lparr>st_rpcs0 = rpcTotal cfg, st_cmds0 = 0, st_bytes0 = bytesTotal cfg, st_maxIndex0 = cf_maxIndex cfg\<rparr>"

text \<open>The numbers printed at the end of a test that has not failed: peers, RPCs, bytes and agreements.\<close>

definition end_test :: "bool \<Rightarrow> nat \<Rightarrow> test_stats \<Rightarrow> ('v, 'c) config \<Rightarrow> (nat \<times> int \<times> int \<times> int) option go" where
  "end_test failed elapsed st cfg =
     go_bind (checkTimeout failed elapsed) (\<lambda>_.
       Ret (if failed then None
            else Some (cf_n cfg, rpcTotal cfg - st_rpcs0 st, bytesTotal cfg - st_bytes0 st,
                       cf_maxIndex cfg - st_maxIndex0 st)))"

subsection \<open>Agreement of the committed logs\<close>

definition logs_inv :: "('v, 'c) config \<Rightarrow> bool" where
  "logs_inv cfg \<longleftrightarrow>
     (\<forall>i < length (cf_logs cfg). \<forall>j < length (cf_logs cfg). \<forall>k v w. log_at cfg i k = Some v \<longrightarrow> log_at cfg j k = Some w \<longrightarrow> v = w) \<and>
     (\<forall>i < length (cf_logs cfg). \<forall>k > 1. log_at cfg i k \<noteq> None \<longrightarrow> log_at cfg i (k - 1) \<noteq> None) \<and>
     (\<forall>i < length (cf_logs cfg). \<forall>k. log_at cfg i k \<noteq> None \<longrightarrow> k \<le> cf_maxIndex cfg)"

lemma logs_invD:
  assumes "logs_inv cfg" "i < length (cf_logs cfg)"
  shows "j < length (cf_logs cfg) \<Longrightarrow> log_at cfg i k = Some v \<Longrightarrow> log_at cfg j k = Some w \<Longrightarrow> v = w"
    and "1 < k \<Longrightarrow> log_at cfg i k \<noteq> None \<Longrightarrow> log_at cfg i (k - 1) \<noteq> None"
    and "log_at cfg i k \<noteq> None \<Longrightarrow> k \<le> cf_maxIndex cfg"
  using assms unfolding logs_inv_def by blast+

lemma conflicts_none:
  "conflicts m cfg = [] \<longleftrightarrow> (\<forall>j < length (cf_logs cfg). \<forall>w. log_at cfg j (CommandIndex m) = Some w \<longrightarrow> w = Command m)"
  by (auto simp: conflicts_def filter_empty_conv split: option.splits)

lemma checkLogs_simps:
  "fst (checkLogs i m cfg) = None \<longleftrightarrow> conflicts m cfg = []"
  "fst (snd (checkLogs i m cfg)) \<longleftrightarrow> log_at cfg i (CommandIndex m - 1) \<noteq> None"
  by (simp_all add: checkLogs_def Let_def)

lemma checkLogs_log_at:
  assumes "i < length (cf_logs cfg)"
  shows "log_at (snd (snd (checkLogs i m cfg))) j k = (if j = i \<and> k = CommandIndex m then Some (Command m) else log_at cfg j k)"
    "length (cf_logs (snd (snd (checkLogs i m cfg)))) = length (cf_logs cfg)"
    "cf_maxIndex (snd (snd (checkLogs i m cfg))) = max (cf_maxIndex cfg) (CommandIndex m)"
  using assms by (auto simp: checkLogs_def Let_def log_at_def nth_list_update)

lemma apply_one_valid:
  assumes "CommandValid m"
  shows "apply_one i m cfg =
    (if conflicts m cfg = [] \<and> (CommandIndex m > 1 \<longrightarrow> log_at cfg i (CommandIndex m - 1) \<noteq> None)
     then Ret (snd (snd (checkLogs i m cfg))) else Fatal ''apply error'')"
  using assms by (simp add: apply_one_def checkLogs_def Let_def)

lemma apply_one_invalid: "\<not> CommandValid m \<Longrightarrow> apply_one i m cfg = Ret cfg"
  by (simp add: apply_one_def)

lemma apply_one_inv:
  assumes inv: "logs_inv cfg" and i: "i < length (cf_logs cfg)" and ret: "apply_one i m cfg = Ret cfg'"
  shows "logs_inv cfg' \<and> length (cf_logs cfg') = length (cf_logs cfg) \<and> cf_applyErr cfg' = cf_applyErr cfg \<and> cf_rafts cfg' = cf_rafts cfg"
proof (cases "CommandValid m")
  case True
  let ?k = "CommandIndex m" and ?L = "length (cf_logs cfg)"
  have none: "conflicts m cfg = []" and prev: "?k > 1 \<Longrightarrow> log_at cfg i (?k - 1) \<noteq> None"
    and cfg': "cfg' = snd (snd (checkLogs i m cfg))"
    using ret unfolding apply_one_valid [OF True] by (auto split: if_splits)
  note at = checkLogs_log_at [OF i, of m, folded cfg']
  have "v = w" if lt: "a < ?L" "b < ?L" and vw: "log_at cfg' a k = Some v" "log_at cfg' b k = Some w" for a b k v w
    using vw none [unfolded conflicts_none] logs_invD(1) [OF inv lt(1,2), of k v w] lt by (auto simp: at split: if_splits)
  moreover have "log_at cfg' a (k - 1) \<noteq> None" if "a < ?L" "1 < k" "log_at cfg' a k \<noteq> None" for a k
    using that prev logs_invD(2) [OF inv that(1,2)] by (auto simp: at split: if_splits)
  moreover have "k \<le> cf_maxIndex cfg'" if "a < ?L" "log_at cfg' a k \<noteq> None" for a k
    using that logs_invD(3) [OF inv that(1), of k] by (auto simp: at split: if_splits)
  moreover have "cf_applyErr cfg' = cf_applyErr cfg" "cf_rafts cfg' = cf_rafts cfg"
    by (simp_all add: cfg' checkLogs_def Let_def)
  ultimately show ?thesis unfolding logs_inv_def at(2) by blast
next
  case False
  then show ?thesis using ret inv by (simp add: apply_one_invalid)
qed

lemma appliers_inv:
  assumes "appliers ims cfg = Ret cfg'" "logs_inv cfg" "\<forall>(i, m) \<in> set ims. i < length (cf_logs cfg)"
  shows "logs_inv cfg' \<and> length (cf_logs cfg') = length (cf_logs cfg) \<and> cf_applyErr cfg' = cf_applyErr cfg \<and> cf_rafts cfg' = cf_rafts cfg"
proof (rule go_foreach_inv [OF assms(1) [unfolded appliers_def]])
  show "logs_inv cfg \<and> length (cf_logs cfg) = length (cf_logs cfg) \<and> cf_applyErr cfg = cf_applyErr cfg \<and> cf_rafts cfg = cf_rafts cfg"
    using assms(2) by simp
  fix im c c'
  assume im: "im \<in> set ims" "(case im of (i, m) \<Rightarrow> apply_one i m) c = Ret c'"
    and c: "logs_inv c \<and> length (cf_logs c) = length (cf_logs cfg) \<and> cf_applyErr c = cf_applyErr cfg \<and> cf_rafts c = cf_rafts cfg"
  obtain i m where p: "im = (i, m)" by (cases im)
  have i: "i < length (cf_logs c)" using assms(3) im(1) c p by auto
  show "logs_inv c' \<and> length (cf_logs c') = length (cf_logs cfg) \<and> cf_applyErr c' = cf_applyErr cfg \<and> cf_rafts c' = cf_rafts cfg"
    using apply_one_inv [OF _ i, of m c'] im(2) p c by simp
qed

text \<open>Contiguity, from one index down to the first.\<close>

lemma log_downward:
  assumes "logs_inv cfg" "i < length (cf_logs cfg)" "log_at cfg i k \<noteq> None" "1 \<le> j" "j \<le> k"
  shows "log_at cfg i j \<noteq> None"
  using assms(5,4,3)
proof (induction k rule: int_ge_induct)
  case (step k)
  have "log_at cfg i k \<noteq> None" using logs_invD(2) [OF assms(1,2), of "k + 1"] step by simp
  then show ?case using step by blast
qed simp

lemma logs_inv_blank: "\<forall>l \<in> set (cf_logs cfg). l = [] \<Longrightarrow> logs_inv cfg"
proof -
  assume empty: "\<forall>l \<in> set (cf_logs cfg). l = []"
  have "log_at cfg i k = None" if "i < length (cf_logs cfg)" for i k
  proof -
    have "cf_logs cfg ! i = []" using empty nth_mem [OF that] by blast
    then show ?thesis by (simp add: log_at_def)
  qed
  then show "logs_inv cfg" by (simp add: logs_inv_def)
qed

subsection \<open>Counting commitments\<close>

definition holders :: "('v, 'c) config \<Rightarrow> int \<Rightarrow> nat list \<Rightarrow> nat list" where
  "holders cfg k is = filter (\<lambda>i. log_at cfg i k \<noteq> None) is"

lemma ncommitted_loop:
  assumes "logs_inv cfg" "\<forall>i \<in> set is. i < length (cf_logs cfg) \<and> cf_applyErr cfg ! i = []"
    and "\<forall>i \<in> set is. \<forall>w. c > 0 \<longrightarrow> log_at cfg i k = Some w \<longrightarrow> cmd = Some w"
  shows "go_foreach (ncommitted_step k cfg) is (c, cmd) =
    Ret (c + length (holders cfg k is), if holders cfg k is = [] then cmd else log_at cfg (hd (holders cfg k is)) k)"
  using assms(2,3)
proof (induction "is" arbitrary: c cmd)
  case (Cons i js)
  show ?case
  proof (cases "log_at cfg i k")
    case None
    then show ?thesis using Cons by (simp add: ncommitted_step_def holders_def)
  next
    case (Some v)
    have same: "w = v" if "j \<in> set js" "log_at cfg j k = Some w" for j w
      using logs_invD(1) [OF assms(1), of i j k v w] Cons.prems(1) Some that by auto
    have "go_foreach (ncommitted_step k cfg) js (c + 1, Some v) =
      Ret (c + 1 + length (holders cfg k js), if holders cfg k js = [] then Some v else log_at cfg (hd (holders cfg k js)) k)"
      using Cons.IH [of "c + 1" "Some v"] Cons.prems(1) same by auto
    moreover have "(if holders cfg k js = [] then Some v else log_at cfg (hd (holders cfg k js)) k) = Some v"
    proof (cases "holders cfg k js")
      case (Cons j rest)
      then have "j \<in> set js \<and> log_at cfg j k \<noteq> None" 
        using filter_eq_ConsD [of "\<lambda>i. log_at cfg i k \<noteq> None" js j rest] by (auto simp: holders_def)
      then show ?thesis using same Cons by fastforce
    qed simp
    moreover have "ncommitted_step k cfg i (c, cmd) = Ret (c + 1, Some v)"
      using Cons.prems Some by (auto simp: ncommitted_step_def)
    ultimately show ?thesis using Some by (simp add: holders_def)
  qed
qed (simp add: holders_def)

lemma nCommitted_eq:
  assumes "logs_inv cfg" "length (cf_rafts cfg) = length (cf_logs cfg)" "\<forall>i < length (cf_logs cfg). cf_applyErr cfg ! i = []"
  shows "nCommitted k cfg = Ret (length (holders cfg k [0..<length (cf_logs cfg)]),
    if holders cfg k [0..<length (cf_logs cfg)] = [] then None else log_at cfg (hd (holders cfg k [0..<length (cf_logs cfg)])) k)"
  unfolding nCommitted_def assms(2) using assms(3) by (subst ncommitted_loop [OF assms(1)]) auto

subsection \<open>Leaders\<close>

definition claims :: "states \<Rightarrow> ('v, 'c) config \<Rightarrow> nat \<Rightarrow> bool" where
  "claims gs cfg i \<longleftrightarrow> cf_connected cfg ! i \<and> snd (gs i)"

definition add_leader :: "states \<Rightarrow> ('v, 'c) config \<Rightarrow> nat \<Rightarrow> (int, nat list) gomap \<Rightarrow> (int, nat list) gomap" where
  "add_leader gs cfg i m = (if claims gs cfg i then gm_put (fst (gs i)) (gm_getz [] m (fst (gs i)) @ [i]) m else m)"

lemma leaders_of_fold: "leaders_of gs cfg = fold (add_leader gs cfg) [0..<cf_n cfg] []"
  unfolding leaders_of_def by (rule fold_cong) (auto simp: add_leader_def claims_def)

text \<open>After a prefix of the servers, the map holds for each term its claimants in order, and no empty
  entry.\<close>

lemma leaders_fold:
  assumes "gm_wf m" "\<forall>t ls. gm_get m t = Some ls \<longrightarrow> ls \<noteq> []"
  shows "gm_wf (fold (add_leader gs cfg) is m) \<and>
    (\<forall>t ls. gm_get (fold (add_leader gs cfg) is m) t = Some ls \<longrightarrow> ls \<noteq> []) \<and>
    (\<forall>t. gm_getz [] (fold (add_leader gs cfg) is m) t = gm_getz [] m t @ filter (\<lambda>i. claims gs cfg i \<and> fst (gs i) = t) is)"
  using assms
proof (induction "is" arbitrary: m)
  case (Cons i js)
  have "gm_wf (add_leader gs cfg i m)" "\<forall>t ls. gm_get (add_leader gs cfg i m) t = Some ls \<longrightarrow> ls \<noteq> []"
    using Cons.prems by (auto simp: add_leader_def split: if_splits)
  note IH = Cons.IH [OF this]
  have "gm_getz [] (add_leader gs cfg i m) t = gm_getz [] m t @ (if claims gs cfg i \<and> fst (gs i) = t then [i] else [])" for t
    by (simp add: add_leader_def)
  then show ?case using IH by simp
qed simp

lemma leaders_of_spec:
  "gm_wf (leaders_of gs cfg)" "gm_get (leaders_of gs cfg) t = Some ls \<Longrightarrow> ls \<noteq> []"
  "gm_getz [] (leaders_of gs cfg) t = filter (\<lambda>i. claims gs cfg i \<and> fst (gs i) = t) [0..<cf_n cfg]"
  using leaders_fold [of "[]" gs cfg "[0..<cf_n cfg]"] by (auto simp: leaders_of_fold gm_getz_def)

lemma last_term_Ret:
  "last_term m l = Ret t \<Longrightarrow> (\<forall>(u, ls) \<in> set m. length ls \<le> 1 \<and> u \<le> t) \<and> l \<le> t \<and> (t = l \<or> t \<in> fst ` set m)"
proof (induction m arbitrary: l)
  case (Cons p m)
  obtain u ls where p: "p = (u, ls)" by (cases p)
  then have "length ls \<le> 1" "last_term m (if u > l then u else l) = Ret t" using Cons.prems by (auto split: if_splits)
  then show ?case using Cons.IH [of "if u > l then u else l"] p by (auto split: if_splits)
qed simp

lemma leader_round_Some:
  assumes "leader_round gs cfg = Ret (Some i)"
  shows "i < cf_n cfg" "claims gs cfg i" "\<And>j. j < cf_n cfg \<Longrightarrow> claims gs cfg j \<Longrightarrow> j \<noteq> i \<Longrightarrow> fst (gs j) < fst (gs i)"
proof -
  let ?m = "leaders_of gs cfg" and ?f = "\<lambda>t. filter (\<lambda>i. claims gs cfg i \<and> fst (gs i) = t) [0..<cf_n cfg]"
  obtain t where t: "last_term ?m (- 1) = Ret t" "go_index (gm_getz [] ?m t) 0 = Ret i"
    using assms by (auto simp: leader_round_def Let_def go_bind_Ret_iff split: if_splits)
  have i: "?f t \<noteq> []" "i = hd (?f t)" using t(2) by (auto simp: go_index_Ret_iff leaders_of_spec hd_conv_nth)
  then have "i \<in> set (?f t)" using hd_in_set by metis
  then show "i < cf_n cfg" "claims gs cfg i" by auto
  have it: "fst (gs i) = t" using \<open>i \<in> set (?f t)\<close> by simp
  fix j assume j: "j < cf_n cfg" "claims gs cfg j" "j \<noteq> i"
  let ?u = "fst (gs j)"
  have mem: "j \<in> set (?f ?u)" using j by simp
  then have "gm_getz [] ?m ?u \<noteq> []" unfolding leaders_of_spec by (metis empty_iff empty_set)
  then obtain ls where ls: "gm_get ?m ?u = Some ls" by (auto simp: gm_getz_def split: option.splits)
  then have "(?u, ls) \<in> set ?m" by (rule map_of_SomeD)
  then have small: "length ls \<le> 1" "?u \<le> t" using last_term_Ret [OF t(1)] by auto
  have "ls = ?f ?u" using ls leaders_of_spec(3) [of gs cfg ?u] by (simp add: gm_getz_def)
  then have "?u \<noteq> t"
  proof (intro notI)
    assume "?u = t" "ls = ?f ?u"
    then have "{i, j} \<subseteq> set ls" using \<open>i \<in> set (?f t)\<close> mem by simp
    then have "card {i, j} \<le> length ls" using card_length card_mono [OF finite_set] le_trans by metis
    then show False using small(1) j(3) by simp
  qed
  then show "?u < fst (gs i)" using small(2) it by simp
qed

lemma leader_rounds_Ret:
  "leader_rounds gss cfg = Ret i \<Longrightarrow> \<exists>gs \<in> set gss. leader_round gs cfg = Ret (Some i)"
  by (induction gss) (auto simp: go_bind_Ret_iff split: option.splits)

lemma checkTerms_loop:
  fixes gs :: states
  assumes "\<forall>i. 0 \<le> fst (gs i)" "go_foreach (\<lambda>i term. if \<not> cf_connected cfg ! i then Ret term
      else if term = - 1 then Ret (fst (gs i))
      else if term \<noteq> fst (gs i) then Fatal ''servers disagree on term'' else Ret term) is t0 = Ret t"
  shows "(\<forall>i \<in> set is. cf_connected cfg ! i \<longrightarrow> fst (gs i) = t) \<and> (t0 \<noteq> - 1 \<longrightarrow> t = t0) \<and>
    (t = t0 \<or> (\<exists>i \<in> set is. cf_connected cfg ! i))"
  using assms(2)
proof (induction "is" arbitrary: t0)
  case (Cons i js)
  have ne: "fst (gs i) \<noteq> - 1" using assms(1) [rule_format, of i] by simp
  show ?case
  proof (cases "cf_connected cfg ! i")
    case True
    then show ?thesis using Cons ne Cons.IH [of "fst (gs i)"] by (auto split: if_splits)
  next
    case False
    then show ?thesis using Cons.prems Cons.IH [of t0] by auto
  qed
qed simp

subsection \<open>Waiting\<close>

text \<open>The longest sleep of \<open>k\<close> rounds that start with duration \<open>dur\<close>.\<close>

fun max_sleep :: "nat \<Rightarrow> nat \<Rightarrow> nat" where
  "max_sleep 0 dur = 0"
| "max_sleep (Suc k) dur = dur + max_sleep k (if dur < 1000 then dur * 2 else dur)"

lemma wait_loop_slept:
  "wait_loop index n startTerm seen dur slept = Ret (moved, slept') \<Longrightarrow> slept' \<le> slept + max_sleep (length seen) dur"
proof (induction index n startTerm seen dur slept rule: wait_loop.induct)
  case (2 index n startTerm cfg gs rest dur slept)
  then show ?case by (fastforce simp: go_bind_Ret_iff Let_def split: if_splits)
qed simp

lemma wait_loop_moved: "wait_loop index n startTerm seen dur slept = Ret (True, slept') \<Longrightarrow> - 1 < startTerm"
proof (induction index n startTerm seen dur slept rule: wait_loop.induct)
  case (2 index n startTerm cfg gs rest dur slept)
  then show ?case by (fastforce simp: go_bind_Ret_iff Let_def split: if_splits)
qed simp

lemma max_sleep_30: "max_sleep 30 10 = 30710"
  by code_simp

lemma poll_agreement_True:
  "poll_agreement index cmd expected cfgs = Ret True \<Longrightarrow>
   \<exists>cfg \<in> set cfgs. \<exists>nd. nCommitted index cfg = Ret (nd, Some cmd) \<and> 0 < nd \<and> expected \<le> nd"
  by (induction cfgs) (auto simp: go_bind_Ret_iff split: if_splits)

lemma try_servers_found:
  "try_servers start cfg left starts = (s, index) \<Longrightarrow> index \<noteq> - 1 \<Longrightarrow> 0 < cf_n cfg \<Longrightarrow>
   s < cf_n cfg \<and> cf_connected cfg ! s \<and> cf_rafts cfg ! s \<noteq> None \<and> start s = (index, fst (snd (start s)), True)"
proof (induction left arbitrary: starts)
  case (Suc left)
  let ?s = "(starts + 1) mod cf_n cfg"
  show ?case
  proof (cases "cf_connected cfg ! ?s \<and> cf_rafts cfg ! ?s \<noteq> None \<and> snd (snd (start ?s))")
    case True
    then show ?thesis using Suc.prems by (auto simp: Let_def prod_eq_iff)
  next
    case False
    then have "try_servers start cfg left ?s = (s, index)" using Suc.prems(1) by (auto simp: Let_def)
    then show ?thesis using Suc.IH Suc.prems(2,3) by blast
  qed
qed simp

lemma one_loop_Ret:
  assumes "one_loop attempts starts cmd expected retry = Ret index" "\<forall>a \<in> set attempts. 0 < cf_n (at_cfg a)"
  shows "\<exists>a \<in> set attempts. \<exists>s < cf_n (at_cfg a). cf_connected (at_cfg a) ! s \<and> cf_rafts (at_cfg a) ! s \<noteq> None \<and>
    fst (at_start a s) = index \<and> snd (snd (at_start a s)) \<and>
    (\<exists>cfg \<in> set (at_polls a). \<exists>nd. nCommitted index cfg = Ret (nd, Some cmd) \<and> 0 < nd \<and> expected \<le> nd)"
  using assms
proof (induction attempts arbitrary: starts)
  case (Cons a rest)
  obtain s k where s: "try_servers (at_start a) (at_cfg a) (cf_n (at_cfg a)) starts = (s, k)" by fastforce
  show ?case
  proof (cases "one_loop rest s cmd expected retry = Ret index")
    case True
    then show ?thesis using Cons.IH Cons.prems(2) by auto
  next
    case False
    then have k: "k \<noteq> - 1" "k = index" "poll_agreement index cmd expected (at_polls a) = Ret True"
      using Cons.prems(1) s by (auto simp: go_bind_Ret_iff split: if_splits)
    have "s < cf_n (at_cfg a) \<and> cf_connected (at_cfg a) ! s \<and> cf_rafts (at_cfg a) ! s \<noteq> None \<and>
      at_start a s = (k, fst (snd (at_start a s)), True)"
      using try_servers_found [OF s k(1)] Cons.prems(2) by simp
    then show ?thesis using poll_agreement_True [OF k(3)] k(2) by (auto simp: prod_eq_iff)
  qed
qed simp

subsection \<open>Properties\<close>

abbreviation three_peers :: "(unit, nat) config" where
  "three_peers \<equiv> (blank_config 3 False)\<lparr>cf_connected := [True, True, True], cf_rafts := [None, None, None]\<rparr>"

abbreviation cmd_msg :: "nat \<Rightarrow> int \<Rightarrow> nat ApplyMsg" where
  "cmd_msg c k \<equiv> \<lparr>CommandValid = True, Command = c, CommandIndex = k\<rparr>"

text \<open>C18: Start the appliers on empty logs and let the peers commit in any interleaving. As long as the tester
  has not ended the process, the recorded logs agree at every index any two servers have, every log
  reaches back to index 1 without a gap, no index lies beyond \<open>maxIndex\<close>, and \<open>nCommitted\<close> never fails.\<close>

theorem applied_logs_agree:
  assumes "appliers ims cfg = Ret cfg'" "\<forall>l \<in> set (cf_logs cfg). l = []" "length (cf_rafts cfg) = length (cf_logs cfg)"
    "\<forall>i < length (cf_logs cfg). cf_applyErr cfg ! i = []" "\<forall>(i, m) \<in> set ims. i < length (cf_logs cfg)"
  shows "(\<forall>i < length (cf_logs cfg'). \<forall>j < length (cf_logs cfg'). \<forall>k v w.
           log_at cfg' i k = Some v \<longrightarrow> log_at cfg' j k = Some w \<longrightarrow> v = w) \<and>
         (\<forall>i < length (cf_logs cfg'). \<forall>k. log_at cfg' i k \<noteq> None \<longrightarrow>
           k \<le> cf_maxIndex cfg' \<and> (\<forall>j. 1 \<le> j \<longrightarrow> j \<le> k \<longrightarrow> log_at cfg' i j \<noteq> None)) \<and>
         (\<forall>k. \<exists>nd cmd. nCommitted k cfg' = Ret (nd, cmd))"
proof -
  have inv: "logs_inv cfg'" "length (cf_logs cfg') = length (cf_logs cfg)" "cf_applyErr cfg' = cf_applyErr cfg" "cf_rafts cfg' = cf_rafts cfg"
    using appliers_inv [OF assms(1) logs_inv_blank [OF assms(2)] assms(5)] by auto
  have "\<exists>nd cmd. nCommitted k cfg' = Ret (nd, cmd)" for k
    using nCommitted_eq [OF inv(1), of k] assms(3,4) inv by auto
  then show ?thesis using logs_invD [OF inv(1)] log_downward [OF inv(1)] by blast
qed

theorem applied_logs_agree_witness:
  "\<exists>cfg'. appliers [(0, cmd_msg 7 1), (2, cmd_msg 7 1), (0, cmd_msg 8 2), (1, cmd_msg 7 1)] three_peers = Ret cfg' \<and>
     log_at cfg' 0 2 = Some 8 \<and> log_at cfg' 1 2 = None \<and> (\<exists>nd cmd. nCommitted 1 cfg' = Ret (nd, cmd))"
  using applied_logs_agree [of "[(0, cmd_msg 7 1), (2, cmd_msg 7 1), (0, cmd_msg 8 2), (1, cmd_msg 7 1)]" three_peers]
  by (simp add: appliers_def apply_one_def checkLogs_def conflicts_def log_at_def blank_config_def numeral_3_eq_3 upt_rec All_less_Suc)

text \<open>An applied command ends the process exactly when some server has recorded a different command at its
  index, or the applying server has no entry just before it (for an index above 1). Otherwise it is
  recorded for the applying server only, and \<open>maxIndex\<close> grows to it. Messages that carry no command
  are ignored.\<close>

theorem apply_one_outcome:
  assumes "i < length (cf_logs cfg)"
  shows "apply_one i m cfg =
      (if \<not> CommandValid m then Ret cfg
       else if (\<exists>j < length (cf_logs cfg). \<exists>w. log_at cfg j (CommandIndex m) = Some w \<and> w \<noteq> Command m) \<or>
               (CommandIndex m > 1 \<and> log_at cfg i (CommandIndex m - 1) = None)
       then Fatal ''apply error'' else Ret (snd (snd (checkLogs i m cfg)))) \<and>
    (\<forall>j k. log_at (snd (snd (checkLogs i m cfg))) j k = (if j = i \<and> k = CommandIndex m then Some (Command m) else log_at cfg j k)) \<and>
    cf_maxIndex (snd (snd (checkLogs i m cfg))) = max (cf_maxIndex cfg) (CommandIndex m)"
  using apply_one_valid [of m i cfg] apply_one_invalid [of m i cfg] checkLogs_log_at [OF assms, of m]
  by (auto simp: conflicts_none)

theorem apply_one_outcome_witness:
  "apply_one 0 (cmd_msg 7 2) three_peers = Fatal ''apply error''"
proof -
  have "log_at three_peers 0 (2 - 1) = None" "0 < length (cf_logs three_peers)"
    by (simp_all add: log_at_def blank_config_def)
  then show ?thesis using apply_one_outcome [of 0 three_peers "cmd_msg 7 2"] by simp
qed

text \<open>While the appliers have found no fault, \<open>nCommitted(index)\<close> returns the number of servers that have the index,
  and the command is the one every one of them has; no server has the index exactly when it is nil.\<close>

theorem nCommitted_correct:
  assumes "logs_inv cfg" "length (cf_rafts cfg) = length (cf_logs cfg)" "\<forall>i < length (cf_logs cfg). cf_applyErr cfg ! i = []"
  shows "\<exists>cmd. nCommitted k cfg = Ret (card {i. i < length (cf_logs cfg) \<and> log_at cfg i k \<noteq> None}, cmd) \<and>
    (\<forall>i < length (cf_logs cfg). \<forall>w. log_at cfg i k = Some w \<longrightarrow> cmd = Some w) \<and>
    (cmd = None \<longleftrightarrow> (\<forall>i < length (cf_logs cfg). log_at cfg i k = None))"
proof -
  let ?L = "length (cf_logs cfg)"
  let ?h = "holders cfg k [0..<?L]"
  let ?cmd = "if ?h = [] then None else log_at cfg (hd ?h) k"
  have set: "set ?h = {i. i < ?L \<and> log_at cfg i k \<noteq> None}" by (auto simp: holders_def)
  moreover have "length ?h = card (set ?h)"
    using distinct_card [of ?h] unfolding holders_def by (metis distinct_filter distinct_upt)
  ultimately have count: "nCommitted k cfg = Ret (card {i. i < ?L \<and> log_at cfg i k \<noteq> None}, ?cmd)"
    using nCommitted_eq [OF assms] by simp
  have hd: "hd ?h < ?L \<and> log_at cfg (hd ?h) k \<noteq> None" if "?h \<noteq> []" using hd_in_set [OF that] set by simp
  have same: "?cmd = Some w" if "i < ?L" "log_at cfg i k = Some w" for i w
  proof -
    have "?h \<noteq> []" using set that by (metis (mono_tags) empty_iff empty_set mem_Collect_eq option.simps(3))
    then show ?thesis using hd logs_invD(1) [OF assms(1) that(1), of "hd ?h" k w] that(2) by auto
  qed
  have "?h = [] \<longleftrightarrow> (\<forall>i < ?L. log_at cfg i k = None)" by (auto simp: holders_def filter_empty_conv)
  moreover have "?cmd = None \<longleftrightarrow> ?h = []" using hd by (cases "?h = []") simp_all
  ultimately have "?cmd = None \<longleftrightarrow> (\<forall>i < ?L. log_at cfg i k = None)" by (rule trans [rotated])
  then show ?thesis using count same by (intro exI [of _ ?cmd] conjI allI impI)
qed

theorem nCommitted_correct_witness:
  "nCommitted 1 three_peers = Ret (card {i. i < length (cf_logs three_peers) \<and> log_at three_peers i 1 \<noteq> None}, None)"
proof -
  have "logs_inv three_peers" by (rule logs_inv_blank) (simp add: blank_config_def)
  then show ?thesis using nCommitted_correct [of three_peers 1] by (simp add: blank_config_def log_at_def)
qed

text \<open>C32: When \<open>checkOneLeader\<close> returns a server, then in one of its ten rounds that server was connected, claimed to be
  the leader, and every other connected claimant was of a strictly earlier term.\<close>

theorem checkOneLeader_correct:
  assumes "checkOneLeader gs cfg = Ret i"
  shows "\<exists>r < 10. i < cf_n cfg \<and> cf_connected cfg ! i \<and> snd (gs r i) \<and>
    (\<forall>j < cf_n cfg. cf_connected cfg ! j \<longrightarrow> snd (gs r j) \<longrightarrow> j \<noteq> i \<longrightarrow> fst (gs r j) < fst (gs r i))"
proof -
  obtain r where "r < 10" "leader_round (gs r) cfg = Ret (Some i)"
    using leader_rounds_Ret assms unfolding checkOneLeader_def by fastforce
  then show ?thesis using leader_round_Some [of "gs r" cfg i] by (auto simp: claims_def)
qed

theorem checkOneLeader_correct_witness:
  "\<exists>r < 10. r = (3 :: nat) \<and> checkOneLeader (\<lambda>r i. (5, r = 3 \<and> i = 1)) three_peers = Ret 1"
proof -
  have ok: "checkOneLeader (\<lambda>r i. (5, r = 3 \<and> i = 1)) three_peers = Ret 1"
    by (simp add: checkOneLeader_def leader_round_def leaders_of_def blank_config_def upt_rec go_index_def gm_getz_def)
  show ?thesis using checkOneLeader_correct [OF ok] ok by auto
qed

text \<open>When \<open>checkTerms\<close> returns and terms are not negative, every connected server is in the returned term, and the
  result is -1 only when no server is connected.\<close>

theorem checkTerms_correct:
  assumes "checkTerms gs cfg = Ret t" "\<forall>i. 0 \<le> fst (gs i)"
  shows "(\<forall>i < cf_n cfg. cf_connected cfg ! i \<longrightarrow> fst (gs i) = t) \<and>
    (t = - 1 \<longleftrightarrow> (\<forall>i < cf_n cfg. \<not> cf_connected cfg ! i))"
proof -
  have loop: "(\<forall>i \<in> set [0..<cf_n cfg]. cf_connected cfg ! i \<longrightarrow> fst (gs i) = t) \<and>
    (t = - 1 \<or> (\<exists>i \<in> set [0..<cf_n cfg]. cf_connected cfg ! i))"
    using checkTerms_loop [OF assms(2) assms(1) [unfolded checkTerms_def]] by simp
  moreover have "t \<noteq> - 1" if "i < cf_n cfg" "cf_connected cfg ! i" for i
    using loop that assms(2) [rule_format, of i] by auto
  ultimately show ?thesis by fastforce
qed

theorem checkTerms_correct_witness:
  "checkTerms (\<lambda>i. (4, False)) three_peers = Ret 4 \<and> (4 :: int) \<noteq> - 1"
proof -
  have ok: "checkTerms (\<lambda>i. (4, False)) three_peers = Ret 4"
    by (simp add: checkTerms_def blank_config_def upt_rec)
  show ?thesis using checkTerms_correct [OF ok] ok by auto
qed

text \<open>C33: Whenever \<open>wait\<close> returns, it has slept at most 30.71 seconds; and unless a peer has moved on to a later term,
  the index is then committed by at least \<open>n\<close> servers, with the command it returns.\<close>

theorem wait_commit_bounded:
  assumes "wait_commit index n startTerm seen final = Ret (res, slept)"
  shows "slept \<le> 30710 \<and>
    (case res of MovedOn \<Rightarrow> startTerm > - 1 | Agreed cmd \<Rightarrow> \<exists>nd \<ge> n. nCommitted index final = Ret (nd, cmd))"
proof -
  obtain moved where w: "wait_loop index n startTerm (map seen [0..<30]) 10 0 = Ret (moved, slept)"
    "if moved then res = MovedOn else \<exists>nd cmd. nCommitted index final = Ret (nd, cmd) \<and> n \<le> nd \<and> res = Agreed cmd"
    using assms unfolding wait_commit_def by (auto simp: go_bind_Ret_iff split: if_splits)
  have "slept \<le> 30710" using wait_loop_slept [OF w(1)] max_sleep_30 by simp
  moreover have "moved \<longrightarrow> startTerm > - 1" using wait_loop_moved [of index n startTerm "map seen [0..<30]" 10 0 slept] w(1) by auto
  ultimately show ?thesis using w(2) by (auto split: if_splits waited.splits)
qed

text \<open>One server has committed at the second look.\<close>

theorem wait_commit_bounded_witness:
  "\<exists>committed. wait_commit 1 1 (- 1) (\<lambda>k. (if k = 0 then three_peers else committed, \<lambda>_. (0, False))) committed = Ret (Agreed (Some 7), 10) \<and>
   (\<exists>nd \<ge> 1. nCommitted 1 committed = Ret (nd, Some 7))"
proof -
  let ?c = "three_peers\<lparr>cf_logs := [[], [(1, 7)], []]\<rparr>"
  let ?seen = "\<lambda>k :: nat. (if k = 0 then three_peers else ?c, \<lambda>_ :: nat. (0 :: int, False))"
  have "nCommitted 1 three_peers = Ret (0, None)" "nCommitted 1 ?c = Ret (1, Some 7)"
    by (simp_all add: nCommitted_def ncommitted_step_def blank_config_def log_at_def upt_rec)
  then have ok: "wait_commit 1 1 (- 1) ?seen ?c = Ret (Agreed (Some 7), 10)"
    by (simp add: wait_commit_def upt_rec)
  from wait_commit_bounded [OF ok] have "\<exists>nd \<ge> 1. nCommitted 1 ?c = Ret (nd, Some 7)" by simp
  then show ?thesis using ok by blast
qed

text \<open>C31: When \<open>one(cmd, expected, retry)\<close> returns an index, a connected server that is running answered \<open>Start\<close> as the
  leader with that index, and afterwards at least \<open>expected\<close> servers (and at least one) had committed
  \<open>cmd\<close> there.\<close>

theorem one_correct:
  assumes "one attempts cmd expected retry = Ret index" "\<forall>a \<in> set attempts. 0 < cf_n (at_cfg a)"
  shows "\<exists>a \<in> set attempts. \<exists>s < cf_n (at_cfg a). cf_connected (at_cfg a) ! s \<and> cf_rafts (at_cfg a) ! s \<noteq> None \<and>
    fst (at_start a s) = index \<and> snd (snd (at_start a s)) \<and>
    (\<exists>cfg \<in> set (at_polls a). \<exists>nd. nCommitted index cfg = Ret (nd, Some cmd) \<and> 0 < nd \<and> expected \<le> nd)"
  by (rule one_loop_Ret [OF assms(1) [unfolded one_def] assms(2)])

theorem one_correct_witness:
  "\<exists>polled rf. one [\<lparr>at_cfg = three_peers\<lparr>cf_rafts := [None, Some rf, None]\<rparr>, at_start = \<lambda>i. (1, 1, i = 1), at_polls = [polled]\<rparr>]
     7 1 False = Ret 1 \<and> (\<exists>nd > 0. nCommitted 1 polled = Ret (nd, Some 7))"
proof -
  let ?rf = "Make [] 1 0 MakePersister" and ?polled = "three_peers\<lparr>cf_logs := [[], [(1, 7)], []]\<rparr>"
  let ?a = "\<lparr>at_cfg = three_peers\<lparr>cf_rafts := [None, Some ?rf, None]\<rparr>, at_start = \<lambda>i. (1, 1, i = 1), at_polls = [?polled]\<rparr>"
  have "nCommitted 1 ?polled = Ret (1, Some 7)"
    by (simp add: nCommitted_def ncommitted_step_def blank_config_def log_at_def upt_rec)
  moreover have "try_servers (at_start ?a) (at_cfg ?a) (Suc 2) 0 = (1, 1)" "cf_n (at_cfg ?a) = Suc 2"
    by (simp_all only: try_servers.simps) (simp_all add: blank_config_def)
  ultimately have ok: "one [?a] 7 1 False = Ret 1" by (simp add: one_def)
  have n: "\<forall>a \<in> set [?a]. 0 < cf_n (at_cfg a)" by (simp add: blank_config_def)
  have "\<exists>nd > 0. nCommitted 1 ?polled = Ret (nd, Some 7)"
    using one_correct [OF ok n] by auto
  then show ?thesis using ok by blast
qed

end
