(* ===== verification/Raft_Agreement.thy ===== *)
theory Raft_Agreement
  imports Raft_Checks
begin

text \<open>
  What the tester of the Raft lab means by agreement, as an abstract system, and the proof that its bookkeeping
  (\<open>applier\<close> and \<open>checkLogs\<close> of \<open>lab2/raft/config.go\<close>) refines it: there is one sequence of
  commands, and every server has applied a prefix of it.
\<close>

subsection \<open>The specification\<close>

type_synonym 'c agreement = "'c list \<times> nat list"

text \<open>A server applies the next command of the sequence, or, when it has applied all of them, a new command that becomes
  the next one.\<close>

inductive agree_step :: "'c agreement \<Rightarrow> 'c agreement \<Rightarrow> bool" where
  apply_next: "i < length cs \<Longrightarrow> cs ! i < length l \<Longrightarrow> agree_step (l, cs) (l, cs[i := cs ! i + 1])"
| apply_new: "i < length cs \<Longrightarrow> cs ! i = length l \<Longrightarrow> agree_step (l, cs) (l @ [c], cs[i := cs ! i + 1])"

inductive_cases agree_stepE: "agree_step (l, cs) a"

definition agree_init :: "'c agreement \<Rightarrow> bool" where
  "agree_init a \<longleftrightarrow> fst a = [] \<and> (\<forall>k \<in> set (snd a). k = 0)"

subsection \<open>The tester\<close>

text \<open>One message of any server's apply channel, with an index that a Raft log has. That indices start at 1 is up to the
  Raft under test; the tester does not check it, and \<open>applied_logs_agree\<close> in
  \<open>Raft_Checks\<close> is about messages with any index.\<close>

definition apply_step :: "('v, 'c) config \<Rightarrow> ('v, 'c) config \<Rightarrow> bool" where
  "apply_step cfg cfg' \<longleftrightarrow> (\<exists>i m. i < length (cf_logs cfg) \<and> 1 \<le> CommandIndex m \<and> apply_one i m cfg = Ret cfg')"

definition apply_init :: "('v, 'c) config \<Rightarrow> bool" where
  "apply_init cfg \<longleftrightarrow> (\<forall>l \<in> set (cf_logs cfg). l = []) \<and> cf_maxIndex cfg = 0"

definition agrees :: "('v, 'c) config \<Rightarrow> 'c agreement \<Rightarrow> bool" where
  "agrees cfg a \<longleftrightarrow> (let l = fst a; cs = snd a in
     length cs = length (cf_logs cfg) \<and> cf_maxIndex cfg = int (length l) \<and>
     (\<forall>i < length cs. cs ! i \<le> length l) \<and> (l = [] \<or> (\<exists>i < length cs. cs ! i = length l)) \<and>
     (\<forall>i < length cs. \<forall>k. log_at cfg i k = (if 1 \<le> k \<and> k \<le> int (cs ! i) then Some (l ! nat (k - 1)) else None)))"

lemma agreesD:
  assumes "agrees cfg (l, cs)"
  shows "length cs = length (cf_logs cfg)" "cf_maxIndex cfg = int (length l)"
    "i < length cs \<Longrightarrow> cs ! i \<le> length l" "l \<noteq> [] \<Longrightarrow> \<exists>i < length cs. cs ! i = length l"
    "i < length cs \<Longrightarrow> log_at cfg i k = (if 1 \<le> k \<and> k \<le> int (cs ! i) then Some (l ! nat (k - 1)) else None)"
  using assms by (auto simp: agrees_def Let_def)

lemma agrees_init: "apply_init cfg \<Longrightarrow> agrees cfg ([], replicate (length (cf_logs cfg)) 0)"
proof -
  assume init: "apply_init cfg"
  have "cf_logs cfg ! i = []" if "i < length (cf_logs cfg)" for i
    using init nth_mem [OF that] unfolding apply_init_def by blast
  then have "log_at cfg i k = None" if "i < length (cf_logs cfg)" for i k using that by (simp add: log_at_def)
  then show ?thesis using init by (simp add: apply_init_def agrees_def)
qed

text \<open>Every command of the sequence is in some server's log, so what is applied at its index is that command.\<close>

lemma agrees_held:
  assumes "agrees cfg (l, cs)" "1 \<le> k" "k \<le> int (length l)"
  obtains j where "j < length (cf_logs cfg)" "log_at cfg j k = Some (l ! nat (k - 1))"
proof -
  have "l \<noteq> []" using assms(2,3) by auto
  then obtain j where "j < length cs" "cs ! j = length l" using agreesD(4) [OF assms(1)] by blast
  then show ?thesis using that agreesD(5) [OF assms(1), of j k] agreesD(1) [OF assms(1)] assms(2,3) by simp
qed

text \<open>The logs and the sequence after server \<open>i\<close> has applied the entry after its last one.\<close>

lemma agrees_extend:
  assumes a: "agrees cfg (l, cs)" and i: "i < length (cf_logs cfg)" and k: "CommandIndex m = int (cs ! i) + 1"
    and l': "l' = (if cs ! i < length l then l else l @ [Command m])" and c: "l' ! (cs ! i) = Command m"
  shows "agrees (snd (snd (checkLogs i m cfg))) (l', cs[i := cs ! i + 1])"
proof -
  let ?cfg = "snd (snd (checkLogs i m cfg))" and ?cs = "cs[i := cs ! i + 1]"
  note at = checkLogs_log_at [OF i, of m]
  have len: "length cs = length (cf_logs cfg)" and max: "cf_maxIndex cfg = int (length l)"
    and le: "cs ! i \<le> length l" using agreesD(1,2,3) [OF a] i by auto
  have le': "cs ! j \<le> length l" if "j < length cs" for j using agreesD(3) [OF a that] .
  have keep: "l' ! n = l ! n" if "n < length l" for n using l' that by (simp add: nth_append)
  have "cf_maxIndex ?cfg = int (length l')" using at(3) max k l' le by auto
  moreover have "\<forall>j < length ?cs. ?cs ! j \<le> length l'"
  proof (intro allI impI)
    fix j assume "j < length ?cs"
    then show "?cs ! j \<le> length l'" using le le' [of j] l' len i by (cases "j = i") auto
  qed
  moreover have "\<exists>j < length ?cs. ?cs ! j = length l'"
  proof (cases "cs ! i < length l")
    case True
    then have "l \<noteq> []" by auto
    then obtain j where j: "j < length cs" "cs ! j = length l" using agreesD(4) [OF a] by blast
    moreover have "j \<noteq> i" using j True by auto
    ultimately show ?thesis using True l' by (intro exI [of _ j]) auto
  next
    case False
    then show ?thesis using le l' len i by (intro exI [of _ i]) auto
  qed
  moreover have "log_at ?cfg j n = (if 1 \<le> n \<and> n \<le> int (?cs ! j) then Some (l' ! nat (n - 1)) else None)" if j: "j < length ?cs" for j n
  proof (cases "j = i")
    case True
    show ?thesis
    proof (cases "n = CommandIndex m")
      case eq: True
      then show ?thesis using True k c len i by (simp add: at(1))
    next
      case False
      have "nat (n - 1) < length l" if "1 \<le> n" "n \<le> int (cs ! i)" using that le by linarith
      then show ?thesis using True False k len i agreesD(5) [OF a, of i n] keep by (auto simp: at(1))
    qed
  next
    case False
    have "nat (n - 1) < length l" if "1 \<le> n" "n \<le> int (cs ! j)" using that le' [of j] j by auto
    then show ?thesis using False agreesD(5) [OF a, of j n] j keep by (simp add: at(1))
  qed
  ultimately show ?thesis using len at(2) by (simp add: agrees_def)
qed

text \<open>Applying again what a server has applied already changes nothing.\<close>

lemma agrees_again:
  assumes a: "agrees cfg (l, cs)" and i: "i < length (cf_logs cfg)" and k: "1 \<le> CommandIndex m" "CommandIndex m \<le> int (cs ! i)"
    and c: "l ! nat (CommandIndex m - 1) = Command m"
  shows "agrees (snd (snd (checkLogs i m cfg))) (l, cs)"
proof -
  let ?cfg = "snd (snd (checkLogs i m cfg))"
  note at = checkLogs_log_at [OF i, of m]
  have "log_at ?cfg j n = log_at cfg j n" for j n
    using agreesD(5) [OF a, of i "CommandIndex m"] agreesD(1) [OF a] i k c by (auto simp: at(1))
  moreover have "cf_maxIndex ?cfg = cf_maxIndex cfg" using agreesD(1,2) [OF a] agreesD(3) [OF a, of i] i k at(3) by auto
  ultimately show ?thesis using a at(2) by (auto simp: agrees_def)
qed

lemma apply_step_sim:
  assumes a: "agrees cfg (l, cs)" and step: "apply_step cfg cfg'"
  shows "\<exists>a'. (agree_step (l, cs) a' \<or> a' = (l, cs)) \<and> agrees cfg' a'"
proof -
  obtain i m where i: "i < length (cf_logs cfg)" and k: "1 \<le> CommandIndex m" and ret: "apply_one i m cfg = Ret cfg'"
    using step unfolding apply_step_def by blast
  show ?thesis
  proof (cases "CommandValid m")
    case False
    then show ?thesis using a ret by (auto simp: apply_one_invalid)
  next
    case True
    have none: "conflicts m cfg = []" and prev: "CommandIndex m > 1 \<Longrightarrow> log_at cfg i (CommandIndex m - 1) \<noteq> None"
      and cfg': "cfg' = snd (snd (checkLogs i m cfg))"
      using ret unfolding apply_one_valid [OF True] by (auto split: if_splits)
    have held: "l ! nat (CommandIndex m - 1) = Command m" if "CommandIndex m \<le> int (length l)"
      using agrees_held [OF a k that] none unfolding conflicts_none by metis
    have cs: "cs ! i \<le> length l" "i < length cs" using agreesD(1,3) [OF a] i by auto
    show ?thesis
    proof (cases "CommandIndex m \<le> int (cs ! i)")
      case True
      then show ?thesis using agrees_again [OF a i k] held cs cfg' by force
    next
      case False
      then have next_k: "CommandIndex m = int (cs ! i) + 1"
        using prev k agreesD(5) [OF a cs(2), of "CommandIndex m - 1"] by (cases "CommandIndex m = 1") (auto split: if_splits)
      let ?l = "if cs ! i < length l then l else l @ [Command m]"
      have "?l ! (cs ! i) = Command m" using held next_k cs(1) by (auto simp: nth_append)
      then have "agrees cfg' (?l, cs[i := cs ! i + 1])" using agrees_extend [OF a i next_k refl] cfg' by simp
      moreover have "agree_step (l, cs) (?l, cs[i := cs ! i + 1])"
        using cs apply_next [of i cs l] apply_new [of i cs l "Command m"] by auto
      ultimately show ?thesis by blast
    qed
  qed
qed

interpretation agreement: simulation apply_init apply_step agree_init agree_step agrees
proof unfold_locales
  fix cfg :: "('v, 'c) config" assume "apply_init cfg"
  then show "\<exists>a. agree_init a \<and> agrees cfg a" by (intro exI [of _ "([], replicate (length (cf_logs cfg)) 0)"]) (simp add: agrees_init agree_init_def)
next
  fix cfg cfg' :: "('v, 'c) config" and a :: "'c agreement"
  assume "agrees cfg a" "apply_step cfg cfg'"
  then show "\<exists>a'. (agree_step a a' \<or> a' = a) \<and> agrees cfg' a'" using apply_step_sim by (cases a) blast
qed

text \<open>The other direction: what the specification allows is never taken for an error.\<close>

lemma agreement_accepted:
  assumes a: "agrees cfg (l, cs)" and i: "i < length (cf_logs cfg)"
    and m: "CommandValid m" "CommandIndex m = int (cs ! i) + 1" "cs ! i < length l \<Longrightarrow> Command m = l ! (cs ! i)"
  shows "\<exists>cfg'. apply_one i m cfg = Ret cfg' \<and>
    agrees cfg' (if cs ! i < length l then l else l @ [Command m], cs[i := cs ! i + 1])"
proof -
  have cs: "cs ! i \<le> length l" "i < length cs" using agreesD(1,3) [OF a] i by auto
  have "w = Command m" if "j < length (cf_logs cfg)" "log_at cfg j (CommandIndex m) = Some w" for j w
    using that agreesD(1) [OF a] agreesD(3) [OF a, of j] agreesD(5) [OF a, of j] m(2,3) by (auto split: if_splits)
  then have "conflicts m cfg = []" unfolding conflicts_none by blast
  moreover have "log_at cfg i (CommandIndex m - 1) \<noteq> None" if "CommandIndex m > 1"
    using that agreesD(5) [OF a cs(2), of "CommandIndex m - 1"] m(2) by auto
  ultimately have "apply_one i m cfg = Ret (snd (snd (checkLogs i m cfg)))" unfolding apply_one_valid [OF m(1)] by simp
  moreover have "(if cs ! i < length l then l else l @ [Command m]) ! (cs ! i) = Command m"
    using m(3) cs(1) by (auto simp: nth_append)
  ultimately show ?thesis using agrees_extend [OF a i m(2) refl] by blast
qed

subsection \<open>Properties\<close>

text \<open>C2: The tester's bookkeeping refines agreement on one sequence. From empty logs, as long as it has not stopped the test, and
  in every interleaving of the servers' apply channels, there is a sequence of commands, reachable by
  applying them one by one, such that each server's log is exactly a prefix of it and \<open>maxIndex\<close> its
  length; and every further application that such a run allows is accepted.\<close>

theorem applier_refines_agreement:
  assumes "reach apply_init apply_step cfg"
  shows "\<exists>l cs. reach agree_init agree_step (l, cs) \<and> length cs = length (cf_logs cfg) \<and> cf_maxIndex cfg = int (length l) \<and>
    (\<forall>i < length cs. cs ! i \<le> length l \<and>
       (\<forall>k. log_at cfg i k = (if 1 \<le> k \<and> k \<le> int (cs ! i) then Some (l ! nat (k - 1)) else None)) \<and>
       (\<forall>c. (cs ! i < length l \<longrightarrow> c = l ! (cs ! i)) \<longrightarrow>
          (\<exists>cfg'. apply_one i \<lparr>CommandValid = True, Command = c, CommandIndex = int (cs ! i) + 1\<rparr> cfg = Ret cfg')))"
proof -
  obtain l cs where a: "reach agree_init agree_step (l, cs)" "agrees cfg (l, cs)"
    using agreement.reach_refines [OF assms] by auto
  have "\<exists>cfg'. apply_one i \<lparr>CommandValid = True, Command = c, CommandIndex = int (cs ! i) + 1\<rparr> cfg = Ret cfg'"
    if "i < length cs" "cs ! i < length l \<longrightarrow> c = l ! (cs ! i)" for i c
    using that agreesD(1) [OF a(2)] agreement_accepted [OF a(2), of i "\<lparr>CommandValid = True, Command = c, CommandIndex = int (cs ! i) + 1\<rparr>"]
    by auto
  then show ?thesis using a(1) agreesD [OF a(2)] by (intro exI [of _ l] exI [of _ cs]) auto
qed

theorem applier_refines_agreement_witness:
  "\<exists>cfg (l :: nat list) cs. log_at (cfg :: (unit, nat) config) 1 1 = Some 7 \<and> reach agree_init agree_step (l, cs) \<and> cf_maxIndex cfg = int (length l)"
proof -
  let ?m = "cmd_msg 7 1" and ?cfg = "snd (snd (checkLogs 1 (cmd_msg 7 1) three_peers))"
  have init: "apply_init three_peers" by (simp add: apply_init_def blank_config_def)
  have "apply_one 1 ?m three_peers = Ret ?cfg"
    by (simp add: apply_one_valid conflicts_def log_at_def blank_config_def upt_rec)
  then have "apply_step three_peers ?cfg" unfolding apply_step_def by (intro exI [of _ 1] exI [of _ ?m]) (simp add: blank_config_def)
  then have "reach apply_init apply_step ?cfg" using reach_init [of apply_init, OF init] by (rule reach_step [rotated])
  from applier_refines_agreement [OF this]
  obtain l :: "nat list" and cs where "reach agree_init agree_step (l, cs)" "cf_maxIndex ?cfg = int (length l)"
    by metis
  moreover have "log_at ?cfg 1 1 = Some 7" by (subst checkLogs_log_at(1)) (simp_all add: blank_config_def)
  ultimately show ?thesis by blast
qed

end
