(* ===== verification/Base64.thy ===== *)
theory Base64
  imports Lab_Prelude
begin

text \<open>
  The base64 encoding of \<open>lab1/det_bcrypt/det_bcrypt.go\<close>: Go's \<open>encoding/base64\<close> with bcrypt's alphabet, and
  the two functions that strip and restore the padding.
\<close>

subsection \<open>\<open>encoding/base64\<close>\<close>

definition alphabet :: "byte list" where
  "alphabet = bytes_of ''./ABCDEFGHIJKLMNOPQRSTUVWXYZabcdefghijklmnopqrstuvwxyz0123456789''"

definition pad :: byte where
  "pad = 61"

text \<open>A group of three bytes as a number below \<open>2 ^ 24\<close>, and its four digits of six bits.\<close>

definition val3 :: "byte \<Rightarrow> byte \<Rightarrow> byte \<Rightarrow> nat" where
  "val3 a b c = unat a * 65536 + unat b * 256 + unat c"

definition quad :: "nat \<Rightarrow> byte list" where
  "quad v = map (\<lambda>d. alphabet ! d) [v div 262144 mod 64, v div 4096 mod 64, v div 64 mod 64, v mod 64]"

fun enc64 :: "byte list \<Rightarrow> byte list" where
  "enc64 [] = []"
| "enc64 [a] = take 2 (quad (val3 a 0 0)) @ [pad, pad]"
| "enc64 [a, b] = take 3 (quad (val3 a b 0)) @ [pad]"
| "enc64 (a # b # c # rest) = quad (val3 a b c) @ enc64 rest"

definition digit_of :: "byte \<Rightarrow> nat option" where
  "digit_of c = (if c \<in> set alphabet then Some (length (takeWhile (\<lambda>x. x \<noteq> c) alphabet)) else None)"

definition val4 :: "nat \<Rightarrow> nat \<Rightarrow> nat \<Rightarrow> nat \<Rightarrow> nat" where
  "val4 p q r s = p * 262144 + q * 4096 + r * 64 + s"

definition bytes3 :: "nat \<Rightarrow> byte list" where
  "bytes3 v = [of_nat (v div 65536), of_nat (v div 256), of_nat v]"

text \<open>Padding may only end the last group; anything after it, a digit outside the alphabet and an incomplete
  group are \<open>CorruptInputError\<close>.\<close>

fun dec_groups :: "byte list \<Rightarrow> byte list option" where
  "dec_groups [] = Some []"
| "dec_groups (a # b # c # d # rest) =
     (case (digit_of a, digit_of b) of
        (Some p, Some q) \<Rightarrow>
          (case digit_of c of
             Some r \<Rightarrow>
               (case digit_of d of
                  Some s \<Rightarrow> map_option (\<lambda>bs. bytes3 (val4 p q r s) @ bs) (dec_groups rest)
                | None \<Rightarrow> if d = pad \<and> rest = [] then Some (take 2 (bytes3 (val4 p q r 0))) else None)
           | None \<Rightarrow> if c = pad \<and> d = pad \<and> rest = [] then Some (take 1 (bytes3 (val4 p q 0 0))) else None)
      | _ \<Rightarrow> None)"
| "dec_groups _ = None"

text \<open>The decoder skips line ends.\<close>

definition dec64 :: "byte list \<Rightarrow> byte list option" where
  "dec64 src = dec_groups (filter (\<lambda>c. c \<noteq> 10 \<and> c \<noteq> 13) src)"

subsection \<open>Without padding\<close>

text \<open>Stripping reads \<open>dst[n-1]\<close>, which panics when nothing is left.\<close>

definition base64Encode :: "byte list \<Rightarrow> byte list go" where
  "base64Encode src =
     (let dst = rev (dropWhile (\<lambda>c. c = pad) (rev (enc64 src)))
      in if dst = [] then Panic ''index out of range'' else Ret dst)"

definition base64Decode :: "byte list \<Rightarrow> byte list option" where
  "base64Decode src = dec64 (src @ replicate (4 - length src mod 4) pad)"

subsection \<open>Digits\<close>

lemma alphabet_facts: "length alphabet = 64" "distinct alphabet" "pad \<notin> set alphabet" "10 \<notin> set alphabet" "13 \<notin> set alphabet"
  by (simp_all add: alphabet_def bytes_of_def pad_def)

lemma digit_of_nth: "i < 64 \<Longrightarrow> digit_of (alphabet ! i) = Some i"
proof -
  assume i: "i < 64"
  have "takeWhile (\<lambda>x. x \<noteq> alphabet ! i) alphabet = take i alphabet"
  proof (rule takeWhile_eq_take_P_nth)
    show "\<And>j. j < i \<Longrightarrow> j < length alphabet \<Longrightarrow> alphabet ! j \<noteq> alphabet ! i"
      using i by (simp add: nth_eq_iff_index_eq alphabet_facts)
  qed simp
  then show ?thesis using i by (simp add: digit_of_def alphabet_facts)
qed

lemma digit_of_pad [simp]: "digit_of pad = None"
  by (simp add: digit_of_def alphabet_facts)

lemma in_alphabet: "i < 64 \<Longrightarrow> alphabet ! i \<in> set alphabet"
  by (simp add: alphabet_facts)

lemma digits_val4:
  assumes "v < 16777216"
  shows "val4 (v div 262144 mod 64) (v div 4096 mod 64) (v div 64 mod 64) (v mod 64) = v"
proof -
  have "v div 262144 < 64" using assms by (simp add: less_mult_imp_div_less)
  then have "v div 262144 mod 64 = v div 262144" by simp
  moreover have "v div 4096 = v div 262144 * 64 + v div 4096 mod 64" using div_mult2_eq [of v 4096 64] by simp
  moreover have "v div 64 = v div 4096 * 64 + v div 64 mod 64" using div_mult2_eq [of v 64 64] by simp
  moreover have "v = v div 64 * 64 + v mod 64" by simp
  ultimately show ?thesis unfolding val4_def by linarith
qed

lemma byte_less: "unat (a :: byte) < 256"
proof -
  have "unat a < 2 ^ LENGTH(8)" by (rule unsigned_less)
  then show ?thesis by simp
qed

lemma val3_less: "val3 a b c < 16777216"
  using byte_less [of a] byte_less [of b] byte_less [of c] by (simp add: val3_def)

lemma bytes3_val3: "bytes3 (val3 a b c) = [a, b, c]"
proof -
  have u: "unat a < 256" "unat b < 256" "unat c < 256" by (rule byte_less)+
  have "val3 a b c div 65536 = unat a" "val3 a b c div 256 = unat a * 256 + unat b"
    using u by (simp_all add: val3_def div_nat_eqI)
  moreover have "x * 256 = 0" "x * 65536 = 0" for x :: byte
  proof -
    have "(256 :: byte) = 0" "(65536 :: byte) = 0" by simp_all
    then show "x * 256 = 0" "x * 65536 = 0" by (metis mult_zero_right)+
  qed
  ultimately show ?thesis by (simp add: bytes3_def val3_def)
qed

subsection \<open>Round trip\<close>

lemma quad_digits:
  "quad v = [alphabet ! (v div 262144 mod 64), alphabet ! (v div 4096 mod 64), alphabet ! (v div 64 mod 64), alphabet ! (v mod 64)]"
  by (simp add: quad_def)

lemma set_quad: "set (quad v) \<subseteq> set alphabet"
  by (simp add: quad_digits in_alphabet)

lemma digit_of_mod [simp]: "digit_of (alphabet ! (k mod 64)) = Some (k mod 64)"
  by (simp add: digit_of_nth)

text \<open>The low digits of a group that is filled up with zero bytes are zero.\<close>

lemma val3_low:
  "val3 a b 0 mod 64 = 0" "val3 a 0 0 mod 64 = 0" "val3 a 0 0 div 64 mod 64 = 0"
  by (simp_all add: val3_def)

lemma dec_groups_last:
  "dec_groups (take 2 (quad (val3 a 0 0)) @ [pad, pad]) = Some [a]"
  "dec_groups (take 3 (quad (val3 a b 0)) @ [pad]) = Some [a, b]"
  using digits_val4 [OF val3_less [of a 0 0]] digits_val4 [OF val3_less [of a b 0]]
  by (simp_all add: quad_digits val3_low bytes3_val3)

lemma dec_groups_quad:
  "dec_groups (quad (val3 a b c) @ rest) = map_option (\<lambda>bs. a # b # c # bs) (dec_groups rest)"
  using digits_val4 [OF val3_less [of a b c]] by (cases "dec_groups rest") (simp_all add: quad_digits bytes3_val3)

lemma dec_groups_enc64: "dec_groups (enc64 src) = Some src"
  by (induction src rule: enc64.induct) (simp_all add: dec_groups_last dec_groups_quad)

lemma set_enc64: "set (enc64 src) \<subseteq> insert pad (set alphabet)"
  using set_quad by (induction src rule: enc64.induct) (auto dest: in_set_takeD)

lemma dec64_enc64: "dec64 (enc64 src) = Some src"
proof -
  have "filter (\<lambda>c. c \<noteq> 10 \<and> c \<noteq> 13) (enc64 src) = enc64 src"
    using set_enc64 [of src] alphabet_facts(4,5) by (intro filter_True) (auto simp: pad_def)
  then show ?thesis by (simp add: dec64_def dec_groups_enc64)
qed

text \<open>The number of padding characters; what remains ends with a digit.\<close>

definition pads :: "byte list \<Rightarrow> nat" where
  "pads src = (if length src mod 3 = 0 then 0 else 3 - length src mod 3)"

definition body64 :: "byte list \<Rightarrow> byte list" where
  "body64 src = take (length (enc64 src) - pads src) (enc64 src)"

lemma length_enc64: "length (enc64 src) = (length src + 2) div 3 * 4"
proof (induction src rule: enc64.induct)
  case (4 a b c rest)
  have "(length (a # b # c # rest) + 2) div 3 = Suc ((length rest + 2) div 3)" by simp
  then show ?case using 4 by (simp only: enc64.simps length_append) (simp add: quad_digits)
qed (simp_all add: quad_digits)

lemma enc64_pads:
  "enc64 src = body64 src @ replicate (pads src) pad \<and>
   set (body64 src) \<subseteq> set alphabet"
proof (induction src rule: enc64.induct)
  case (2 a)
  have "pads [a] = 2" "replicate 2 pad = [pad, pad]" by (simp_all add: pads_def numeral_2_eq_2)
  then show ?case by (simp add: body64_def quad_digits in_alphabet)
next
  case (3 a b)
  have "pads [a, b] = 1" by (simp add: pads_def)
  then show ?case by (simp add: body64_def quad_digits in_alphabet)
next
  case (4 a b c rest)
  have p: "pads (a # b # c # rest) = pads rest" by (simp add: pads_def numeral_3_eq_3 [symmetric] mod_simps)
  have le: "pads rest \<le> length (enc64 rest)" using 4 by (metis length_append length_replicate le_add2)
  have "body64 (a # b # c # rest) = quad (val3 a b c) @ body64 rest"
    using le by (simp add: body64_def p quad_digits Suc_diff_le)
  then show ?case using 4 set_quad [of "val3 a b c"] by (simp add: p)
qed (simp add: body64_def pads_def)

lemmas enc64_split = enc64_pads [THEN conjunct1]
lemmas set_body64 = enc64_pads [THEN conjunct2]

lemma pads_arith:
  fixes m n :: nat
  assumes "n + (if m mod 3 = 0 then 0 else 3 - m mod 3) = (m + 2) div 3 * 4"
  shows "n = (m * 4 + 2) div 3"
proof -
  obtain q where "m = 3 * q \<or> m = 3 * q + 1 \<or> m = 3 * q + 2" using that [of "m div 3"] by linarith
  then show ?thesis
  proof (elim disjE)
    assume m: "m = 3 * q"
    have "(m + 2) div 3 = q" "m mod 3 = 0" "(m * 4 + 2) div 3 = q * 4" using m by simp_all
    then show ?thesis using assms by simp
  next
    assume m: "m = 3 * q + 1"
    have "(m + 2) div 3 = q + 1" "m mod 3 = 1" "(m * 4 + 2) div 3 = q * 4 + 2" using m by simp_all
    then show ?thesis using assms by simp
  next
    assume m: "m = 3 * q + 2"
    have "(m + 2) div 3 = q + 1" "(m * 4 + 2) div 3 = q * 4 + 3" using m by simp_all
    moreover have "m mod 3 = 2" using m mod_mult_self2 [of 2 3 q] by (simp add: add.commute)
    ultimately show ?thesis using assms by simp
  qed
qed

lemma length_body64: "length (body64 src) = (length src * 4 + 2) div 3"
proof (rule pads_arith)
  show "length (body64 src) + (if length src mod 3 = 0 then 0 else 3 - length src mod 3) = (length src + 2) div 3 * 4"
    using arg_cong [OF enc64_split [of src], of length] by (simp add: length_enc64 pads_def)
qed

lemma base64Encode_eq: "base64Encode src = (if src = [] then Panic ''index out of range'' else Ret (body64 src))"
proof (cases "src = []")
  case False
  then have "0 < length src" by simp
  then have "0 < length (body64 src)" by (subst length_body64) linarith
  then have ne: "body64 src \<noteq> []" by simp
  then have "last (body64 src) \<noteq> pad" 
    using alphabet_facts(3) subsetD [OF set_body64 last_in_set [OF ne]] by metis
  then have "dropWhile (\<lambda>c. c = pad) (rev (body64 src)) = rev (body64 src)" using ne by (subst dropWhile_eq_self_iff) (simp add: hd_rev)
  then have "dropWhile (\<lambda>c. c = pad) (rev (enc64 src)) = rev (body64 src)"
    by (subst enc64_split) (simp add: dropWhile_append)
  then show ?thesis using False ne by (simp add: base64Encode_def)
qed (simp add: base64Encode_def)

lemma dec_groups_extra: "length src mod 3 = 0 \<Longrightarrow> dec_groups (enc64 src @ pad # rest) = None"
proof (induction src rule: enc64.induct)
  case (4 a b c src)
  then have "length src mod 3 = 0" by (simp add: numeral_3_eq_3 [symmetric])
  then show ?case using 4 dec_groups_quad [of a b c "enc64 src @ pad # rest"] by simp
next
  case 1
  show ?case by (cases rest rule: list.exhaust; cases "tl rest"; cases "tl (tl rest)") auto
qed simp_all

lemma base64_ok:
  assumes "src \<noteq> []"
  shows "base64Encode src = Ret (body64 src) \<and> base64Decode (body64 src) = (if length src mod 3 = 0 then None else Some src)"
proof -
  let ?e = "body64 src"
  have line: "filter (\<lambda>c. c \<noteq> 10 \<and> c \<noteq> 13) (?e @ replicate k pad) = ?e @ replicate k pad" for k
    using set_body64 [of src] alphabet_facts(4,5) by (intro filter_True) (auto simp: pad_def)
  have "length ?e + pads src = (length src + 2) div 3 * 4"
    using arg_cong [OF enc64_split [of src], of length] by (simp add: length_enc64)
  then have len: "(length ?e + pads src) mod 4 = 0" by simp
  have "base64Decode ?e = (if length src mod 3 = 0 then None else Some src)"
  proof (cases "length src mod 3 = 0")
    case True
    then have "pads src = 0" by (simp add: pads_def)
    then have e: "enc64 src = ?e" "length ?e mod 4 = 0" using enc64_split [of src] len by simp_all
    have "dec_groups (?e @ replicate 4 pad) = None"
      using dec_groups_extra [OF True, of "replicate 3 pad"] e(1) by (simp add: numeral_eq_Suc)
    then show ?thesis using True e(2) line by (simp add: base64Decode_def dec64_def)
  next
    case False
    then have "0 < pads src" "pads src < 4" by (simp_all add: pads_def)
    then have "4 - length ?e mod 4 = pads src" using len by presburger
    then show ?thesis
      using False dec64_enc64 [of src] enc64_split [of src] by (simp add: base64Decode_def)
  qed
  then show ?thesis using assms by (simp add: base64Encode_eq)
qed

subsection \<open>Properties\<close>

text \<open>C23: \<open>base64Decode\<close> after \<open>base64Encode\<close> gives the bytes back whenever their number is not a multiple of three;
  then the encoding has \<open>\<lceil>4 n / 3\<rceil>\<close> characters of the alphabet. For a positive multiple of three the
  decoder appends four padding characters too many and fails, and encoding no bytes at all panics. The
  package only encodes 16 and 23 bytes, so its salts and hashes always decode.\<close>

theorem base64_round_trip:
  "base64Encode [] = Panic ''index out of range'' \<and>
   (src \<noteq> [] \<longrightarrow> (\<exists>enc. base64Encode src = Ret enc \<and> length enc = (length src * 4 + 2) div 3 \<and> set enc \<subseteq> set alphabet \<and>
      base64Decode enc = (if length src mod 3 = 0 then None else Some src)))"
  using base64_ok [of src] length_body64 [of src] set_body64 [of src] base64Encode_eq [of "[]"] by auto

theorem base64_round_trip_witness:
  "\<exists>enc. base64Encode (replicate 16 97) = Ret enc \<and> length enc = 22 \<and> base64Decode enc = Some (replicate 16 97)"
  using base64_round_trip [of "replicate 16 97"] by auto

end
