(* ===== verification/Raft_Names.thy ===== *)
theory Raft_Names
  imports Base64 Raft_Config
begin

text \<open>
  The random names of client ends and the random seed of \<open>lab2/raft/config.go\<close>. \<open>randstring(n)\<close> encodes \<open>2 n\<close> random bytes with the
  URL alphabet of \<open>encoding/base64\<close> and cuts the result to \<open>n\<close> characters. The bytes of the system's random source are an
  argument.
\<close>

subsection \<open>Definitions\<close>

definition url_alphabet :: "byte list" where
  "url_alphabet = bytes_of ''ABCDEFGHIJKLMNOPQRSTUVWXYZabcdefghijklmnopqrstuvwxyz0123456789-_''"

definition url_quad :: "nat \<Rightarrow> byte list" where
  "url_quad v = map (\<lambda>d. url_alphabet ! d) [v div 262144 mod 64, v div 4096 mod 64, v div 64 mod 64, v mod 64]"

fun url64 :: "byte list \<Rightarrow> byte list" where
  "url64 [] = []"
| "url64 [a] = take 2 (url_quad (val3 a 0 0)) @ [pad, pad]"
| "url64 [a, b] = take 3 (url_quad (val3 a b 0)) @ [pad]"
| "url64 (a # b # c # rest) = url_quad (val3 a b c) @ url64 rest"

definition string_of_bytes :: "byte list \<Rightarrow> string" where
  "string_of_bytes bs = map (\<lambda>b. char_of (unat b)) bs"

definition randstring :: "nat \<Rightarrow> byte list \<Rightarrow> string go" where
  "randstring n b =
     (let s = url64 b in if n \<le> length s then Ret (string_of_bytes (take n s)) else Panic ''slice bounds out of range'')"

text \<open>\<open>crand.Int(crand.Reader, max)\<close> gives a number below \<open>max\<close>, here \<open>2 ^ 62\<close>.\<close>

definition makeSeed :: "rng \<Rightarrow> 64 word" where
  "makeSeed rng = of_nat (shd rng mod 2 ^ 62)"

subsection \<open>The two encodings\<close>

text \<open>The URL encoding is the other one with its digits written differently.\<close>

definition url_digit :: "byte \<Rightarrow> byte" where
  "url_digit c = (case digit_of c of Some d \<Rightarrow> url_alphabet ! d | None \<Rightarrow> pad)"

lemma url_alphabet_facts: "length url_alphabet = 64" "distinct url_alphabet" "pad \<notin> set url_alphabet"
  by (simp_all add: url_alphabet_def bytes_of_def pad_def)

lemma url_digit_nth: "i < 64 \<Longrightarrow> url_digit (alphabet ! i) = url_alphabet ! i"
  by (simp add: url_digit_def digit_of_nth)

lemma url_digit_pad: "url_digit pad = pad"
  by (simp add: url_digit_def)

lemma url_quad_digits: "url_quad v = map url_digit (quad v)"
  by (simp add: url_quad_def quad_def url_digit_nth)

lemma url64_digits: "url64 src = map url_digit (enc64 src)"
  by (induction src rule: url64.induct) (simp_all add: url_quad_digits url_digit_pad take_map)

lemma url_digit_inj: "inj_on url_digit (insert pad (set alphabet))"
proof (rule inj_onI)
  have nth: "\<exists>i < 64. c = alphabet ! i" if "c \<in> set alphabet" for c using that by (auto simp: in_set_conv_nth alphabet_facts(1))
  have pad: "url_alphabet ! i \<noteq> pad" if "i < 64" for i
  proof -
    have "url_alphabet ! i \<in> set url_alphabet" using that by (simp add: url_alphabet_facts(1))
    then show ?thesis using url_alphabet_facts(3) by metis
  qed
  fix x y assume xy: "x \<in> insert pad (set alphabet)" "y \<in> insert pad (set alphabet)" "url_digit x = url_digit y"
  consider "x = pad" "y = pad" | i where "x = pad" "y = alphabet ! i" "i < 64" | i where "x = alphabet ! i" "y = pad" "i < 64"
    | i j where "x = alphabet ! i" "y = alphabet ! j" "i < 64" "j < 64" using xy(1,2) nth by blast
  then show "x = y"
    using xy(3) pad pad [THEN not_sym] by cases (auto simp: url_digit_nth url_digit_pad nth_eq_iff_index_eq url_alphabet_facts)
qed

lemma url64_inj: "url64 a = url64 b \<longleftrightarrow> a = b"
proof
  assume "url64 a = url64 b"
  moreover have "inj_on url_digit (set (enc64 a) \<union> set (enc64 b))"
    by (rule inj_on_subset [OF url_digit_inj]) (use set_enc64 in blast)
  ultimately have "enc64 a = enc64 b" by (simp add: url64_digits inj_on_map_eq_map)
  then have "dec_groups (enc64 a) = dec_groups (enc64 b)" by (rule arg_cong)
  then show "a = b" by (simp add: dec_groups_enc64)
qed simp

lemma length_url64: "length (url64 src) = (length src + 2) div 3 * 4"
  by (simp add: url64_digits length_enc64)

text \<open>Whole groups are encoded on their own.\<close>

lemma url64_groups: "3 * k \<le> length src \<Longrightarrow> take (4 * k) (url64 src) = url64 (take (3 * k) src)"
proof (induction k arbitrary: src)
  case (Suc k)
  then obtain a b c rest where src: "src = a # b # c # rest" "3 * k \<le> length rest"
    by (cases src; cases "tl src"; cases "tl (tl src)") auto
  have "length (url_quad v) = 4" for v by (simp add: url_quad_def)
  then have "take (4 * Suc k) (url64 src) = url_quad (val3 a b c) @ take (4 * k) (url64 rest)" by (simp add: src)
  also have "\<dots> = url64 (a # b # c # take (3 * k) rest)" using Suc.IH [OF src(2)] by simp
  also have "a # b # c # take (3 * k) rest = take (3 * Suc k) src" by (simp add: src take_Cons')
  finally show ?case .
qed simp

lemma string_of_bytes_inj: "string_of_bytes a = string_of_bytes b \<longleftrightarrow> a = b"
proof -
  have "x = y" if "char_of (unat x) = (char_of (unat y) :: char)" for x y :: byte
    using arg_cong [OF that, of "of_char :: char \<Rightarrow> nat"] byte_less [of x] byte_less [of y] by (simp add: of_char_of word_unat_eq_iff)
  then have "inj (\<lambda>b :: byte. char_of (unat b) :: char)" by (rule injI)
  then show ?thesis by (simp add: string_of_bytes_def inj_map_eq_map)
qed

lemma bytes_string_of_bytes: "bytes_of (string_of_bytes bs) = bs"
proof -
  have "(of_char (char_of (unat b) :: char) :: byte) = b" for b :: byte
  proof -
    have "(of_char (char_of (unat b) :: char) :: nat) = unat b" using byte_less [of b] by simp
    then have "(of_nat (of_char (char_of (unat b) :: char)) :: byte) = of_nat (unat b)" by (rule arg_cong)
    then show ?thesis by (simp only: of_nat_of_char of_nat_unat) simp
  qed
  then show ?thesis by (induction bs) (simp_all add: bytes_of_def string_of_bytes_def)
qed

lemma set_take_url64:
  assumes "k \<le> length (body64 src)"
  shows "set (take k (url64 src)) \<subseteq> set url_alphabet"
proof -
  have "take k (enc64 src) = take k (body64 src)" using assms by (subst enc64_split) simp
  then have "set (take k (enc64 src)) \<subseteq> set alphabet" using set_body64 [of src] set_take_subset [of k "body64 src"] by auto
  moreover have "url_digit c \<in> set url_alphabet" if c: "c \<in> set alphabet" for c
  proof -
    obtain i where "i < 64" "c = alphabet ! i" using c by (auto simp: in_set_conv_nth alphabet_facts(1))
    then show ?thesis using url_digit_nth url_alphabet_facts(1) by simp
  qed
  ultimately show ?thesis by (auto simp: url64_digits take_map)
qed

lemma randstring_Ret:
  assumes "length b = 2 * n"
  shows "randstring n b = Ret (string_of_bytes (take n (url64 b)))" "set (take n (url64 b)) \<subseteq> set url_alphabet"
    "length (take n (url64 b)) = n"
proof -
  have body: "n \<le> length (body64 b)" using assms by (subst length_body64) linarith
  have "n \<le> length (url64 b)" using assms by (subst length_url64) linarith
  then show "randstring n b = Ret (string_of_bytes (take n (url64 b)))" "length (take n (url64 b)) = n" by (simp_all add: randstring_def)
  show "set (take n (url64 b)) \<subseteq> set url_alphabet" by (rule set_take_url64 [OF body])
qed

text \<open>Two names of 20 characters are equal only if the first 15 bytes behind them are.\<close>

lemma randstring_eq:
  assumes "length b = 40" "length b' = 40"
  shows "randstring 20 b = randstring 20 b' \<longleftrightarrow> take 15 b = take 15 b'"
proof -
  have "take 20 (url64 x) = url64 (take 15 x)" if "length x = 40" for x using url64_groups [of 5 x] that by simp
  then show ?thesis using assms randstring_Ret(1) [of _ 20] by (simp add: string_of_bytes_inj url64_inj)
qed

subsection \<open>Distinct names\<close>

lemma distinct_names:
  assumes "\<And>i. i < n \<Longrightarrow> length (names i) = (m :: nat)"
    and "\<And>i j i' j'. i < n \<Longrightarrow> j < m \<Longrightarrow> i' < n \<Longrightarrow> j' < m \<Longrightarrow> names i ! j = names i' ! j' \<Longrightarrow> i = i' \<and> j = j'"
  shows "distinct (concat (map names [0..<n]))"
proof -
  have "names i = map (\<lambda>j. names i ! j) [0..<m]" if "i < n" for i using assms(1) [OF that] map_nth [of "names i"] by simp
  then have "concat (map names [0..<n]) = concat (map (\<lambda>i. map (\<lambda>j. names i ! j) [0..<m]) [0..<n])"
    by (intro arg_cong [where f = concat] map_cong) simp_all
  also have "\<dots> = map (\<lambda>(i, j). names i ! j) (List.product [0..<n] [0..<m])" by (simp add: product_concat_map map_concat o_def)
  finally have eq: "concat (map names [0..<n]) = map (\<lambda>(i, j). names i ! j) (List.product [0..<n] [0..<m])" .
  have "inj_on (\<lambda>(i, j). names i ! j) (set (List.product [0..<n] [0..<m]))" using assms(2) by (auto intro!: inj_onI)
  then show ?thesis unfolding eq by (simp add: distinct_map distinct_product)
qed

subsection \<open>Properties\<close>

text \<open>C25: \<open>randstring\<close> never fails and gives exactly \<open>n\<close> characters of the URL alphabet, none of them padding. So a cluster whose end names come
  from random draws comes up with every server connected to every other, unless two draws agree in
  their first 15 bytes.\<close>

theorem random_names_connect:
  fixes methods :: "Raft \<Rightarrow> 'v rmethod list"
  assumes "\<forall>i < n. length (names i) = n"
    and "\<forall>i < n. \<forall>j < n. length (draws i j) = 40 \<and> randstring 20 (draws i j) = Ret (names i ! j)"
    and "\<forall>i < n. \<forall>j < n. \<forall>i' < n. \<forall>j' < n. take 15 (draws i j) = take 15 (draws i' j') \<longrightarrow> i = i' \<and> j = j'"
  shows "\<exists>cfg :: ('v, 'c) config. make_config methods n unreliable names = Ret cfg \<and> cf_n cfg = n \<and>
    (\<forall>i < n. \<forall>j < n. cf_connected cfg ! i \<and> length (names i ! j) = 20 \<and> set (bytes_of (names i ! j)) \<subseteq> set url_alphabet \<and>
       end_at cfg i j \<noteq> None \<and> gm_getz False (net_enabled (cf_net cfg)) (IStr (the (end_at cfg i j))))"
proof -
  have name: "names i ! j = string_of_bytes (take 20 (url64 (draws i j)))" "set (take 20 (url64 (draws i j))) \<subseteq> set url_alphabet"
    "length (take 20 (url64 (draws i j))) = 20" if "i < n" "j < n" for i j
    using assms(2) that randstring_Ret [of "draws i j" 20] by auto
  have "distinct (concat (map names [0..<n]))"
  proof (rule distinct_names [where m = n])
    fix i j i' j' assume ij: "i < n" "j < n" "i' < n" "j' < n" "names i ! j = names i' ! j'"
    then have "randstring 20 (draws i j) = randstring 20 (draws i' j')" using assms(2) by simp
    then have "take 15 (draws i j) = take 15 (draws i' j')" using randstring_eq [of "draws i j" "draws i' j'"] assms(2) ij(1-4) by simp
    then show "i = i' \<and> j = j'" using assms(3) ij(1-4) by simp
  qed (use assms(1) in simp)
  then obtain cfg :: "('v, 'c) config" where cfg: "make_config methods n unreliable names = Ret cfg" "reach cfg_init cfg_step cfg" "cf_n cfg = n"
    "\<forall>i < n. cf_connected cfg ! i" "\<forall>i < n. cf_endnames cfg ! i \<noteq> None"
    using make_config_ready [OF assms(1)] by blast
  have "end_at cfg i j \<noteq> None \<and> gm_getz False (net_enabled (cf_net cfg)) (IStr (the (end_at cfg i j)))" if "i < n" "j < n" for i j
    using all_ends_on [OF cfgs.reach_inv [OF cfg(2)], of i j] cfg(3-5) that by auto
  moreover have "length (names i ! j) = 20 \<and> set (bytes_of (names i ! j)) \<subseteq> set url_alphabet" if "i < n" "j < n" for i j
    using name [OF that] by (simp add: bytes_string_of_bytes) (simp add: string_of_bytes_def)
  ultimately show ?thesis using cfg(1,3,4) by blast
qed

theorem random_names_connect_witness:
  "\<exists>cfg :: (nat, nat) config. \<exists>x. randstring 20 (replicate 40 7) = Ret x \<and>
     make_config (\<lambda>_. []) 1 False (\<lambda>_. [x]) = Ret cfg \<and> cf_connected cfg ! 0"
proof -
  define b :: "byte list" where "b = replicate 40 7"
  have len: "length b = 40" by (simp add: b_def)
  then obtain x where x: "randstring 20 b = Ret x" using randstring_Ret(1) [of b 20] by auto
  have "\<exists>cfg :: (nat, nat) config. make_config (\<lambda>_. []) 1 False (\<lambda>_. [x]) = Ret cfg \<and> cf_n cfg = 1 \<and>
    (\<forall>i < 1. \<forall>j < 1. cf_connected cfg ! i \<and> length ([x] ! j) = 20 \<and> set (bytes_of ([x] ! j)) \<subseteq> set url_alphabet \<and>
       end_at cfg i j \<noteq> None \<and> gm_getz False (net_enabled (cf_net cfg)) (IStr (the (end_at cfg i j))))"
    by (rule random_names_connect [where draws = "\<lambda>_ _. b"]) (simp_all add: len x)
  then show ?thesis using x unfolding b_def by (meson less_one)
qed

end
