(* ===== verification/Det_Bcrypt.thy ===== *)
theory Det_Bcrypt
  imports Base64
begin

text \<open>
  The password hash of \<open>lab1/det_bcrypt/det_bcrypt.go\<close>: bcrypt with a fixed salt, and the textual form of
  a hash. The Blowfish cipher (\<open>golang.org/x/crypto/blowfish\<close>) is a parameter: salted set-up, key
  expansion and the encryption of one block.
\<close>

subsection \<open>Results\<close>

datatype bcrypt_error =
    ErrMismatchedHashAndPassword
  | ErrHashTooShort
  | HashVersionTooNewError byte
  | InvalidHashPrefixError byte
  | InvalidCostError int
  | CorruptInputError
  | CipherError
  | AtoiError

type_synonym 'a result = "(bcrypt_error + 'a) go"

definition try_bind :: "'a result \<Rightarrow> ('a \<Rightarrow> 'b result) \<Rightarrow> 'b result" where
  "try_bind m f = go_bind m (\<lambda>r. case r of Inl e \<Rightarrow> Ret (Inl e) | Inr x \<Rightarrow> f x)"

lemma try_bind_simps [simp]:
  "try_bind (Ret (Inr x)) f = f x" "try_bind (Ret (Inl e)) f = Ret (Inl e)"
  by (simp_all add: try_bind_def)

lemma try_bind_Inr: "try_bind m f = Ret (Inr y) \<longleftrightarrow> (\<exists>x. m = Ret (Inr x) \<and> f x = Ret (Inr y))"
proof (cases m)
  case (Ret r)
  then show ?thesis by (cases r) auto
qed (auto simp: try_bind_def)

lemma try_bind_assoc: "try_bind (try_bind m f) g = try_bind m (\<lambda>x. try_bind (f x) g)"
proof (cases m)
  case (Ret r)
  then show ?thesis by (cases r) auto
qed (auto simp: try_bind_def)

definition MinCost :: int where "MinCost = 4"
definition MaxCost :: int where "MaxCost = 31"
definition DefaultCost :: int where "DefaultCost = 10"

definition majorVersion :: byte where "majorVersion = of_char CHR ''2''"
definition minorVersion :: byte where "minorVersion = of_char CHR ''a''"
definition dollar :: byte where "dollar = of_char CHR ''$''"

definition magicCipherData :: "byte list" where
  "magicCipherData =
     [0x4f, 0x72, 0x70, 0x68, 0x65, 0x61, 0x6e, 0x42, 0x65, 0x68, 0x6f, 0x6c,
      0x64, 0x65, 0x72, 0x53, 0x63, 0x72, 0x79, 0x44, 0x6f, 0x75, 0x62, 0x74]"

record hashed =
  h_hash :: "byte list"
  h_salt :: "byte list"
  h_cost :: int
  h_major :: byte
  h_minor :: byte

definition checkCost :: "int \<Rightarrow> unit result" where
  "checkCost cost = Ret (if cost < MinCost \<or> cost > MaxCost then Inl (InvalidCostError cost) else Inr ())"

subsection \<open>The cipher\<close>

record 'k blowfish =
  NewSaltedCipher :: "byte list \<Rightarrow> byte list \<Rightarrow> 'k option"
  ExpandKey :: "byte list \<Rightarrow> 'k \<Rightarrow> 'k"
  Encrypt :: "'k \<Rightarrow> byte list \<Rightarrow> byte list"

text \<open>The number of rounds is a \<open>uint64\<close> shift.\<close>

definition expensiveBlowfishSetup :: "'k blowfish \<Rightarrow> byte list \<Rightarrow> u32 \<Rightarrow> byte list \<Rightarrow> 'k result" where
  "expensiveBlowfishSetup bf key cost salt =
     (case base64Decode salt of
        None \<Rightarrow> Ret (Inl CorruptInputError)
      | Some csalt \<Rightarrow>
          (let ckey = key @ [0]
           in case NewSaltedCipher bf ckey csalt of
                None \<Rightarrow> Ret (Inl CipherError)
              | Some c \<Rightarrow>
                  (let rounds = push_bit (unat cost) (1 :: u64)
                   in Ret (Inr (((\<lambda>c. ExpandKey bf csalt (ExpandKey bf ckey c)) ^^ unat rounds) c)))))"

definition bcrypt :: "'k blowfish \<Rightarrow> byte list \<Rightarrow> int \<Rightarrow> byte list \<Rightarrow> byte list result" where
  "bcrypt bf password cost salt =
     try_bind (expensiveBlowfishSetup bf password (of_int cost) salt) (\<lambda>c.
       let cipherData = concat (map (\<lambda>i. (Encrypt bf c ^^ 64) (take 8 (drop i magicCipherData))) [0, 8, 16])
       in go_bind (base64Encode (take 23 cipherData)) (\<lambda>hsh. Ret (Inr hsh)))"

subsection \<open>The textual form\<close>

text \<open>\<open>copy(arr[n:], src)\<close>: as many bytes as fit.\<close>

definition copy_at :: "nat \<Rightarrow> byte list \<Rightarrow> byte list \<Rightarrow> byte list" where
  "copy_at n src arr = take n arr @ take (length arr - n) src @ drop (n + length src) arr"

definition fmt_02d :: "int \<Rightarrow> string" where
  "fmt_02d c = (if c < 0 then CHR ''-'' # decimal (nat (- c)) else pad_left 2 (decimal (nat c)))"

definition Hash :: "hashed \<Rightarrow> byte list" where
  "Hash p =
     (let arr0 = (replicate 60 0)[0 := dollar, 1 := h_major p];
          (arr1, n1) = (if h_minor p \<noteq> 0 then (arr0[2 := h_minor p], 3) else (arr0, 2));
          arr2 = copy_at (n1 + 1) (bytes_of (fmt_02d (h_cost p))) (arr1[n1 := dollar]);
          arr3 = arr2[n1 + 3 := dollar];
          arr4 = copy_at (n1 + 4) (h_salt p) arr3;
          arr5 = copy_at (n1 + 4 + 22) (h_hash p) arr4
      in take (n1 + 4 + 22 + 31) arr5)"

text \<open>The version: what is read of it, and how many bytes it takes. \<open>newFromHash\<close> has made sure that there are
  at least 59 bytes, so no index is out of range.\<close>

definition decodeVersion :: "byte list \<Rightarrow> hashed \<Rightarrow> (nat \<times> hashed) result" where
  "decodeVersion sbytes p =
     (if sbytes ! 0 \<noteq> dollar then Ret (Inl (InvalidHashPrefixError (sbytes ! 0)))
      else if sbytes ! 1 > majorVersion then Ret (Inl (HashVersionTooNewError (sbytes ! 1)))
      else let p1 = p\<lparr>h_major := sbytes ! 1\<rparr>
           in if sbytes ! 2 \<noteq> dollar then Ret (Inr (4, p1\<lparr>h_minor := sbytes ! 2\<rparr>)) else Ret (Inr (3, p1)))"

text \<open>\<open>strconv.Atoi\<close>: an optional sign and at least one decimal digit.\<close>

definition is_digit :: "byte \<Rightarrow> bool" where
  "is_digit b \<longleftrightarrow> 48 \<le> unat b \<and> unat b \<le> 57"

definition Atoi :: "byte list \<Rightarrow> int option" where
  "Atoi s =
     (let neg = (s \<noteq> [] \<and> hd s = of_char CHR ''-'');
          ds = (if s \<noteq> [] \<and> (hd s = of_char CHR ''-'' \<or> hd s = of_char CHR ''+'') then tl s else s)
      in if ds \<noteq> [] \<and> list_all is_digit ds
         then let n = foldl (\<lambda>a b. 10 * a + (int (unat b) - 48)) 0 ds in Some (if neg then - n else n)
         else None)"

definition decodeCost :: "byte list \<Rightarrow> hashed \<Rightarrow> (nat \<times> hashed) result" where
  "decodeCost sbytes p =
     (case Atoi (take 2 sbytes) of
        None \<Rightarrow> Ret (Inl AtoiError)
      | Some cost \<Rightarrow> try_bind (checkCost cost) (\<lambda>_. Ret (Inr (3, p\<lparr>h_cost := cost\<rparr>))))"

definition newFromHash :: "byte list \<Rightarrow> hashed result" where
  "newFromHash hashedSecret =
     (if length hashedSecret < 59 then Ret (Inl ErrHashTooShort)
      else
        let p = \<lparr>h_hash = [], h_salt = [], h_cost = 0, h_major = 0, h_minor = 0\<rparr>
        in try_bind (decodeVersion hashedSecret p) (\<lambda>(n, p1).
             let s1 = drop n hashedSecret
             in try_bind (decodeCost s1 p1) (\<lambda>(m, p2).
                  let s2 = drop m s1
                  in Ret (Inr (p2\<lparr>h_salt := take 22 s2, h_hash := drop 22 s2\<rparr>)))))"

definition newFromPassword :: "'k blowfish \<Rightarrow> byte list \<Rightarrow> int \<Rightarrow> hashed result" where
  "newFromPassword bf password cost0 =
     (let cost = (if cost0 < MinCost then DefaultCost else cost0)
      in try_bind (checkCost cost) (\<lambda>_.
           go_bind (base64Encode (replicate 16 (of_char CHR ''a''))) (\<lambda>salt.
             try_bind (bcrypt bf password cost salt) (\<lambda>hash.
               Ret (Inr \<lparr>h_hash = hash, h_salt = salt, h_cost = cost, h_major = majorVersion, h_minor = minorVersion\<rparr>)))))"

definition GenerateFromPassword :: "'k blowfish \<Rightarrow> byte list \<Rightarrow> int \<Rightarrow> byte list result" where
  "GenerateFromPassword bf password cost =
     try_bind (newFromPassword bf password cost) (\<lambda>p. Ret (Inr (Hash p)))"

definition CompareHashAndPassword :: "'k blowfish \<Rightarrow> byte list \<Rightarrow> byte list \<Rightarrow> unit result" where
  "CompareHashAndPassword bf hashedPassword password =
     try_bind (newFromHash hashedPassword) (\<lambda>p.
       try_bind (bcrypt bf password (h_cost p) (h_salt p)) (\<lambda>otherHash.
         let otherP = p\<lparr>h_hash := otherHash\<rparr>
         in Ret (if Hash p = Hash otherP then Inr () else Inl ErrMismatchedHashAndPassword)))"

definition Cost :: "byte list \<Rightarrow> int result" where
  "Cost hashedPassword = try_bind (newFromHash hashedPassword) (\<lambda>p. Ret (Inr (h_cost p)))"

subsection \<open>Printing and reading a hash\<close>

definition hash_wf :: "hashed \<Rightarrow> bool" where
  "hash_wf p \<longleftrightarrow> length (h_salt p) = 22 \<and> length (h_hash p) = 31 \<and> MinCost \<le> h_cost p \<and> h_cost p \<le> MaxCost \<and>
     h_major p \<le> majorVersion \<and> h_minor p \<noteq> dollar"

lemma length_fmt_02d: "0 \<le> c \<Longrightarrow> c < 100 \<Longrightarrow> length (fmt_02d c) = 2"
proof -
  assume c: "0 \<le> c" "c < 100"
  then show ?thesis
  proof (cases "nat c < 10")
    case True
    then show ?thesis using c by (simp add: fmt_02d_def pad_left_def decimal_less_10)
  next
    case False
    then show ?thesis using c decimal_less_100 [of "nat c"] by (simp add: fmt_02d_def pad_left_def)
  qed
qed

lemma byte_of_digit: "d < 10 \<Longrightarrow> (of_char (char_of (48 + d) :: char) :: byte) = of_nat (48 + d)"
proof -
  assume d: "d < 10"
  have "(of_char (char_of (48 + d) :: char) :: byte) = of_nat (of_char (char_of (48 + d) :: char))" by (simp only: of_nat_of_char)
  also have "of_char (char_of (48 + d) :: char) = 48 + d" using d by simp
  finally show ?thesis .
qed

lemma Atoi_two:
  assumes "is_digit x" "is_digit y"
  shows "Atoi [x, y] = Some (10 * (int (unat x) - 48) + (int (unat y) - 48))"
proof -
  have sign: "(of_char CHR ''-'' :: byte) = 45" "(of_char CHR ''+'' :: byte) = 43" by simp_all
  have "x \<noteq> 45" "x \<noteq> 43" using assms(1) by (auto simp: is_digit_def)
  then show ?thesis unfolding Atoi_def Let_def sign using assms by simp
qed

lemma Atoi_digits:
  assumes "a < 10" "b < 10"
  shows "Atoi [of_nat (48 + a), of_nat (48 + b)] = Some (10 * int a + int b)"
proof -
  have u: "unat (of_nat (48 + d) :: byte) = 48 + d" if "d < 10" for d using that by (simp add: unat_of_nat del: of_nat_add)
  have "is_digit (of_nat (48 + a))" "is_digit (of_nat (48 + b))"
    unfolding is_digit_def u [OF assms(1)] u [OF assms(2)] using assms by simp_all
  from Atoi_two [OF this] show ?thesis unfolding u [OF assms(1)] u [OF assms(2)] by simp
qed

lemma Atoi_fmt_02d:
  assumes "0 \<le> c" "c < 100"
  shows "Atoi (bytes_of (fmt_02d c)) = Some c"
proof -
  define n where "n = nat c"
  have n: "c = int n" "n < 100" using assms by (simp_all add: n_def)
  have "bytes_of (fmt_02d c) = [of_nat (48 + n div 10), of_nat (48 + n mod 10)]"
  proof (cases "n < 10")
    case True
    then show ?thesis using n byte_of_digit [of n] by (simp add: fmt_02d_def pad_left_def decimal_less_10 bytes_of_def)
  next
    case False
    then show ?thesis
      using n decimal_less_100 [of n] byte_of_digit [of "n div 10"] byte_of_digit [of "n mod 10"]
      by (simp add: fmt_02d_def pad_left_def bytes_of_def)
  qed
  then show ?thesis using Atoi_digits [of "n div 10" "n mod 10"] n by (simp add: zdiv_int zmod_int)
qed

text \<open>Writing behind a prefix into a buffer that is still blank.\<close>

lemma blank_write:
  assumes "length xs = n"
  shows "0 < k \<Longrightarrow> (xs @ replicate k z)[n := v] = (xs @ [v]) @ replicate (k - 1) z"
    and "length src \<le> k \<Longrightarrow> copy_at n src (xs @ replicate k 0) = (xs @ src) @ replicate (k - length src) 0"
  using assms by (auto simp: list_update_append copy_at_def gr0_conv_Suc)

definition hash_text :: "hashed \<Rightarrow> byte list" where
  "hash_text p = [dollar, h_major p] @ (if h_minor p \<noteq> 0 then [h_minor p] else []) @ [dollar] @
     bytes_of (fmt_02d (h_cost p)) @ [dollar] @ h_salt p @ h_hash p"

lemma Hash_text:
  assumes "hash_wf p"
  shows "Hash p = hash_text p"
proof -
  let ?c = "bytes_of (fmt_02d (h_cost p))"
  have len: "length (h_salt p) = 22" "length (h_hash p) = 31" "length ?c = 2"
    using assms by (simp_all add: hash_wf_def length_fmt_02d MinCost_def MaxCost_def)
  let ?v = "[dollar, h_major p] @ (if h_minor p \<noteq> 0 then [h_minor p] else [])"
  define n k where "n = length ?v" and "k = 60 - n"
  have nk: "n + k = 60" "n \<le> 3" "57 \<le> k" by (simp_all add: n_def k_def)
  have start: "(replicate 60 0)[0 := dollar, 1 := h_major p] = [dollar, h_major p] @ replicate 58 0"
    by (simp add: numeral_eq_Suc)
  have ver: "(if h_minor p \<noteq> 0 then (((replicate 60 0)[0 := dollar, 1 := h_major p])[2 := h_minor p], 3)
      else ((replicate 60 0)[0 := dollar, 1 := h_major p], 2)) = (?v @ replicate k 0, n)"
    unfolding start using blank_write(1) [of "[dollar, h_major p]" 2 58 0 "h_minor p"] by (simp add: n_def k_def)
  have 1: "(?v @ replicate k 0)[n := dollar] = (?v @ [dollar]) @ replicate (k - 1) 0"
    by (rule blank_write(1)) (use nk in \<open>simp_all add: n_def\<close>)
  have 2: "copy_at (n + 1) ?c ((?v @ [dollar]) @ replicate (k - 1) 0) = ((?v @ [dollar]) @ ?c) @ replicate (k - 3) 0"
    by (subst blank_write(2)) (use nk len in \<open>simp_all add: n_def\<close>)
  have 3: "(((?v @ [dollar]) @ ?c) @ replicate (k - 3) 0)[n + 3 := dollar] = (((?v @ [dollar]) @ ?c) @ [dollar]) @ replicate (k - 4) 0"
    by (subst blank_write(1)) (use nk len in \<open>simp_all add: n_def\<close>)
  have 4: "copy_at (n + 4) (h_salt p) ((((?v @ [dollar]) @ ?c) @ [dollar]) @ replicate (k - 4) 0) =
      ((((?v @ [dollar]) @ ?c) @ [dollar]) @ h_salt p) @ replicate (k - 26) 0"
    by (subst blank_write(2)) (use nk len in \<open>simp_all add: n_def\<close>)
  have 5: "copy_at (n + 4 + 22) (h_hash p) (((((?v @ [dollar]) @ ?c) @ [dollar]) @ h_salt p) @ replicate (k - 26) 0) =
      (((((?v @ [dollar]) @ ?c) @ [dollar]) @ h_salt p) @ h_hash p) @ replicate (k - 57) 0"
    by (subst blank_write(2)) (use nk len in \<open>simp_all add: n_def\<close>)
  have "Hash p = take (n + 4 + 22 + 31) ((((((?v @ [dollar]) @ ?c) @ [dollar]) @ h_salt p) @ h_hash p) @ replicate (k - 57) 0)"
    unfolding Hash_def Let_def ver prod.case 1 2 3 4 5 ..
  also have "\<dots> = hash_text p" using len nk by (simp add: hash_text_def n_def)
  finally show ?thesis .
qed

lemma newFromHash_text:
  assumes "hash_wf p"
  shows "newFromHash (hash_text p) = Ret (Inr p)"
proof -
  let ?c = "bytes_of (fmt_02d (h_cost p))" and ?m = "if h_minor p \<noteq> 0 then [h_minor p] else []"
  let ?p = "\<lparr>h_hash = [], h_salt = [], h_cost = 0, h_major = 0, h_minor = 0\<rparr>"
  let ?p1 = "?p\<lparr>h_major := h_major p, h_minor := h_minor p\<rparr>"
  let ?s1 = "?c @ [dollar] @ h_salt p @ h_hash p"
  have len: "length (h_salt p) = 22" "length (h_hash p) = 31" "length ?c = 2"
    using assms by (simp_all add: hash_wf_def length_fmt_02d MinCost_def MaxCost_def)
  have range: "4 \<le> h_cost p" "h_cost p \<le> 31" using assms by (simp_all add: hash_wf_def MinCost_def MaxCost_def)
  have ver: "\<exists>n. decodeVersion (hash_text p) ?p = Ret (Inr (n, ?p1)) \<and> drop n (hash_text p) = ?s1"
  proof (cases "h_minor p = 0")
    case True
    then show ?thesis using assms by (simp add: decodeVersion_def hash_text_def hash_wf_def dollar_def not_less)
  next
    case False
    then show ?thesis using assms by (simp add: decodeVersion_def hash_text_def hash_wf_def not_less)
  qed
  then obtain n where n: "decodeVersion (hash_text p) ?p = Ret (Inr (n, ?p1))" "drop n (hash_text p) = ?s1" by blast
  have "take 2 ?s1 = ?c" using len by simp
  then have "decodeCost ?s1 ?p1 = Ret (Inr (3, ?p1\<lparr>h_cost := h_cost p\<rparr>))"
    using Atoi_fmt_02d [of "h_cost p"] range by (simp add: decodeCost_def checkCost_def MinCost_def MaxCost_def)
  moreover have "drop 3 ?s1 = h_salt p @ h_hash p" using len by simp
  moreover have "59 \<le> length (hash_text p)" using len by (simp add: hash_text_def)
  ultimately show ?thesis using n len by (simp add: newFromHash_def Let_def del: drop_drop)
qed

lemma Hash_inj:
  assumes "hash_wf p" "length h = 31"
  shows "Hash p = Hash (p\<lparr>h_hash := h\<rparr>) \<longleftrightarrow> h_hash p = h"
proof -
  have "hash_wf (p\<lparr>h_hash := h\<rparr>)" using assms by (simp add: hash_wf_def)
  then show ?thesis using assms(1) by (simp add: Hash_text hash_text_def)
qed

subsection \<open>The hash of a password\<close>

text \<open>Documented of the cipher: a block has eight bytes before and after encryption.\<close>

definition block_cipher :: "'k blowfish \<Rightarrow> bool" where
  "block_cipher bf \<longleftrightarrow> (\<forall>c b. length b = 8 \<longrightarrow> length (Encrypt bf c b) = 8)"

lemma Encrypt_length: "block_cipher bf \<Longrightarrow> length b = 8 \<Longrightarrow> length ((Encrypt bf c ^^ k) b) = 8"
  by (induction k) (simp_all add: block_cipher_def)

definition cipher_text :: "'k blowfish \<Rightarrow> 'k \<Rightarrow> byte list" where
  "cipher_text bf c = concat (map (\<lambda>i. (Encrypt bf c ^^ 64) (take 8 (drop i magicCipherData))) [0, 8, 16])"

lemma length_cipher_text: "block_cipher bf \<Longrightarrow> length (cipher_text bf c) = 24"
  by (simp add: cipher_text_def Encrypt_length magicCipherData_def)

lemma bcrypt_eq:
  assumes "block_cipher bf"
  shows "bcrypt bf password cost salt =
    try_bind (expensiveBlowfishSetup bf password (of_int cost) salt) (\<lambda>c. Ret (Inr (body64 (take 23 (cipher_text bf c)))))"
proof -
  have "take 23 (cipher_text bf c) \<noteq> []" for c using length_cipher_text [OF assms, of c] by auto
  then show ?thesis unfolding bcrypt_def Let_def cipher_text_def [symmetric] by (simp add: base64Encode_eq)
qed

lemma bcrypt_length:
  assumes "block_cipher bf" "bcrypt bf password cost salt = Ret (Inr h)"
  shows "length h = 31"
proof -
  obtain c where "h = body64 (take 23 (cipher_text bf c))" using assms by (auto simp: bcrypt_eq try_bind_Inr)
  then show ?thesis using length_cipher_text [OF assms(1), of c] by (simp add: length_body64)
qed

definition fixed_salt :: "byte list" where
  "fixed_salt = body64 (replicate 16 97)"

lemma fixed_salt_facts:
  "base64Encode (replicate 16 97) = Ret fixed_salt" "length fixed_salt = 22"
  "base64Decode fixed_salt = Some (replicate 16 97)"
  using base64_ok [of "replicate 16 97"] by (simp_all add: fixed_salt_def base64Encode_eq length_body64)

lemma newFromPassword_eq:
  "newFromPassword bf password cost =
     (if cost > MaxCost then Ret (Inl (InvalidCostError cost))
      else let k = (if cost < MinCost then DefaultCost else cost)
           in try_bind (bcrypt bf password k fixed_salt) (\<lambda>hash.
                Ret (Inr \<lparr>h_hash = hash, h_salt = fixed_salt, h_cost = k, h_major = majorVersion, h_minor = minorVersion\<rparr>)))"
  by (simp add: newFromPassword_def checkCost_def fixed_salt_facts MinCost_def MaxCost_def DefaultCost_def Let_def)

lemma generated:
  assumes "block_cipher bf" "GenerateFromPassword bf password cost = Ret (Inr h)"
  obtains p where "hash_wf p" "h = Hash p" "h_salt p = fixed_salt" "h_cost p = (if cost < MinCost then DefaultCost else cost)"
    "bcrypt bf password (h_cost p) fixed_salt = Ret (Inr (h_hash p))"
proof -
  let ?k = "if cost < MinCost then DefaultCost else cost"
  obtain hash where hash: "\<not> cost > MaxCost" "bcrypt bf password ?k fixed_salt = Ret (Inr hash)"
    "h = Hash \<lparr>h_hash = hash, h_salt = fixed_salt, h_cost = ?k, h_major = majorVersion, h_minor = minorVersion\<rparr>"
    using assms(2) unfolding GenerateFromPassword_def newFromPassword_eq Let_def
    by (auto simp: try_bind_Inr split: if_splits)
  show ?thesis
  proof (rule that)
    show "hash_wf \<lparr>h_hash = hash, h_salt = fixed_salt, h_cost = ?k, h_major = majorVersion, h_minor = minorVersion\<rparr>"
      using hash(1) bcrypt_length [OF assms(1) hash(2)]
      by (auto simp: hash_wf_def fixed_salt_facts MinCost_def MaxCost_def DefaultCost_def minorVersion_def dollar_def)
  qed (use hash in simp_all)
qed

lemma GenerateFromPassword_total:
  assumes "block_cipher bf"
  shows "\<exists>r. GenerateFromPassword bf password cost = Ret r"
  by (simp add: GenerateFromPassword_def newFromPassword_eq Let_def try_bind_assoc bcrypt_eq [OF assms]
      expensiveBlowfishSetup_def fixed_salt_facts split: option.split)

subsection \<open>Properties\<close>

text \<open>C22: Reading a printed hash gives the same hash back: for every version up to the current one, with or without a
  minor version, every cost from 4 to 31, a salt of 22 and a hash of 31 characters.\<close>

theorem newFromHash_Hash:
  assumes "hash_wf p"
  shows "newFromHash (Hash p) = Ret (Inr p) \<and> Cost (Hash p) = Ret (Inr (h_cost p)) \<and>
    length (Hash p) = (if h_minor p = 0 then 59 else 60)"
proof -
  have "length (bytes_of (fmt_02d (h_cost p))) = 2"
    using assms by (simp add: hash_wf_def length_fmt_02d MinCost_def MaxCost_def)
  then show ?thesis
    using assms newFromHash_text [OF assms] by (simp add: Cost_def Hash_text [OF assms]) (simp add: hash_text_def hash_wf_def)
qed

theorem newFromHash_Hash_witness:
  "\<exists>p. h_cost p = 5 \<and> newFromHash (Hash p) = Ret (Inr p)"
proof -
  let ?p = "\<lparr>h_hash = replicate 31 65, h_salt = replicate 22 65, h_cost = 5, h_major = majorVersion, h_minor = minorVersion\<rparr>"
  have "hash_wf ?p" by (simp add: hash_wf_def MinCost_def MaxCost_def minorVersion_def dollar_def)
  from newFromHash_Hash [OF this] show ?thesis by (intro exI [of _ ?p]) simp
qed

text \<open>C11: Generating and comparing. A cost above 31 is an error, a cost below 4 is replaced by 10. A generated hash accepts its
  password and records the cost; another password is accepted exactly when bcrypt gives it the same
  hash, and otherwise rejected as a mismatch. The salt always decodes, so generation fails only if the
  cipher rejects the key.\<close>

theorem generate_then_compare:
  assumes "block_cipher bf"
  shows "(cost > MaxCost \<longrightarrow> GenerateFromPassword bf pw cost = Ret (Inl (InvalidCostError cost))) \<and>
    (cost \<le> MaxCost \<longrightarrow>
       (GenerateFromPassword bf pw cost = Ret (Inl CipherError) \<and> NewSaltedCipher bf (pw @ [0]) (replicate 16 97) = None) \<or>
       (\<exists>h. GenerateFromPassword bf pw cost = Ret (Inr h) \<and> Cost h = Ret (Inr (if cost < MinCost then DefaultCost else cost)) \<and>
         CompareHashAndPassword bf h pw = Ret (Inr ()) \<and>
         (\<forall>pw' k. bcrypt bf pw' (if cost < MinCost then DefaultCost else cost) fixed_salt = Ret (Inr k) \<longrightarrow>
            CompareHashAndPassword bf h pw' =
              Ret (if bcrypt bf pw (if cost < MinCost then DefaultCost else cost) fixed_salt = Ret (Inr k) then Inr ()
                   else Inl ErrMismatchedHashAndPassword))))"
proof (intro conjI impI)
  let ?k = "if cost < MinCost then DefaultCost else cost"
  assume cost: "cost \<le> MaxCost"
  have new: "GenerateFromPassword bf pw cost = try_bind (bcrypt bf pw ?k fixed_salt) (\<lambda>hash. Ret (Inr (Hash
      \<lparr>h_hash = hash, h_salt = fixed_salt, h_cost = ?k, h_major = majorVersion, h_minor = minorVersion\<rparr>)))"
    using cost by (simp add: GenerateFromPassword_def newFromPassword_eq Let_def try_bind_assoc)
  show "(GenerateFromPassword bf pw cost = Ret (Inl CipherError) \<and> NewSaltedCipher bf (pw @ [0]) (replicate 16 97) = None) \<or>
       (\<exists>h. GenerateFromPassword bf pw cost = Ret (Inr h) \<and> Cost h = Ret (Inr ?k) \<and> CompareHashAndPassword bf h pw = Ret (Inr ()) \<and>
         (\<forall>pw' k. bcrypt bf pw' ?k fixed_salt = Ret (Inr k) \<longrightarrow>
            CompareHashAndPassword bf h pw' = Ret (if bcrypt bf pw ?k fixed_salt = Ret (Inr k) then Inr () else Inl ErrMismatchedHashAndPassword)))"
  proof (cases "NewSaltedCipher bf (pw @ [0]) (replicate 16 97)")
    case None
    then show ?thesis by (simp add: new bcrypt_eq [OF assms] expensiveBlowfishSetup_def fixed_salt_facts)
  next
    case (Some c)
    then obtain hash where "bcrypt bf pw ?k fixed_salt = Ret (Inr hash)"
      by (simp add: bcrypt_eq [OF assms] expensiveBlowfishSetup_def fixed_salt_facts Let_def)
    then obtain h where h: "GenerateFromPassword bf pw cost = Ret (Inr h)" by (simp add: new)
    then obtain p where p: "hash_wf p" "h = Hash p" "h_salt p = fixed_salt" "h_cost p = ?k"
      "bcrypt bf pw (h_cost p) fixed_salt = Ret (Inr (h_hash p))" using generated [OF assms] by metis
    have cmp: "CompareHashAndPassword bf h pw' = Ret (if h_hash p = k then Inr () else Inl ErrMismatchedHashAndPassword)"
      if "bcrypt bf pw' ?k fixed_salt = Ret (Inr k)" for pw' k
      using that Hash_inj [OF p(1) bcrypt_length [OF assms that]] newFromHash_text [OF p(1)]
      by (simp add: CompareHashAndPassword_def p(2-4) Hash_text [OF p(1), symmetric])
    have "Cost h = Ret (Inr ?k)" using newFromHash_text [OF p(1)] by (simp add: Cost_def p(2,4) Hash_text [OF p(1)])
    moreover have "CompareHashAndPassword bf h pw = Ret (Inr ())" using cmp [of pw "h_hash p"] p(4,5) by simp
    ultimately show ?thesis using h cmp p(4,5) by auto
  qed
qed (simp add: GenerateFromPassword_def newFromPassword_eq)

theorem generate_then_compare_witness:
  "\<exists>bf :: unit blowfish. \<exists>h. GenerateFromPassword bf [1, 2] 3 = Ret (Inr h) \<and> Cost h = Ret (Inr 10) \<and>
     CompareHashAndPassword bf h [1, 2] = Ret (Inr ()) \<and> GenerateFromPassword bf [1, 2] 32 = Ret (Inl (InvalidCostError 32))"
proof -
  let ?bf = "\<lparr>NewSaltedCipher = \<lambda>k s. Some (), ExpandKey = \<lambda>k c. (), Encrypt = \<lambda>c b. b\<rparr> :: unit blowfish"
  have ok: "block_cipher ?bf" by (simp add: block_cipher_def)
  have "\<exists>h. GenerateFromPassword ?bf [1, 2] 3 = Ret (Inr h) \<and> Cost h = Ret (Inr 10) \<and> CompareHashAndPassword ?bf h [1, 2] = Ret (Inr ())"
    using generate_then_compare [OF ok, of 3 "[1, 2]"] by (auto simp: MinCost_def MaxCost_def DefaultCost_def)
  moreover have "GenerateFromPassword ?bf [1, 2] 32 = Ret (Inl (InvalidCostError 32))"
    using generate_then_compare [OF ok, of 32 "[1, 2]"] by (simp add: MaxCost_def)
  ultimately show ?thesis by blast
qed

end
