(* ===== verification/Ranker.thy ===== *)
theory Ranker
  imports Det_Bcrypt Fnv_Hash
begin

text \<open>
  The scoring of \<open>lab1/ranker/ranker.go\<close>: the dot product of the coefficients of a user and a video, wrapped to
  64 bits, printed, hashed with the deterministic bcrypt at a cost that depends on it, and hashed again
  to a number.
\<close>

type_synonym coeffs = "(32 word, u64) gomap"

definition costHash :: "u64 \<Rightarrow> int go" where
  "costHash i = go_bind (go_rem (uint (fnv32 (bytes_of (decimal (unat i))))) (6 - MinCost)) (\<lambda>r. Ret (r + MinCost))"

text \<open>The loop over the user's features, in the map's order.\<close>

definition dot_step :: "coeffs \<Rightarrow> 32 word \<times> u64 \<Rightarrow> u64 \<Rightarrow> u64" where
  "dot_step video fc acc = (case gm_get video (fst fc) of None \<Rightarrow> acc | Some videoCoeff \<Rightarrow> acc + snd fc * videoCoeff)"

definition dotProduct :: "coeffs \<Rightarrow> coeffs \<Rightarrow> u64" where
  "dotProduct user video = fold (dot_step video) user 0"

text \<open>The error of \<open>GenerateFromPassword\<close> is dropped; its bytes are then nil.\<close>

definition Rank :: "'k blowfish \<Rightarrow> coeffs \<Rightarrow> coeffs \<Rightarrow> u64 go" where
  "Rank bf user video =
     (let dp = dotProduct user video; pw = bytes_of (pad_left 20 (decimal (unat dp)))
      in go_bind (costHash dp) (\<lambda>cost.
           go_bind (GenerateFromPassword bf pw cost) (\<lambda>r. Ret (fnv64 (case r of Inl _ \<Rightarrow> [] | Inr bytes \<Rightarrow> bytes)))))"

subsection \<open>The dot product\<close>

definition term_of :: "coeffs \<Rightarrow> 32 word \<times> u64 \<Rightarrow> u64" where
  "term_of video fc = snd fc * gm_getz 0 video (fst fc)"

lemma dot_fold: "fold (dot_step video) user acc = acc + sum_list (map (term_of video) user)"
  by (induction user arbitrary: acc) (auto simp: dot_step_def term_of_def gm_getz_def algebra_simps split: option.splits)

lemma dotProduct_sum: "dotProduct user video = sum_list (map (term_of video) user)"
  by (simp add: dotProduct_def dot_fold)

lemma dotProduct_keys:
  assumes "gm_wf user"
  shows "dotProduct user video = (\<Sum>k \<in> set (gm_keys user). gm_getz 0 user k * gm_getz 0 video k)"
proof -
  have "dotProduct user video = sum_list (map (\<lambda>k. gm_getz 0 user k * gm_getz 0 video k) (gm_keys user))"
  proof -
    have "term_of video fc = gm_getz 0 user (fst fc) * gm_getz 0 video (fst fc)" if "fc \<in> set user" for fc
    proof -
      have "gm_get user (fst fc) = Some (snd fc)" using that assms gm_get_mem [of user "fst fc" "snd fc"] by simp
      then show ?thesis by (simp add: term_of_def gm_getz_def)
    qed
    then show ?thesis by (simp add: dotProduct_sum comp_def cong: map_cong)
  qed
  also have "\<dots> = (\<Sum>k \<in> set (gm_keys user). gm_getz 0 user k * gm_getz 0 video k)"
    by (rule sum_list_distinct_conv_sum_set) (use assms in \<open>simp add: gm_wf_def\<close>)
  finally show ?thesis .
qed

lemma dotProduct_common:
  assumes "gm_wf user"
  shows "dotProduct user video =
    (\<Sum>k \<in> set (gm_keys user) \<inter> set (gm_keys video). gm_getz 0 user k * gm_getz 0 video k)"
  unfolding dotProduct_keys [OF assms]
proof (rule sum.mono_neutral_right)
  show "\<forall>k \<in> set (gm_keys user) - set (gm_keys user) \<inter> set (gm_keys video). gm_getz 0 user k * gm_getz 0 video k = 0"
    by (auto simp: gm_getz_def map_of_eq_None_iff [THEN iffD2])
qed auto

lemma costHash_range: "\<exists>cost. costHash i = Ret cost \<and> 4 \<le> cost \<and> cost < 6"
proof -
  have "costHash i = Ret (uint (fnv32 (bytes_of (decimal (unat i)))) mod 2 + 4)"
    by (simp add: costHash_def MinCost_def go_rem_nonneg)
  then show ?thesis by simp
qed

subsection \<open>Properties\<close>

text \<open>C35: The score is the wrapped sum of the products over the features that the user and the video share: it does not depend
  on the order in which the maps are iterated, it is symmetric in the two, and it always exists; the
  cost is 4 or 5, so the password is hashed whenever the cipher accepts its 21 bytes.\<close>

theorem Rank_order_independent:
  assumes "block_cipher bf" "gm_wf user" "gm_wf video" "mset user = mset user'" "mset video = mset video'"
  shows "Rank bf user video = Rank bf user' video' \<and> Rank bf user video = Rank bf video user \<and>
    (\<exists>score. Rank bf user video = Ret score) \<and>
    dotProduct user video = (\<Sum>k \<in> set (gm_keys user) \<inter> set (gm_keys video). gm_getz 0 user k * gm_getz 0 video k)"
proof -
  have wf: "gm_wf user'" using assms gm_wf_perm by blast
  have keys: "set (gm_keys user') = set (gm_keys user)" "set (gm_keys video') = set (gm_keys video)"
    using mset_eq_setD [OF assms(4)] mset_eq_setD [OF assms(5)] by (metis set_map)+
  have get: "gm_getz 0 user' k = gm_getz 0 user k" "gm_getz 0 video' k = gm_getz 0 video k" for k
    using gm_get_perm [OF assms(4,2), of k] gm_get_perm [OF assms(5,3), of k] by (simp_all add: gm_getz_def)
  have "dotProduct user' video' = dotProduct user video"
    unfolding dotProduct_common [OF wf] dotProduct_common [OF assms(2)] keys get ..
  moreover have "dotProduct video user = dotProduct user video"
    unfolding dotProduct_common [OF assms(3)] dotProduct_common [OF assms(2)] by (simp add: Int_commute mult.commute)
  moreover have "\<exists>score. Rank bf user video = Ret score"
  proof -
    let ?dp = "dotProduct user video"
    obtain cost where "costHash ?dp = Ret cost" "cost \<le> MaxCost" using costHash_range [of ?dp] by (auto simp: MaxCost_def)
    moreover from this obtain r where "GenerateFromPassword bf (bytes_of (pad_left 20 (decimal (unat ?dp)))) cost = Ret r"
      using GenerateFromPassword_total [OF assms(1)] by blast
    ultimately show ?thesis by (simp add: Rank_def Let_def)
  qed
  ultimately show ?thesis using dotProduct_common [OF assms(2)] by (simp add: Rank_def)
qed

theorem Rank_order_independent_witness:
  "\<exists>bf :: unit blowfish. \<exists>score. Rank bf [(1, 5), (2, 7)] [(2, 3)] = Ret score \<and> Rank bf [(2, 7), (1, 5)] [(2, 3)] = Ret score"
proof -
  let ?bf = "\<lparr>NewSaltedCipher = \<lambda>k s. Some (), ExpandKey = \<lambda>k c. (), Encrypt = \<lambda>c b. b\<rparr> :: unit blowfish"
  have ok: "block_cipher ?bf" by (simp add: block_cipher_def)
  let ?u = "[(1, 5), (2, 7)] :: coeffs" and ?u' = "[(2, 7), (1, 5)] :: coeffs" and ?v = "[(2, 3)] :: coeffs"
  have "gm_wf ?u" "gm_wf ?v" "mset ?u = mset ?u'" by (simp_all add: gm_wf_def)
  from Rank_order_independent [OF ok this refl]
  obtain score where "Rank ?bf ?u ?v = Ret score" "Rank ?bf ?u' ?v = Ret score" by metis
  then show ?thesis by blast
qed

end
