(* ===== verification/Failure_Injection.thy ===== *)
theory Failure_Injection
  imports Ranker
begin

text \<open>
  Failure injection for the services of lab 1 (\<open>lab1/failure_injection/failure_injection.go\<close>), and what the user
  and the video service share: gRPC status errors and random test data. The generator of names and
  titles (\<open>gofakeit\<close>) is a parameter with a state of its own.
\<close>

subsection \<open>Injection\<close>

record InjectionConfig =
  SleepNs :: int
  FailureRate :: int
  ResponseOmissionRate :: int

text \<open>The global configuration is a pointer; \<open>None\<close> is nil.\<close>

type_synonym injection = "InjectionConfig option"

definition SetInjectionConfigPb :: "injection \<Rightarrow> injection \<Rightarrow> injection" where
  "SetInjectionConfigPb config g = config"

definition SetInjectionConfig :: "int \<Rightarrow> int \<Rightarrow> int \<Rightarrow> injection \<Rightarrow> injection" where
  "SetInjectionConfig sleepNs failureRate responseOmissionRate g =
     SetInjectionConfigPb (Some \<lparr>SleepNs = sleepNs, FailureRate = failureRate, ResponseOmissionRate = responseOmissionRate\<rparr>) g"

definition ClearInjectionConfig :: "injection \<Rightarrow> injection" where
  "ClearInjectionConfig g = SetInjectionConfig 0 0 0 g"

definition GetInjectionConfig :: "injection \<Rightarrow> injection" where
  "GetInjectionConfig g = g"

definition Int63n :: "int \<Rightarrow> rng \<Rightarrow> (int \<times> rng) go" where
  "Int63n n r = (if n \<le> 0 then Panic ''invalid argument to Int63n'' else Ret (int (shd r) mod n, stl r))"

definition oneIn :: "int \<Rightarrow> rng \<Rightarrow> (bool \<times> rng) go" where
  "oneIn n r = (if n = 0 then Ret (False, r) else go_bind (Int63n n r) (\<lambda>(x, r'). Ret (x = 0, r')))"

text \<open>The result tells whether to fail the request and how many nanoseconds it has slept; an omitted response
  blocks for ever.\<close>

definition MaybeInject :: "injection \<Rightarrow> rng \<Rightarrow> (bool \<times> int \<times> rng) go" where
  "MaybeInject g r =
     (case GetInjectionConfig g of
        None \<Rightarrow> Panic ''nil pointer dereference''
      | Some config \<Rightarrow>
          go_bind (oneIn (FailureRate config) r) (\<lambda>(shouldError, r1).
            go_bind (oneIn (ResponseOmissionRate config) r1) (\<lambda>(shouldOmitResponse, r2).
              if shouldOmitResponse then Hang else Ret (shouldError, max 0 (SleepNs config), r2))))"

lemma oneIn_cases:
  "oneIn n r = (if n = 0 then Ret (False, r) else if n < 0 then Panic ''invalid argument to Int63n''
     else Ret (int (shd r) mod n = 0, stl r))"
  by (simp add: oneIn_def Int63n_def)

subsection \<open>gRPC errors\<close>

datatype code = Internal | InvalidArgument | NotFound | Unimplemented

record status =
  st_code :: code
  st_msg :: string

type_synonym 'a rpc = "(status + 'a) go"

definition error :: "code \<Rightarrow> string \<Rightarrow> status + 'a" where
  "error c msg = Inl \<lparr>st_code = c, st_msg = msg\<rparr>"

definition show_int :: "int \<Rightarrow> string" where
  "show_int n = (if n < 0 then CHR ''-'' # decimal (nat (- n)) else decimal (nat n))"

text \<open>Every handler begins with \<open>MaybeInject\<close>.\<close>

definition injected :: "injection \<Rightarrow> rng \<Rightarrow> string \<Rightarrow> (status + 'a) \<Rightarrow> 'a rpc" where
  "injected g r msg body = go_bind (MaybeInject g r) (\<lambda>(shouldError, _). Ret (if shouldError then error Internal msg else body))"

lemma injected_clear: "injected (ClearInjectionConfig g) r msg body = Ret body"
  by (simp add: injected_def MaybeInject_def GetInjectionConfig_def ClearInjectionConfig_def SetInjectionConfig_def
      SetInjectionConfigPb_def oneIn_cases)

subsection \<open>Random data\<close>

type_synonym 'g faker = "string \<Rightarrow> 'g \<Rightarrow> string \<times> 'g"

text \<open>\<open>Coeffs[int32(rand.Intn(20))] = uint64(rand.Intn(500))\<close>, repeatedly.\<close>

fun coeff_loop :: "nat \<Rightarrow> coeffs \<Rightarrow> rng \<Rightarrow> coeffs \<times> rng" where
  "coeff_loop 0 m r = (m, r)"
| "coeff_loop (Suc k) m r =
     (let (f, r1) = draw 20 r; (v, r2) = draw 500 r1 in coeff_loop k (gm_put (of_nat f) (of_nat v) m) r2)"

text \<open>\<open>rand.Intn(bound) + offset\<close>, repeatedly.\<close>

fun draw_ids :: "nat \<Rightarrow> nat \<Rightarrow> nat \<Rightarrow> rng \<Rightarrow> u64 list \<times> rng" where
  "draw_ids 0 bound offset r = ([], r)"
| "draw_ids (Suc k) bound offset r =
     (let (d, r1) = draw bound r; (ids, r2) = draw_ids k bound offset r1 in (of_nat (d + offset) # ids, r2))"

definition id_in :: "nat \<Rightarrow> nat \<Rightarrow> u64 \<Rightarrow> bool" where
  "id_in offset bound i \<longleftrightarrow> offset \<le> unat i \<and> unat i < offset + bound"

lemma unat_id: "n < 2 ^ 64 \<Longrightarrow> unat (of_nat n :: u64) = n"
  by (simp add: unat_of_nat)

lemma draw_ids_facts:
  assumes "0 < bound" "offset + bound \<le> 2 ^ 64"
  shows "length (fst (draw_ids k bound offset r)) = k" "\<forall>i \<in> set (fst (draw_ids k bound offset r)). id_in offset bound i"
proof (induction k arbitrary: r)
  case (Suc k)
  {
    case 1
    show ?case using Suc(1) by (simp add: Let_def case_prod_beta)
  next
    case 2
    have "id_in offset bound (of_nat (d + offset))" if "d < bound" for d
      using assms(2) that by (simp add: id_in_def unat_id del: of_nat_add)
    then show ?case using Suc(2) draw_less [OF assms(1), of r]
      by (simp add: Let_def case_prod_beta del: of_nat_add)
  }
qed simp_all

lemma coeff_loop_keys:
  "gm_wf m \<Longrightarrow> gm_wf (fst (coeff_loop k m r)) \<and> (\<forall>f v. gm_get (fst (coeff_loop k m r)) f = Some v \<longrightarrow>
     gm_get m f = Some v \<or> unat f < 20 \<and> unat v < 500)"
proof (induction k arbitrary: m r)
  case (Suc k)
  let ?f = "of_nat (fst (draw 20 r)) :: 32 word" and ?v = "of_nat (fst (draw 500 (stl r))) :: u64"
  have small: "unat ?f < 20" "unat ?v < 500"
    using draw_less [of 20 r] draw_less [of 500 "stl r"] by (simp_all add: unat_of_nat)
  have "coeff_loop (Suc k) m r = coeff_loop k (gm_put ?f ?v m) (stl (stl r))" by (simp add: draw_def)
  then show ?case using Suc.IH [of "gm_put ?f ?v m" "stl (stl r)"] Suc.prems small by (auto split: if_splits)
qed simp

subsection \<open>Properties\<close>

text \<open>What injection does to a handler. Without rates (the state after \<open>ClearInjectionConfig\<close>) the handler's answer always
  comes through. Otherwise a response that is not omitted is either the handler's answer or the injected
  error, the latter exactly when the draw for the failure rate is a multiple of it; a failure rate of 1
  fails every request and an omission rate of 1 answers none. A negative rate and a configuration that
  was never sent (nil) panic.\<close>

theorem injection_outcomes:
  "injected (ClearInjectionConfig g) r msg body = Ret body \<and>
   injected None r msg body = Panic ''nil pointer dereference'' \<and>
   injected (SetInjectionConfig s 1 0 g) r msg body = Ret (error Internal msg) \<and>
   injected (SetInjectionConfig s 0 1 g) r msg body = Hang \<and>
   (n < 0 \<longrightarrow> injected (SetInjectionConfig s n m g) r msg body = Panic ''invalid argument to Int63n'') \<and>
   (0 < n \<longrightarrow> injected (SetInjectionConfig s n 0 g) r msg body = Ret (if int (shd r) mod n = 0 then error Internal msg else body)) \<and>
   (0 < n \<longrightarrow> 0 < m \<longrightarrow> injected (SetInjectionConfig s n m g) r msg body =
      (if int (shd (stl r)) mod m = 0 then Hang else Ret (if int (shd r) mod n = 0 then error Internal msg else body)))"
  by (simp add: injected_def MaybeInject_def GetInjectionConfig_def ClearInjectionConfig_def SetInjectionConfig_def
      SetInjectionConfigPb_def oneIn_cases)

theorem injection_outcomes_witness:
  "injected (SetInjectionConfig 0 2 0 None) (sconst 3) ''x'' (Inr True) = Ret (Inr True) \<and>
   injected (SetInjectionConfig 0 (- 1) 0 None) (sconst 3) ''x'' (Inr True) = Panic ''invalid argument to Int63n''"
proof -
  have "(0 :: int) < 2" "(- 1 :: int) < 0" by simp_all
  then show ?thesis
    using injection_outcomes [of None "sconst 3" "''x''" "Inr True" 0 2 0] injection_outcomes [of None "sconst 3" "''x''" "Inr True" 0 "- 1" 0]
    by auto
qed

end
