(* ===== verification/Video_Service.thy ===== *)
theory Video_Service
  imports Failure_Injection
begin

text \<open>
  The video service of lab 1 (\<open>lab1/video_service/server_lib/server_lib.go\<close>, its mock client, and the
  recommendation service's skeleton): a random database made from a seed, batched lookup with its error
  cases, and the trending videos.
\<close>

subsection \<open>Data\<close>

record VideoServiceOptions =
  vo_Seed :: int
  vo_TtlSeconds :: int
  vo_SleepNs :: int
  vo_FailureRate :: int
  vo_ResponseOmissionRate :: int
  vo_MaxBatchSize :: int

definition DefaultVideoServiceOptions :: VideoServiceOptions where
  "DefaultVideoServiceOptions =
     \<lparr>vo_Seed = 42, vo_TtlSeconds = 60, vo_SleepNs = 0, vo_FailureRate = 0, vo_ResponseOmissionRate = 0, vo_MaxBatchSize = 250\<rparr>"

definition VIDEO_ID_OFFSET :: nat where "VIDEO_ID_OFFSET = 1000"

record VideoInfo =
  vi_VideoId :: u64
  vi_Title :: string
  vi_Url :: string
  vi_Author :: string
  vi_Coeffs :: coeffs

text \<open>The four forms of a title.\<close>

definition make_title :: "'g faker \<Rightarrow> nat \<Rightarrow> 'g \<Rightarrow> string \<times> 'g" where
  "make_title fk titleCase g =
     (if titleCase = 0 then
        (let (a, g1) = fk ''AdjectiveDescriptive'' g; (v, g2) = fk ''Vegetable'' g1 in (a @ '' '' @ v, g2))
      else if titleCase = 1 then
        (let (a, g1) = fk ''AdjectiveDescriptive'' g; (m, g2) = fk ''Animal'' g1; (n, g3) = fk ''NounUncountable'' g2
         in (''The '' @ a @ '' '' @ m @ [CHR 0x27] @ ''s '' @ n, g3))
      else if titleCase = 2 then
        (let (a, g1) = fk ''AppName'' g; (h, g2) = fk ''HackerVerb'' g1 in (a @ '': '' @ h, g2))
      else
        (let (a, g1) = fk ''AdjectiveDescriptive'' g; (p, g2) = fk ''AdverbPlace'' g1 in (a @ '' '' @ p, g2)))"

definition makeRandomVideo :: "'g faker \<Rightarrow> u64 \<Rightarrow> rng \<times> 'g \<Rightarrow> VideoInfo \<times> rng \<times> 'g" where
  "makeRandomVideo fk videoId rg =
     (let (titleCase, r1) = draw 4 (fst rg);
          (title, g1) = make_title fk titleCase (snd rg);
          url = ''https://video-data.localhost/blob/'' @ decimal (unat videoId);
          (author, g2) = fk ''Name'' g1;
          (c, r2) = draw 10 r1;
          (coeffs, r3) = coeff_loop (c + 10) [] r2
      in (\<lparr>vi_VideoId = videoId, vi_Title = title, vi_Url = url, vi_Author = author, vi_Coeffs = coeffs\<rparr>, r3, g2))"

text \<open>The set of ids seen so far is a map to \<open>struct{}\<close>.\<close>

fun dedup_loop :: "u64 list \<Rightarrow> (u64, unit) gomap \<Rightarrow> u64 list \<Rightarrow> u64 list" where
  "dedup_loop [] seen deduped = deduped"
| "dedup_loop (i # ids) seen deduped =
     (if gm_get seen i = None then dedup_loop ids (gm_put i () seen) (deduped @ [i]) else dedup_loop ids seen deduped)"

definition deduplicateIds :: "u64 list \<Rightarrow> u64 list" where
  "deduplicateIds ids = dedup_loop ids [] []"

fun video_loop :: "'g faker \<Rightarrow> nat list \<Rightarrow> (u64, VideoInfo) gomap \<Rightarrow> rng \<times> 'g \<Rightarrow> (u64, VideoInfo) gomap \<times> rng \<times> 'g" where
  "video_loop fk [] videos rg = (videos, rg)"
| "video_loop fk (i # ids) videos rg =
     (let (v, rg') = makeRandomVideo fk (of_nat i) rg in video_loop fk ids (gm_put (of_nat i) v videos) rg')"

definition makeRandomVideos :: "'g faker \<Rightarrow> rng \<times> 'g \<Rightarrow> (u64, VideoInfo) gomap \<times> u64 list" where
  "makeRandomVideos fk rg =
     (let (vc, r1) = draw 500 (fst rg);
          videoCount = vc + 100;
          (videos, r2, g2) = video_loop fk [VIDEO_ID_OFFSET..<VIDEO_ID_OFFSET + videoCount] [] (r1, snd rg);
          (tc, r3) = draw 10 r2;
          (topVideos, _) = draw_ids (tc + 10) videoCount VIDEO_ID_OFFSET r3
      in (videos, deduplicateIds topVideos))"

record VideoServiceServer =
  vs_options :: VideoServiceOptions
  vs_videos :: "(u64, VideoInfo) gomap"
  vs_topVideos :: "u64 list"

text \<open>\<open>seed\<close> gives the random source and the generator's state for a seed. The result contains the new injection
  configuration.\<close>

definition MakeVideoServiceServer :: "'g faker \<Rightarrow> (int \<Rightarrow> rng \<times> 'g) \<Rightarrow> VideoServiceOptions \<Rightarrow> injection \<Rightarrow> VideoServiceServer \<times> injection" where
  "MakeVideoServiceServer fk seed options g =
     (let g' = SetInjectionConfig (vo_SleepNs options) (vo_FailureRate options) (vo_ResponseOmissionRate options) g;
          (videos, topVideos) = makeRandomVideos fk (seed (vo_Seed options))
      in (\<lparr>vs_options = options, vs_videos = videos, vs_topVideos = topVideos\<rparr>, g'))"

subsection \<open>Handlers\<close>

text \<open>Both services look up the ids in order and stop at the first that is unknown.\<close>

fun find_all :: "(u64 \<Rightarrow> string) \<Rightarrow> (u64, 'i) gomap \<Rightarrow> u64 list \<Rightarrow> status + 'i list" where
  "find_all missing db [] = Inr []"
| "find_all missing db (i # ids) =
     (case gm_get db i of
        Some info \<Rightarrow> (case find_all missing db ids of Inl e \<Rightarrow> Inl e | Inr infos \<Rightarrow> Inr (info # infos))
      | None \<Rightarrow> error NotFound (missing i))"

definition missing_video :: "u64 \<Rightarrow> string" where
  "missing_video i = ''VideoService: video '' @ decimal (unat i) @
     '' cannot be found, it may have been deleted or never existed in the first place.''"

definition GetVideo :: "injection \<Rightarrow> rng \<Rightarrow> VideoServiceServer \<Rightarrow> u64 list \<Rightarrow> VideoInfo list rpc" where
  "GetVideo g r db videoIds =
     injected g r ''VideoService: (injected) internal error!''
       (if videoIds = [] then error InvalidArgument ''VideoService: video_ids in GetVideoRequest should not be empty''
        else if int (length videoIds) > vo_MaxBatchSize (vs_options db)
        then error InvalidArgument (''VideoService: video_ids exceeded the max batch size '' @ show_int (vo_MaxBatchSize (vs_options db)))
        else if length (deduplicateIds videoIds) \<noteq> length videoIds
        then error InvalidArgument ''VideoService: duplicate IDs found in video_ids''
        else find_all missing_video (vs_videos db) videoIds)"

text \<open>\<open>now\<close> is \<open>time.Now().Unix()\<close>.\<close>

definition GetTrendingVideos :: "injection \<Rightarrow> rng \<Rightarrow> int \<Rightarrow> VideoServiceServer \<Rightarrow> (u64 list \<times> u64) rpc" where
  "GetTrendingVideos g r now db =
     injected g r ''VideoService: (injected) internal error!''
       (Inr (vs_topVideos db, of_int (now + vo_TtlSeconds (vs_options db))))"

definition vs_SetInjectionConfig :: "injection \<Rightarrow> injection \<Rightarrow> injection" where
  "vs_SetInjectionConfig config g = SetInjectionConfigPb config g"

text \<open>The mock client calls an in-memory server directly.\<close>

record MockVideoServiceClient =
  mv_inMemServer :: VideoServiceServer

definition MakeMockVideoServiceClient :: "'g faker \<Rightarrow> (int \<Rightarrow> rng \<times> 'g) \<Rightarrow> VideoServiceOptions \<Rightarrow> injection \<Rightarrow> MockVideoServiceClient \<times> injection" where
  "MakeMockVideoServiceClient fk seed options g =
     (let (srv, g') = MakeVideoServiceServer fk seed options g in (\<lparr>mv_inMemServer = srv\<rparr>, g'))"

definition mock_GetVideo :: "injection \<Rightarrow> rng \<Rightarrow> MockVideoServiceClient \<Rightarrow> u64 list \<Rightarrow> VideoInfo list rpc" where
  "mock_GetVideo g r client = GetVideo g r (mv_inMemServer client)"

definition mock_GetTrendingVideos :: "injection \<Rightarrow> rng \<Rightarrow> int \<Rightarrow> MockVideoServiceClient \<Rightarrow> (u64 list \<times> u64) rpc" where
  "mock_GetTrendingVideos g r now client = GetTrendingVideos g r now (mv_inMemServer client)"

definition mock_video_SetInjectionConfig :: "injection \<Rightarrow> injection \<Rightarrow> injection" where
  "mock_video_SetInjectionConfig config g = vs_SetInjectionConfig config g"

subsection \<open>Removing duplicates\<close>

lemma dedup_loop_spec:
  assumes "distinct deduped" "\<forall>i. gm_get seen i \<noteq> None \<longleftrightarrow> i \<in> set deduped"
  shows "distinct (dedup_loop ids seen deduped) \<and> set (dedup_loop ids seen deduped) = set deduped \<union> set ids \<and>
    length (dedup_loop ids seen deduped) \<le> length deduped + length ids \<and>
    (distinct (deduped @ ids) \<longrightarrow> dedup_loop ids seen deduped = deduped @ ids)"
  using assms
proof (induction ids arbitrary: seen deduped)
  case (Cons i ids)
  show ?case
  proof (cases "gm_get seen i = None")
    case True
    then have i: "i \<notin> set deduped" using Cons.prems(2) by blast
    then have "distinct (deduped @ [i])" "\<forall>j. gm_get (gm_put i () seen) j \<noteq> None \<longleftrightarrow> j \<in> set (deduped @ [i])"
      using Cons.prems by auto
    from Cons.IH [OF this] show ?thesis using True i by auto
  next
    case False
    then have "i \<in> set deduped" using Cons.prems(2) by blast
    then show ?thesis using False Cons.IH [OF Cons.prems] by auto
  qed
qed simp

lemma deduplicateIds_spec:
  "distinct (deduplicateIds ids)" "set (deduplicateIds ids) = set ids" "length (deduplicateIds ids) \<le> length ids"
  "distinct ids \<Longrightarrow> deduplicateIds ids = ids"
  using dedup_loop_spec [of "[]" "[]" ids] by (simp_all add: deduplicateIds_def)

lemma length_deduplicateIds: "length (deduplicateIds ids) = length ids \<longleftrightarrow> distinct ids"
  using deduplicateIds_spec [of ids] by (metis card_distinct distinct_card)

subsection \<open>Lookup\<close>

lemma find_all_spec:
  "find_all missing db ids =
     (case find (\<lambda>i. gm_get db i = None) ids of
        Some i \<Rightarrow> error NotFound (missing i)
      | None \<Rightarrow> Inr (map (\<lambda>i. the (gm_get db i)) ids))"
  by (induction ids) (auto split: option.splits sum.splits simp: error_def)

lemma find_known: "\<forall>i \<in> set ids. gm_get db i \<noteq> None \<Longrightarrow> find (\<lambda>i. gm_get db i = None) ids = None"
  by (auto simp: find_None_iff)

subsection \<open>The database\<close>

lemma makeRandomVideo_id: "vi_VideoId (fst (makeRandomVideo fk i rg)) = i"
  by (simp add: makeRandomVideo_def Let_def case_prod_beta)

lemma video_loop_keys:
  "gm_get (fst (video_loop fk ids m rg)) k \<noteq> None \<longleftrightarrow> gm_get m k \<noteq> None \<or> k \<in> of_nat ` set ids"
  by (induction ids arbitrary: m rg) (auto simp: Let_def case_prod_beta)

lemma video_loop_ids:
  "\<forall>k v. gm_get m k = Some v \<longrightarrow> vi_VideoId v = k \<Longrightarrow>
   \<forall>k v. gm_get (fst (video_loop fk ids m rg)) k = Some v \<longrightarrow> vi_VideoId v = k"
proof (induction ids arbitrary: m rg)
  case (Cons i ids)
  let ?m = "gm_put (of_nat i) (fst (makeRandomVideo fk (of_nat i) rg)) m"
  have "\<forall>k v. gm_get ?m k = Some v \<longrightarrow> vi_VideoId v = k" using Cons.prems by (auto simp: makeRandomVideo_id)
  from Cons.IH [OF this] show ?case by (simp only: video_loop.simps Let_def case_prod_beta) blast
qed simp

definition video_count :: "rng \<Rightarrow> nat" where
  "video_count r = fst (draw 500 r) + 100"

lemma video_count_bounds: "100 \<le> video_count r" "video_count r < 600"
  using draw_less [of 500 r] by (simp_all add: video_count_def)

lemma id_in_image: "offset + bound \<le> 2 ^ 64 \<Longrightarrow> (k :: u64) \<in> of_nat ` {offset..<offset + bound} \<longleftrightarrow> id_in offset bound k"
proof
  assume "offset + bound \<le> 2 ^ 64" "k \<in> of_nat ` {offset..<offset + bound}"
  then show "id_in offset bound k" by (auto simp: id_in_def unat_id)
next
  assume "id_in offset bound k"
  then show "k \<in> of_nat ` {offset..<offset + bound}" by (intro image_eqI [of _ _ "unat k"]) (auto simp: id_in_def)
qed

lemma makeRandomVideos_known:
  "gm_get (fst (makeRandomVideos fk rg)) k \<noteq> None \<longleftrightarrow> id_in VIDEO_ID_OFFSET (video_count (fst rg)) k"
proof -
  have "VIDEO_ID_OFFSET + video_count (fst rg) \<le> 2 ^ 64" using video_count_bounds(2) [of "fst rg"] by (simp add: VIDEO_ID_OFFSET_def)
  then show ?thesis
    using video_loop_keys [of fk "[VIDEO_ID_OFFSET..<VIDEO_ID_OFFSET + video_count (fst rg)]" "[]"] id_in_image [of VIDEO_ID_OFFSET]
    by (simp add: makeRandomVideos_def Let_def case_prod_beta video_count_def del: not_None_eq)
qed

lemma makeRandomVideos_ids:
  "gm_get (fst (makeRandomVideos fk rg)) k = Some v \<Longrightarrow> vi_VideoId v = k"
  unfolding makeRandomVideos_def Let_def case_prod_beta fst_conv using video_loop_ids [of "[]" fk] by auto

lemma makeRandomVideos_top:
  "distinct (snd (makeRandomVideos fk rg))" "0 < length (snd (makeRandomVideos fk rg))" "length (snd (makeRandomVideos fk rg)) < 20"
  "\<forall>i \<in> set (snd (makeRandomVideos fk rg)). gm_get (fst (makeRandomVideos fk rg)) i \<noteq> None"
proof -
  let ?n = "video_count (fst rg)"
  obtain tc r where top: "snd (makeRandomVideos fk rg) = deduplicateIds (fst (draw_ids (fst (draw 10 tc) + 10) ?n VIDEO_ID_OFFSET r))"
    by (simp add: makeRandomVideos_def Let_def case_prod_beta video_count_def)
  let ?k = "fst (draw 10 tc) + 10"
  have n: "0 < ?n" "VIDEO_ID_OFFSET + ?n \<le> 2 ^ 64" using video_count_bounds [of "fst rg"] by (simp_all add: VIDEO_ID_OFFSET_def)
  note ids = draw_ids_facts [OF n, of ?k r]
  show "distinct (snd (makeRandomVideos fk rg))" by (simp add: top deduplicateIds_spec)
  show "\<forall>i \<in> set (snd (makeRandomVideos fk rg)). gm_get (fst (makeRandomVideos fk rg)) i \<noteq> None"
    unfolding makeRandomVideos_known using ids(2) by (simp add: top deduplicateIds_spec)
  have "fst (draw_ids ?k ?n VIDEO_ID_OFFSET r) \<noteq> []" using ids(1) by fastforce
  then show "0 < length (snd (makeRandomVideos fk rg))"
    using deduplicateIds_spec(2) by (metis length_greater_0_conv set_empty top)
  show "length (snd (makeRandomVideos fk rg)) < 20"
    using deduplicateIds_spec(3) [of "fst (draw_ids ?k ?n VIDEO_ID_OFFSET r)"] ids(1) draw_less [of 10 tc] by (simp add: top)
qed

lemma MakeVideoServiceServer_simps:
  "vs_videos (fst (MakeVideoServiceServer fk seed opts g)) = fst (makeRandomVideos fk (seed (vo_Seed opts)))"
  "vs_topVideos (fst (MakeVideoServiceServer fk seed opts g)) = snd (makeRandomVideos fk (seed (vo_Seed opts)))"
  "vs_options (fst (MakeVideoServiceServer fk seed opts g)) = opts"
  by (simp_all add: MakeVideoServiceServer_def Let_def case_prod_beta)

subsection \<open>Properties\<close>

text \<open>\<open>GetVideo\<close>, when no failure is injected: exactly the batches that are not empty, not above the maximum, without
  duplicates and with known ids only are answered, with the videos in the order of the request. Each
  other batch gets the error of the first check that it fails, and an unknown id is reported as the first
  one in the request.\<close>

theorem GetVideo_correct:
  "GetVideo (ClearInjectionConfig g) r db ids = Ret
     (if ids = [] then error InvalidArgument ''VideoService: video_ids in GetVideoRequest should not be empty''
      else if int (length ids) > vo_MaxBatchSize (vs_options db)
      then error InvalidArgument (''VideoService: video_ids exceeded the max batch size '' @ show_int (vo_MaxBatchSize (vs_options db)))
      else if \<not> distinct ids then error InvalidArgument ''VideoService: duplicate IDs found in video_ids''
      else case find (\<lambda>i. gm_get (vs_videos db) i = None) ids of
             Some i \<Rightarrow> error NotFound (missing_video i)
           | None \<Rightarrow> Inr (map (\<lambda>i. the (gm_get (vs_videos db) i)) ids))"
  unfolding GetVideo_def length_deduplicateIds injected_clear find_all_spec by simp

text \<open>The trending videos of a server made from any seed are between 1 and 19 different ids, and, when the batch size allows
  19, \<open>GetVideo\<close> answers the whole list at once, each id with the video of that id.\<close>

theorem trending_videos_known:
  assumes "db = fst (MakeVideoServiceServer fk seed opts g)" "19 \<le> vo_MaxBatchSize opts"
  shows "\<exists>ids until infos. GetTrendingVideos (ClearInjectionConfig g) r now db = Ret (Inr (ids, until)) \<and>
    distinct ids \<and> 0 < length ids \<and> length ids < 20 \<and>
    GetVideo (ClearInjectionConfig g) r' db ids = Ret (Inr infos) \<and> map vi_VideoId infos = ids"
proof -
  let ?m = "makeRandomVideos fk (seed (vo_Seed opts))"
  note top = makeRandomVideos_top [of fk "seed (vo_Seed opts)"]
  have id: "vi_VideoId (the (gm_get (fst ?m) i)) = i" if "i \<in> set (snd ?m)" for i
    using top(4) that makeRandomVideos_ids [of fk "seed (vo_Seed opts)" i] by fastforce
  have "GetVideo (ClearInjectionConfig g) r' db (snd ?m) = Ret (Inr (map (\<lambda>i. the (gm_get (fst ?m) i)) (snd ?m)))"
    unfolding GetVideo_def length_deduplicateIds injected_clear find_all_spec
    using top assms(2) find_known [OF top(4)] by (simp add: assms(1) MakeVideoServiceServer_simps)
  moreover have "map vi_VideoId (map (\<lambda>i. the (gm_get (fst ?m) i)) (snd ?m)) = snd ?m" using id by (simp add: map_idI)
  ultimately show ?thesis
    using top by (auto simp: GetTrendingVideos_def injected_clear assms(1) MakeVideoServiceServer_simps)
qed

theorem trending_videos_known_witness:
  "\<exists>ids until. GetTrendingVideos (ClearInjectionConfig None) (sconst 0) 7
     (fst (MakeVideoServiceServer (\<lambda>n g. (n, g)) (\<lambda>s. (sconst (nat s), ())) DefaultVideoServiceOptions None)) = Ret (Inr (ids, until)) \<and> ids \<noteq> []"
  using trending_videos_known [OF refl, where opts = DefaultVideoServiceOptions and g = None and r = "sconst 0" and now = 7
    and fk = "\<lambda>n g. (n, g)" and seed = "\<lambda>s. (sconst (nat s), ())"]
  by (fastforce simp: DefaultVideoServiceOptions_def)

end
