(* ===== verification/User_Service.thy ===== *)
theory User_Service
  imports Video_Service
begin

text \<open>
  The user service of lab 1 (\<open>lab1/user_service/server_lib/server_lib.go\<close> and its mock client): random users made
  from a seed and batched lookup. A user likes videos of the video service, which makes its own database
  from its own seed; the last property relates the two.
\<close>

subsection \<open>Data\<close>

record UserServiceOptions =
  uo_Seed :: int
  uo_SleepNs :: int
  uo_FailureRate :: int
  uo_ResponseOmissionRate :: int
  uo_MaxBatchSize :: int

definition DefaultUserServiceOptions :: UserServiceOptions where
  "DefaultUserServiceOptions =
     \<lparr>uo_Seed = 42, uo_SleepNs = 0, uo_FailureRate = 0, uo_ResponseOmissionRate = 0, uo_MaxBatchSize = 250\<rparr>"

definition USER_ID_OFFSET :: nat where "USER_ID_OFFSET = 200000"

record UserInfo =
  ui_UserId :: u64
  ui_Email :: string
  ui_ProfileUrl :: string
  ui_Username :: string
  ui_Coeffs :: coeffs
  ui_SubscribedTo :: "u64 list"
  ui_LikedVideos :: "u64 list"

text \<open>The drawn users except the user itself.\<close>

definition subscriptions :: "u64 \<Rightarrow> u64 list \<Rightarrow> u64 list" where
  "subscriptions userId drawn = filter (\<lambda>s. s \<noteq> userId) drawn"

definition makeRandomUser :: "'g faker \<Rightarrow> u64 \<Rightarrow> nat \<Rightarrow> nat \<Rightarrow> rng \<times> 'g \<Rightarrow> UserInfo \<times> rng \<times> 'g" where
  "makeRandomUser fk userId maxUsers maxVideos rg =
     (let (email, g1) = fk ''Email'' (snd rg);
          profileUrl = ''https://user-service.localhost/profile/'' @ decimal (unat userId);
          (username, g2) = fk ''Username'' g1;
          (c, r1) = draw 10 (fst rg);
          (coeffs, r2) = coeff_loop (c + 10) [] r1;
          (s, r3) = draw 50 r2;
          (subscribed, r4) = draw_ids (s + 10) maxUsers USER_ID_OFFSET r3;
          (l, r5) = draw 20 r4;
          (liked, r6) = draw_ids (l + 5) maxVideos VIDEO_ID_OFFSET r5
      in (\<lparr>ui_UserId = userId, ui_Email = email, ui_ProfileUrl = profileUrl, ui_Username = username, ui_Coeffs = coeffs,
           ui_SubscribedTo = subscriptions userId subscribed, ui_LikedVideos = liked\<rparr>, r6, g2))"

fun user_loop :: "'g faker \<Rightarrow> nat \<Rightarrow> nat \<Rightarrow> nat list \<Rightarrow> (u64, UserInfo) gomap \<Rightarrow> rng \<times> 'g \<Rightarrow> (u64, UserInfo) gomap" where
  "user_loop fk userCount videoCount [] users rg = users"
| "user_loop fk userCount videoCount (i # ids) users rg =
     (let (u, rg') = makeRandomUser fk (of_nat i) userCount videoCount rg
      in user_loop fk userCount videoCount ids (gm_put (of_nat i) u users) rg')"

definition makeRandomUsers :: "'g faker \<Rightarrow> rng \<times> 'g \<Rightarrow> (u64, UserInfo) gomap" where
  "makeRandomUsers fk rg =
     (let (vc, r1) = draw 500 (fst rg); videoCount = vc + 100;
          (uc, r2) = draw 5000 r1; userCount = uc + 5000
      in user_loop fk userCount videoCount [USER_ID_OFFSET..<USER_ID_OFFSET + userCount] [] (r2, snd rg))"

record UserServiceServer =
  us_options :: UserServiceOptions
  us_users :: "(u64, UserInfo) gomap"

definition MakeUserServiceServer :: "'g faker \<Rightarrow> (int \<Rightarrow> rng \<times> 'g) \<Rightarrow> UserServiceOptions \<Rightarrow> injection \<Rightarrow> UserServiceServer \<times> injection" where
  "MakeUserServiceServer fk seed options g =
     (\<lparr>us_options = options, us_users = makeRandomUsers fk (seed (uo_Seed options))\<rparr>,
      SetInjectionConfig (uo_SleepNs options) (uo_FailureRate options) (uo_ResponseOmissionRate options) g)"

subsection \<open>Handlers\<close>

definition missing_user :: "u64 \<Rightarrow> string" where
  "missing_user i = ''UserService: user '' @ decimal (unat i) @
     '' cannot be found, it may have been deleted or never existed in the first place.''"

text \<open>Unlike \<open>GetVideo\<close>, duplicates are answered.\<close>

definition GetUser :: "injection \<Rightarrow> rng \<Rightarrow> UserServiceServer \<Rightarrow> u64 list \<Rightarrow> UserInfo list rpc" where
  "GetUser g r db userIds =
     injected g r ''UserService: (injected) internal error!''
       (if userIds = [] then error InvalidArgument ''UserService: user_ids in GetUserRequest should not be empty''
        else if int (length userIds) > uo_MaxBatchSize (us_options db)
        then error InvalidArgument (''UserService: user_ids exceeded the max batch size '' @ show_int (uo_MaxBatchSize (us_options db)))
        else find_all missing_user (us_users db) userIds)"

definition us_SetInjectionConfig :: "injection \<Rightarrow> injection \<Rightarrow> injection" where
  "us_SetInjectionConfig config g = SetInjectionConfigPb config g"

record MockUserServiceClient =
  mu_inMemServer :: UserServiceServer

definition MakeMockUserServiceClient :: "'g faker \<Rightarrow> (int \<Rightarrow> rng \<times> 'g) \<Rightarrow> UserServiceOptions \<Rightarrow> injection \<Rightarrow> MockUserServiceClient \<times> injection" where
  "MakeMockUserServiceClient fk seed options g =
     (let (srv, g') = MakeUserServiceServer fk seed options g in (\<lparr>mu_inMemServer = srv\<rparr>, g'))"

definition mock_GetUser :: "injection \<Rightarrow> rng \<Rightarrow> MockUserServiceClient \<Rightarrow> u64 list \<Rightarrow> UserInfo list rpc" where
  "mock_GetUser g r client = GetUser g r (mu_inMemServer client)"

definition mock_user_SetInjectionConfig :: "injection \<Rightarrow> injection \<Rightarrow> injection" where
  "mock_user_SetInjectionConfig config g = us_SetInjectionConfig config g"

subsection \<open>The database\<close>

definition user_ok :: "nat \<Rightarrow> nat \<Rightarrow> u64 \<Rightarrow> UserInfo \<Rightarrow> bool" where
  "user_ok userCount videoCount i u \<longleftrightarrow> ui_UserId u = i \<and>
     (\<forall>s \<in> set (ui_SubscribedTo u). id_in USER_ID_OFFSET userCount s \<and> s \<noteq> i) \<and>
     (\<forall>v \<in> set (ui_LikedVideos u). id_in VIDEO_ID_OFFSET videoCount v) \<and>
     5 \<le> length (ui_LikedVideos u) \<and> length (ui_LikedVideos u) < 25"

lemma makeRandomUser_ok:
  assumes "0 < userCount" "USER_ID_OFFSET + userCount \<le> 2 ^ 64" "0 < videoCount" "VIDEO_ID_OFFSET + videoCount \<le> 2 ^ 64"
  shows "user_ok userCount videoCount i (fst (makeRandomUser fk i userCount videoCount rg))"
proof -
  let ?u = "fst (makeRandomUser fk i userCount videoCount rg)"
  obtain k r where s: "ui_SubscribedTo ?u = subscriptions i (fst (draw_ids k userCount USER_ID_OFFSET r))"
    by (simp add: makeRandomUser_def Let_def case_prod_beta)
  obtain r1 r2 where l: "ui_LikedVideos ?u = fst (draw_ids (fst (draw 20 r1) + 5) videoCount VIDEO_ID_OFFSET r2)"
    by (simp add: makeRandomUser_def Let_def case_prod_beta)
  have "ui_UserId ?u = i" by (simp add: makeRandomUser_def Let_def case_prod_beta)
  moreover have "\<forall>s \<in> set (ui_SubscribedTo ?u). id_in USER_ID_OFFSET userCount s \<and> s \<noteq> i"
    using draw_ids_facts(2) [OF assms(1,2), of k r] unfolding s subscriptions_def by simp
  moreover have "\<forall>v \<in> set (ui_LikedVideos ?u). id_in VIDEO_ID_OFFSET videoCount v"
    unfolding l by (rule draw_ids_facts(2) [OF assms(3,4)])
  moreover have "length (ui_LikedVideos ?u) = fst (draw 20 r1) + 5"
    unfolding l by (rule draw_ids_facts(1) [OF assms(3,4)])
  ultimately show ?thesis using draw_less [of 20 r1] by (simp add: user_ok_def)
qed

lemma user_loop_keys:
  "gm_get (user_loop fk uc vc ids m rg) k \<noteq> None \<longleftrightarrow> gm_get m k \<noteq> None \<or> k \<in> of_nat ` set ids"
  by (induction ids arbitrary: m rg) (auto simp: Let_def case_prod_beta)

lemma user_loop_ok:
  assumes "0 < uc" "USER_ID_OFFSET + uc \<le> 2 ^ 64" "0 < vc" "VIDEO_ID_OFFSET + vc \<le> 2 ^ 64"
  shows "\<forall>k u. gm_get m k = Some u \<longrightarrow> user_ok uc vc k u \<Longrightarrow>
    \<forall>k u. gm_get (user_loop fk uc vc ids m rg) k = Some u \<longrightarrow> user_ok uc vc k u"
proof (induction ids arbitrary: m rg)
  case (Cons i ids)
  let ?m = "gm_put (of_nat i) (fst (makeRandomUser fk (of_nat i) uc vc rg)) m"
  have "\<forall>k u. gm_get ?m k = Some u \<longrightarrow> user_ok uc vc k u" using Cons.prems makeRandomUser_ok [OF assms, of "of_nat i" fk rg] by auto
  from Cons.IH [OF this] show ?case by (simp only: user_loop.simps Let_def case_prod_beta) blast
qed simp

definition user_count :: "rng \<Rightarrow> nat" where
  "user_count r = fst (draw 5000 (stl r)) + 5000"

lemma user_count_bounds: "5000 \<le> user_count r" "user_count r < 10000"
  using draw_less [of 5000 "stl r"] by (simp_all add: user_count_def)

lemma makeRandomUsers_eq:
  "makeRandomUsers fk rg = user_loop fk (user_count (fst rg)) (video_count (fst rg))
     [USER_ID_OFFSET..<USER_ID_OFFSET + user_count (fst rg)] [] (stl (stl (fst rg)), snd rg)"
  by (simp add: makeRandomUsers_def user_count_def video_count_def draw_def Let_def)

lemma makeRandomUsers_known:
  "gm_get (makeRandomUsers fk rg) k \<noteq> None \<longleftrightarrow> id_in USER_ID_OFFSET (user_count (fst rg)) k"
proof -
  have "USER_ID_OFFSET + user_count (fst rg) \<le> 2 ^ 64" using user_count_bounds(2) [of "fst rg"] by (simp add: USER_ID_OFFSET_def)
  then show ?thesis using id_in_image [of USER_ID_OFFSET] by (simp add: makeRandomUsers_eq user_loop_keys del: not_None_eq)
qed

lemma makeRandomUsers_ok:
  assumes "gm_get (makeRandomUsers fk rg) k = Some u"
  shows "user_ok (user_count (fst rg)) (video_count (fst rg)) k u"
proof -
  have "0 < user_count (fst rg)" "USER_ID_OFFSET + user_count (fst rg) \<le> 2 ^ 64"
    "0 < video_count (fst rg)" "VIDEO_ID_OFFSET + video_count (fst rg) \<le> 2 ^ 64"
    using user_count_bounds [of "fst rg"] video_count_bounds [of "fst rg"] by (simp_all add: USER_ID_OFFSET_def VIDEO_ID_OFFSET_def)
  from user_loop_ok [OF this, of "[]" fk] show ?thesis using assms by (simp add: makeRandomUsers_eq)
qed

subsection \<open>Properties\<close>

text \<open>\<open>GetUser\<close>, when no failure is injected: exactly the batches that are not empty, not above the maximum and with known
  ids only are answered, with the users in the order of the request; the errors of the others.\<close>

theorem GetUser_correct:
  "GetUser (ClearInjectionConfig g) r db ids = Ret
     (if ids = [] then error InvalidArgument ''UserService: user_ids in GetUserRequest should not be empty''
      else if int (length ids) > uo_MaxBatchSize (us_options db)
      then error InvalidArgument (''UserService: user_ids exceeded the max batch size '' @ show_int (uo_MaxBatchSize (us_options db)))
      else case find (\<lambda>i. gm_get (us_users db) i = None) ids of
             Some i \<Rightarrow> error NotFound (missing_user i)
           | None \<Rightarrow> Inr (map (\<lambda>i. the (gm_get (us_users db) i)) ids))"
  unfolding GetUser_def injected_clear find_all_spec by simp

text \<open>The two databases fit together. When the user and the video service are started with the same seed, every video that a
  user likes exists in the video service, and every user that a user subscribes to exists in the user
  service and is somebody else.\<close>

theorem liked_videos_exist:
  assumes "users = us_users (fst (MakeUserServiceServer fk seed uopts g))"
    and "videos = vs_videos (fst (MakeVideoServiceServer fk' seed vopts g'))"
    and "uo_Seed uopts = vo_Seed vopts" and "gm_get users k = Some u"
  shows "(\<forall>v \<in> set (ui_LikedVideos u). gm_get videos v \<noteq> None) \<and> 5 \<le> length (ui_LikedVideos u) \<and>
    (\<forall>s \<in> set (ui_SubscribedTo u). gm_get users s \<noteq> None \<and> s \<noteq> ui_UserId u) \<and> ui_UserId u = k"
proof -
  let ?rg = "seed (uo_Seed uopts)"
  have users: "users = makeRandomUsers fk ?rg" by (simp add: assms(1) MakeUserServiceServer_def)
  have videos: "videos = fst (makeRandomVideos fk' ?rg)" by (simp add: assms(2,3) MakeVideoServiceServer_simps)
  have "user_ok (user_count (fst ?rg)) (video_count (fst ?rg)) k u"
    using makeRandomUsers_ok assms(4) users by blast
  then show ?thesis unfolding users videos makeRandomUsers_known makeRandomVideos_known by (auto simp: user_ok_def)
qed

lemma user_exists:
  assumes "200000 \<le> unat i" "unat i < 205000"
  shows "gm_get (us_users (fst (MakeUserServiceServer fk seed opts g))) i \<noteq> None"
  unfolding MakeUserServiceServer_def
  using assms makeRandomUsers_known [of fk "seed (uo_Seed opts)" i] user_count_bounds(1) [of "fst (seed (uo_Seed opts))"]
  by (simp add: id_in_def USER_ID_OFFSET_def)

theorem liked_videos_exist_witness:
  "\<exists>u. gm_get (us_users (fst (MakeUserServiceServer (\<lambda>n g. (n, g)) (\<lambda>s. (sconst (nat s), ())) DefaultUserServiceOptions None))) 200001 = Some u \<and>
     (\<forall>v \<in> set (ui_LikedVideos u).
        gm_get (vs_videos (fst (MakeVideoServiceServer (\<lambda>n g. (n, g)) (\<lambda>s. (sconst (nat s), ())) DefaultVideoServiceOptions None))) v \<noteq> None)"
proof -
  let ?seed = "\<lambda>s. (sconst (nat s), ())" and ?fk = "\<lambda>n (g :: unit). (n :: string, g)"
  obtain u where u: "gm_get (us_users (fst (MakeUserServiceServer ?fk ?seed DefaultUserServiceOptions None))) 200001 = Some u"
    using user_exists [of 200001 ?fk ?seed DefaultUserServiceOptions None] by auto
  have "uo_Seed DefaultUserServiceOptions = vo_Seed DefaultVideoServiceOptions"
    by (simp add: DefaultUserServiceOptions_def DefaultVideoServiceOptions_def)
  from liked_videos_exist [OF refl refl this u] u show ?thesis by auto
qed

end
