(* ===== verification/Lab1_Clients.thy ===== *)
theory Lab1_Clients
  imports User_Service
begin

text \<open>
  The recommendation service's skeleton (\<open>lab1/video_rec_service/server_lib/server_lib.go\<close>) and the programs that
  call it: the front end (\<open>lab1/cmd/frontend/frontend.go\<close>) and the load generator
  (\<open>lab1/cmd/loadgen/loadgen.go\<close>). A remote call is a function that gives the answer, or \<open>None\<close> for an
  error: that is also what a client sees of a server that does not answer before the deadline.
\<close>

subsection \<open>The recommendation service\<close>

record VideoRecServiceOptions =
  ro_UserServiceAddr :: string
  ro_VideoServiceAddr :: string
  ro_MaxBatchSize :: int
  ro_DisableFallback :: bool
  ro_DisableRetry :: bool

definition DefaultVideoRecServiceOptions :: VideoRecServiceOptions where
  "DefaultVideoRecServiceOptions =
     \<lparr>ro_UserServiceAddr = ''[::1]:8081'', ro_VideoServiceAddr = ''[::1]:8082'', ro_MaxBatchSize = 250,
      ro_DisableFallback = False, ro_DisableRetry = False\<rparr>"

record VideoRecServiceServer =
  rs_options :: VideoRecServiceOptions

definition MakeVideoRecServiceServer :: "VideoRecServiceOptions \<Rightarrow> VideoRecServiceServer" where
  "MakeVideoRecServiceServer options = \<lparr>rs_options = options\<rparr>"

definition MakeVideoRecServiceServerWithMocks ::
    "VideoRecServiceOptions \<Rightarrow> MockUserServiceClient \<Rightarrow> MockVideoServiceClient \<Rightarrow> VideoRecServiceServer" where
  "MakeVideoRecServiceServerWithMocks options mockUser mockVideo = \<lparr>rs_options = options\<rparr>"

definition GetTopVideos :: "VideoRecServiceServer \<Rightarrow> u64 \<Rightarrow> int \<Rightarrow> VideoInfo list rpc" where
  "GetTopVideos server userId limit = Ret (error Unimplemented ''VideoRecService: unimplemented!'')"

subsection \<open>The front end\<close>

definition remote :: "'a rpc \<Rightarrow> 'a option" where
  "remote call = (case call of Ret (Inr x) \<Rightarrow> Some x | _ \<Rightarrow> None)"

definition fetchUser :: "bool \<Rightarrow> (u64 list \<Rightarrow> UserInfo list option) \<Rightarrow> u64 \<Rightarrow> UserInfo go" where
  "fetchUser dialed getUser userId =
     (if \<not> dialed then Fatal ''fail to dial''
      else case getUser [userId] of
             None \<Rightarrow> Fatal ''Error retrieving user information''
           | Some users \<Rightarrow>
               (if length users \<noteq> 1 then Fatal ''Error retrieving user information'' else Ret (users ! 0)))"

definition sendSingleTestRequest :: "(u64 \<Rightarrow> int \<Rightarrow> VideoInfo list option) \<Rightarrow> u64 \<Rightarrow> VideoInfo list go" where
  "sendSingleTestRequest getTop userId =
     (case getTop userId 5 of None \<Rightarrow> Fatal ''Error retrieving video recommendations'' | Some videos \<Rightarrow> Ret videos)"

text \<open>The expected answer of a test case: two ids, an author, a URL and a title.\<close>

definition wrong_answer :: "VideoInfo list \<Rightarrow> u64 \<Rightarrow> string \<Rightarrow> u64 \<Rightarrow> string \<Rightarrow> string \<Rightarrow> bool" where
  "wrong_answer videos id0 author1 id2 url3 title4 \<longleftrightarrow>
     length videos \<noteq> 5 \<or> vi_VideoId (videos ! 0) \<noteq> id0 \<or> vi_Author (videos ! 1) \<noteq> author1 \<or>
     vi_VideoId (videos ! 2) \<noteq> id2 \<or> vi_Url (videos ! 3) \<noteq> url3 \<or> vi_Title (videos ! 4) \<noteq> title4"

definition frontend_main :: "bool \<Rightarrow> (u64 list \<Rightarrow> UserInfo list option) \<Rightarrow> (u64 \<Rightarrow> int \<Rightarrow> VideoInfo list option) \<Rightarrow> string \<Rightarrow> unit go" where
  "frontend_main dialed getUser getTop netId =
     (if \<not> dialed then Fatal ''fail to dial''
      else
        go_bind (fetchUser dialed getUser (getUserId netId)) (\<lambda>_.
        go_bind (sendSingleTestRequest getTop (getUserId netId)) (\<lambda>_.
        go_bind (sendSingleTestRequest getTop 204054) (\<lambda>videos.
          if wrong_answer videos 1085 ''Renee Blick'' 1106 ''https://video-data.localhost/blob/1211'' ''evil elsewhere''
          then Fatal ''Test case 1 FAILED! Wrong recommendations''
          else
            go_bind (sendSingleTestRequest getTop 203584) (\<lambda>videos.
              if wrong_answer videos 1015 ''Belle Harber'' 1268 ''https://video-data.localhost/blob/1040'' ''charming towards''
              then Fatal ''Test case 2 FAILED! Wrong recommendations'' else Ret ())))))"

subsection \<open>The load generator\<close>

definition getNextUserId :: "u64 \<Rightarrow> u64" where
  "getNextUserId userId = (userId + 1) mod 5000 + 200000"

text \<open>The global counters, and for each request started so far where its goroutine is: before the first count,
  waiting for the answer, with an answer (\<open>Some stale\<close>) or an error, and within the deferred function.\<close>

datatype request =
    Started
  | Sent
  | Answered "bool option"
  | Counted "bool option"
  | Timed "bool option"
  | Finished "bool option"

record loadgen =
  totalSent :: u64
  totalResponses :: u64
  totalSuccesses :: u64
  totalLatencyMs :: u64
  totalStale :: u64
  lg_requests :: "request list"

definition lg_start :: loadgen where
  "lg_start = \<lparr>totalSent = 0, totalResponses = 0, totalSuccesses = 0, totalLatencyMs = 0, totalStale = 0, lg_requests = []\<rparr>"

text \<open>The atomic steps of \<open>sendRequest\<close>, interleaved: \<open>reply\<close> is the outcome of the call and \<open>elapsed\<close> the measured
  milliseconds.\<close>

definition advance :: "bool option \<Rightarrow> u64 \<Rightarrow> request \<Rightarrow> loadgen \<Rightarrow> request \<times> loadgen" where
  "advance reply elapsed rq lg =
     (case rq of
        Started \<Rightarrow> (Sent, lg\<lparr>totalSent := totalSent lg + 1\<rparr>)
      | Sent \<Rightarrow> (Answered reply, if reply = Some True then lg\<lparr>totalStale := totalStale lg + 1\<rparr> else lg)
      | Answered a \<Rightarrow> (Counted a, lg\<lparr>totalResponses := totalResponses lg + 1\<rparr>)
      | Counted a \<Rightarrow> (Timed a, lg\<lparr>totalLatencyMs := totalLatencyMs lg + elapsed\<rparr>)
      | Timed a \<Rightarrow> (Finished a, if a \<noteq> None then lg\<lparr>totalSuccesses := totalSuccesses lg + 1\<rparr> else lg)
      | Finished a \<Rightarrow> (Finished a, lg))"

inductive lg_step :: "loadgen \<Rightarrow> loadgen \<Rightarrow> bool" where
  lg_new: "lg_step lg (lg\<lparr>lg_requests := lg_requests lg @ [Started]\<rparr>)"
| lg_advance: "i < length (lg_requests lg) \<Longrightarrow> advance reply elapsed (lg_requests lg ! i) lg = (rq, lg') \<Longrightarrow>
    lg_step lg (lg'\<lparr>lg_requests := (lg_requests lg)[i := rq]\<rparr>)"

text \<open>\<open>reportStats\<close> reads the responses first and the successes afterwards, in a state that may be later.\<close>

definition reported_errors :: "loadgen \<Rightarrow> loadgen \<Rightarrow> u64" where
  "reported_errors first later = totalResponses first - totalSuccesses later"

text \<open>The number of connections and the burst of the limiter in \<open>main\<close>.\<close>

definition maxBurst :: "int \<Rightarrow> int" where
  "maxBurst targetQps = (if 100 > targetQps then targetQps else 100)"

definition numConns :: "int \<Rightarrow> int" where
  "numConns targetQps = (if targetQps < 1000 then targetQps else 1000)"

text \<open>The integer columns of the line that \<open>reportStats\<close> prints: the counters are loaded one after the other, responses first,
  then successes, stale responses and at last the requests sent.\<close>

record report =
  rp_total_sent :: u64
  rp_total_responses :: u64
  rp_total_errors :: u64
  rp_stale_responses :: u64

definition reportStats :: "loadgen \<Rightarrow> loadgen \<Rightarrow> loadgen \<Rightarrow> loadgen \<Rightarrow> report" where
  "reportStats s1 s2 s3 s4 =
     \<lparr>rp_total_sent = totalSent s4, rp_total_responses = totalResponses s1, rp_total_errors = reported_errors s1 s2,
      rp_stale_responses = totalStale s3\<rparr>"

text \<open>The users for whom one connection of \<open>main\<close> sends requests, given which of its waits for the limiter succeed.\<close>

fun connection_loop :: "bool list \<Rightarrow> u64 \<Rightarrow> u64 list" where
  "connection_loop [] userId = []"
| "connection_loop (True # waits) userId = userId # connection_loop waits (getNextUserId userId)"
| "connection_loop (False # waits) userId = connection_loop waits userId"

text \<open>The body of one connection's goroutine, and all of them: \<open>dial i\<close> is the error of dialling, \<open>waits i\<close> which waits succeeded
  so far. A failed dial ends the process.\<close>

definition connection :: "(nat \<Rightarrow> string option) \<Rightarrow> (nat \<Rightarrow> bool list) \<Rightarrow> nat \<Rightarrow> u64 list go" where
  "connection dial waits i =
     (case dial i of Some err \<Rightarrow> Fatal (''fail to dial: '' @ err) | None \<Rightarrow> Ret (connection_loop (waits i) 200000))"

definition loadgen_main :: "int \<Rightarrow> (nat \<Rightarrow> string option) \<Rightarrow> (nat \<Rightarrow> bool list) \<Rightarrow> u64 list list go" where
  "loadgen_main targetQps dial waits =
     go_foreach (\<lambda>i sent. go_bind (connection dial waits i) (\<lambda>users. Ret (sent @ [users]))) [0..<nat (numConns targetQps)] []"

subsection \<open>User ids\<close>

lemma unat_getNextUserId: "unat u < 2 ^ 64 - 1 \<Longrightarrow> unat (getNextUserId u) = (unat u + 1) mod 5000 + 200000"
proof -
  assume "unat u < 2 ^ 64 - 1"
  then have "unat u + unat (1 :: u64) < 2 ^ LENGTH(64)" by simp
  then have 1: "unat (u + 1) = unat u + 1" by (subst (asm) unat_add_lem) simp
  let ?m = "(u + 1) mod 5000"
  have m: "unat ?m = (unat u + 1) mod 5000" by (simp add: unat_mod_distrib 1)
  then have "unat ?m + unat (200000 :: u64) < 2 ^ LENGTH(64)" by simp
  then have "unat (?m + 200000) = unat ?m + unat (200000 :: u64)" by (subst (asm) unat_add_lem) simp
  then show ?thesis by (simp add: getNextUserId_def m)
qed

lemma next_user_iterate: "unat ((getNextUserId ^^ k) 200000) = 200000 + k mod 5000"
proof (induction k)
  case (Suc k)
  have "k mod 5000 < 5000" by simp
  then have "unat (getNextUserId ((getNextUserId ^^ k) 200000)) = (200000 + k mod 5000 + 1) mod 5000 + 200000"
    using Suc by (subst unat_getNextUserId) simp_all
  also have "(200000 + k mod 5000 + 1) mod 5000 = Suc k mod 5000"
  proof -
    have "(200000 + k mod 5000 + 1) mod 5000 = (40 * 5000 + (k mod 5000 + 1)) mod 5000" by simp
    also have "\<dots> = (k mod 5000 + 1) mod 5000" by (simp only: mod_mult_self3)
    finally show ?thesis by (simp add: mod_Suc_eq)
  qed
  finally show ?case by simp
qed simp

subsection \<open>The counters\<close>

definition was_sent :: "request \<Rightarrow> bool" where
  "was_sent rq \<longleftrightarrow> rq \<noteq> Started"

definition was_counted :: "request \<Rightarrow> bool" where
  "was_counted rq = (case rq of Counted _ \<Rightarrow> True | Timed _ \<Rightarrow> True | Finished _ \<Rightarrow> True | _ \<Rightarrow> False)"

definition was_success :: "request \<Rightarrow> bool" where
  "was_success rq \<longleftrightarrow> rq = Finished (Some True) \<or> rq = Finished (Some False)"

definition was_stale :: "request \<Rightarrow> bool" where
  "was_stale rq \<longleftrightarrow> rq \<in> {Answered (Some True), Counted (Some True), Timed (Some True), Finished (Some True)}"

lemmas request_views = was_sent_def was_counted_def was_success_def was_stale_def

definition lg_inv :: "loadgen \<Rightarrow> bool" where
  "lg_inv lg \<longleftrightarrow> totalSent lg = of_nat (num_in was_sent (lg_requests lg)) \<and>
     totalResponses lg = of_nat (num_in was_counted (lg_requests lg)) \<and>
     totalSuccesses lg = of_nat (num_in was_success (lg_requests lg)) \<and>
     totalStale lg = of_nat (num_in was_stale (lg_requests lg))"

text \<open>One step changes the view of one request only, and the counter with it.\<close>

lemma advance_counts:
  assumes "advance reply elapsed old lg = (rq, lg')"
  shows "was_sent old \<longrightarrow> was_sent rq" "was_counted old \<longrightarrow> was_counted rq" "was_success old \<longrightarrow> was_success rq"
    "was_stale old \<longrightarrow> was_stale rq"
    "totalSent lg' = totalSent lg + (if was_sent rq \<and> \<not> was_sent old then 1 else 0)"
    "totalResponses lg' = totalResponses lg + (if was_counted rq \<and> \<not> was_counted old then 1 else 0)"
    "totalSuccesses lg' = totalSuccesses lg + (if was_success rq \<and> \<not> was_success old then 1 else 0)"
    "totalStale lg' = totalStale lg + (if was_stale rq \<and> \<not> was_stale old then 1 else 0)"
  using assms by (cases old; auto simp: advance_def request_views split: if_splits)+

lemma lg_inv_step: "lg_inv lg \<Longrightarrow> lg_step lg lg' \<Longrightarrow> lg_inv lg'"
proof -
  assume inv: "lg_inv lg" and step: "lg_step lg lg'"
  from step show "lg_inv lg'"
  proof cases
    case lg_new
    then show ?thesis using inv by (simp add: lg_inv_def request_views)
  next
    case (lg_advance i reply elapsed rq lg1)
    note adv = advance_counts [OF lg_advance(3)]
    show ?thesis
      using inv adv num_in_advance [OF lg_advance(2), of _ rq] unfolding lg_inv_def lg_advance(1) by auto
  qed
qed

interpretation lgs: inv_system "\<lambda>lg. lg = lg_start" lg_step lg_inv
  by unfold_locales (simp add: lg_start_def lg_inv_def, rule lg_inv_step)

lemma lg_counters:
  assumes "reach (\<lambda>lg. lg = lg_start) lg_step lg" "length (lg_requests lg) < 2 ^ 64"
  shows "unat (totalSent lg) = num_in was_sent (lg_requests lg)" "unat (totalResponses lg) = num_in was_counted (lg_requests lg)"
    "unat (totalSuccesses lg) = num_in was_success (lg_requests lg)" "unat (totalStale lg) = num_in was_stale (lg_requests lg)"
proof -
  have "unat (of_nat (num_in P (lg_requests lg)) :: u64) = num_in P (lg_requests lg)" for P
    by (rule unat_id) (rule le_less_trans [OF num_in_length assms(2)])
  then show "unat (totalSent lg) = num_in was_sent (lg_requests lg)" "unat (totalResponses lg) = num_in was_counted (lg_requests lg)"
    "unat (totalSuccesses lg) = num_in was_success (lg_requests lg)" "unat (totalStale lg) = num_in was_stale (lg_requests lg)"
    using lgs.reach_inv [OF assms(1)] by (simp_all add: lg_inv_def)
qed

text \<open>No counter goes back.\<close>

lemma lg_step_mono:
  assumes "lg_step lg lg'"
  shows "num_in was_sent (lg_requests lg) \<le> num_in was_sent (lg_requests lg') \<and> length (lg_requests lg) \<le> length (lg_requests lg')"
  using assms
proof cases
  case (lg_advance i reply elapsed rq lg1)
  then show ?thesis
    using advance_counts(1) [OF lg_advance(3)] num_in_advance [OF lg_advance(2), of was_sent rq] by auto
qed simp

lemma lg_steps_mono:
  "lg_step\<^sup>*\<^sup>* lg lg' \<Longrightarrow>
     num_in was_sent (lg_requests lg) \<le> num_in was_sent (lg_requests lg') \<and> length (lg_requests lg) \<le> length (lg_requests lg')"
  by (induction rule: rtranclp_induct) (auto dest!: lg_step_mono)

lemma reach_steps: "lg_step\<^sup>*\<^sup>* lg lg' \<Longrightarrow> reach init lg_step lg \<Longrightarrow> reach init lg_step lg'"
  by (induction rule: rtranclp_induct) (auto intro: reach_step)

text \<open>A single request that succeeds, step by step.\<close>

definition one_request :: "request \<Rightarrow> loadgen" where
  "one_request rq =
     lg_start\<lparr>totalSent := (if was_sent rq then 1 else 0), totalResponses := (if was_counted rq then 1 else 0),
              totalSuccesses := (if was_success rq then 1 else 0), lg_requests := [rq]\<rparr>"

lemma one_request_step:
  "lg_step (one_request Started) (one_request Sent)" "lg_step (one_request Sent) (one_request (Answered (Some False)))"
  "lg_step (one_request (Answered a)) (one_request (Counted a))" "lg_step (one_request (Counted a)) (one_request (Timed a))"
  "lg_step (one_request (Timed (Some b))) (one_request (Finished (Some b)))"
proof -
  have step: "lg_step (one_request old) (one_request rq)"
    if "advance (Some False) 0 old (one_request old) = (rq, lg')" "lg'\<lparr>lg_requests := [rq]\<rparr> = one_request rq" for old rq lg'
    using lg_advance [of 0 "one_request old" "Some False" 0 rq lg'] that by (simp add: one_request_def)
  show "lg_step (one_request Started) (one_request Sent)" "lg_step (one_request Sent) (one_request (Answered (Some False)))"
    "lg_step (one_request (Answered a)) (one_request (Counted a))" "lg_step (one_request (Counted a)) (one_request (Timed a))"
    "lg_step (one_request (Timed (Some b))) (one_request (Finished (Some b)))"
    by (rule step, (simp add: advance_def; fail), simp add: one_request_def lg_start_def request_views)+
qed

lemma one_request_reach: "reach (\<lambda>lg. lg = lg_start) lg_step (one_request (Answered (Some False)))"
proof -
  have "lg_step lg_start (one_request Started)"
    using lg_new [of lg_start] by (simp add: one_request_def lg_start_def request_views)
  then show ?thesis using one_request_step(1,2) reach_init [of "\<lambda>lg. lg = lg_start" lg_start lg_step] reach_step by metis
qed

subsection \<open>Properties\<close>

text \<open>Whoever the front end asks for exists: for a user service made from any seed, with a batch size of at least one and no
  injected failure, \<open>fetchUser(getUserId(netId))\<close> returns the user with exactly that id.\<close>

theorem frontend_user_exists:
  assumes "db = fst (MakeUserServiceServer fk seed opts g)" "1 \<le> uo_MaxBatchSize opts"
  shows "\<exists>u. fetchUser True (\<lambda>ids. remote (GetUser (ClearInjectionConfig g) r db ids)) (getUserId netId) = Ret u \<and>
    ui_UserId u = getUserId netId"
proof -
  let ?i = "getUserId netId"
  have users: "us_users db = makeRandomUsers fk (seed (uo_Seed opts))" "us_options db = opts"
    by (simp_all add: assms(1) MakeUserServiceServer_def)
  obtain u where u: "gm_get (us_users db) ?i = Some u"
    using user_exists [OF getUserId_bounds [of netId], of fk seed opts g] assms(1) by auto
  then have "ui_UserId u = ?i" using makeRandomUsers_ok [of fk "seed (uo_Seed opts)"] users(1) by (auto simp: user_ok_def)
  moreover have "remote (GetUser (ClearInjectionConfig g) r db [?i]) = Some [u]"
    using u assms(2) users(2) by (simp add: GetUser_def injected_clear remote_def)
  ultimately show ?thesis by (simp add: fetchUser_def)
qed

theorem frontend_user_exists_witness:
  "\<exists>u. fetchUser True (\<lambda>ids. remote (GetUser (ClearInjectionConfig None) (sconst 1)
      (fst (MakeUserServiceServer (\<lambda>n g. (n, g)) (\<lambda>s. (sconst (nat s), ())) DefaultUserServiceOptions None)) ids)) (getUserId ''xs66'') = Ret u"
  using frontend_user_exists [OF refl, where opts = DefaultUserServiceOptions and g = None and r = "sconst 1" and netId = "''xs66''"
    and fk = "\<lambda>n g. (n, g)" and seed = "\<lambda>s. (sconst (nat s), ())"]
  by (auto simp: DefaultUserServiceOptions_def)

text \<open>The load generator asks for the users 200000 to 204999 in turn, again and again, and each of them exists in a user
  service made from any seed.\<close>

theorem loadgen_user_ids:
  "unat ((getNextUserId ^^ k) 200000) = 200000 + k mod 5000 \<and>
   gm_get (us_users (fst (MakeUserServiceServer fk seed opts g))) ((getNextUserId ^^ k) 200000) \<noteq> None"
proof -
  have "k mod 5000 < 5000" by simp
  then show ?thesis using next_user_iterate [of k] user_exists [of "(getNextUserId ^^ k) 200000" fk seed opts g] by simp
qed

text \<open>A line of \<open>reportStats\<close> never shows more responses than requests sent, however many steps happen between the loads, because the
  requests are loaded last.\<close>

theorem reported_responses_sent:
  assumes "reach (\<lambda>lg. lg = lg_start) lg_step s1" "lg_step\<^sup>*\<^sup>* s1 s2" "lg_step\<^sup>*\<^sup>* s2 s3" "lg_step\<^sup>*\<^sup>* s3 s4"
    and "length (lg_requests s4) < 2 ^ 64"
  shows "unat (rp_total_responses (reportStats s1 s2 s3 s4)) \<le> unat (rp_total_sent (reportStats s1 s2 s3 s4))"
proof -
  have steps: "lg_step\<^sup>*\<^sup>* s1 s4" using assms(2-4) by simp
  note mono = lg_steps_mono [OF steps]
  have "length (lg_requests s1) < 2 ^ 64" using mono assms(5) by simp
  then have "unat (totalResponses s1) = num_in was_counted (lg_requests s1)" by (rule lg_counters(2) [OF assms(1)])
  also have "\<dots> \<le> num_in was_sent (lg_requests s1)" by (rule num_in_mono) (auto simp: request_views split: request.splits)
  also have "\<dots> \<le> num_in was_sent (lg_requests s4)" using mono by simp
  also have "\<dots> = unat (totalSent s4)" by (rule lg_counters(1) [OF reach_steps [OF steps assms(1)] assms(5), symmetric])
  finally show ?thesis by (simp add: reportStats_def)
qed

text \<open>Each connection of the load generator asks for the users 200000 to 204999 in turn.\<close>

lemma connection_loop_iterate:
  "connection_loop waits u = map (\<lambda>k. (getNextUserId ^^ k) u) [0..<length (filter id waits)]"
proof (induction waits u rule: connection_loop.induct)
  case (2 waits u)
  have "map (\<lambda>k. (getNextUserId ^^ k) u) [0..<Suc n] = u # map (\<lambda>k. (getNextUserId ^^ k) (getNextUserId u)) [0..<n]" for n
    unfolding upt_conv_Cons [OF zero_less_Suc] map_Suc_upt [symmetric] by (simp add: funpow_swap1 del: upt_Suc)
  then show ?case using 2 by simp
qed simp_all

theorem connection_users:
  "map unat (connection_loop waits 200000) = map (\<lambda>k. 200000 + k mod 5000) [0..<length (filter id waits)]"
  by (simp add: connection_loop_iterate next_user_iterate)

text \<open>When every dial works, the load generator keeps at most 1000 connections (none for a target of zero or less), and whatever the limiter
  admits, it asks only for users that every user service has.\<close>

lemma connections_users:
  assumes "\<forall>i \<in> set is. dial i = None"
  shows "go_foreach (\<lambda>i sent. go_bind (connection dial waits i) (\<lambda>users. Ret (sent @ [users]))) is sent =
    Ret (sent @ map (\<lambda>i. connection_loop (waits i) 200000) is)"
  using assms by (induction "is" arbitrary: sent) (simp_all add: connection_def)

theorem loadgen_main_users:
  assumes "\<forall>i < nat targetQps. dial i = None"
  shows "\<exists>sent. loadgen_main targetQps dial waits = Ret sent \<and> length sent = nat (min targetQps 1000) \<and>
    (\<forall>users \<in> set sent. \<forall>u \<in> set users. 200000 \<le> unat u \<and> unat u < 205000 \<and>
       gm_get (us_users (fst (MakeUserServiceServer fk seed opts g))) u \<noteq> None)"
proof -
  let ?is = "[0..<nat (numConns targetQps)]"
  have "\<forall>i \<in> set ?is. dial i = None" using assms by (auto simp: numConns_def split: if_splits)
  then have run: "loadgen_main targetQps dial waits = Ret (map (\<lambda>i. connection_loop (waits i) 200000) ?is)"
    by (simp add: loadgen_main_def connections_users)
  have "200000 \<le> unat u \<and> unat u < 205000" if "u \<in> set (connection_loop w 200000)" for u w
    using that by (auto simp: connection_loop_iterate next_user_iterate)
  then show ?thesis using run user_exists [of _ fk seed opts g] by (auto simp: numConns_def)
qed

text \<open>The counters of the load generator, over all interleavings of fewer than \<open>2 ^ 64\<close> requests: successes never exceed
  responses nor responses the requests sent, stale responses are counted once each, and the errors
  computed from one instant are the requests counted as answered whose success is not recorded.\<close>

theorem loadgen_counters:
  assumes "reach (\<lambda>lg. lg = lg_start) lg_step lg" "length (lg_requests lg) < 2 ^ 64"
  shows "unat (totalSuccesses lg) \<le> unat (totalResponses lg) \<and> unat (totalResponses lg) \<le> unat (totalSent lg) \<and>
    unat (totalStale lg) \<le> unat (totalSent lg) \<and> unat (totalSent lg) \<le> length (lg_requests lg) \<and>
    unat (reported_errors lg lg) + unat (totalSuccesses lg) = unat (totalResponses lg) \<and>
    (list_all (\<lambda>rq. \<exists>a. rq = Finished a) (lg_requests lg) \<longrightarrow>
       unat (totalResponses lg) = length (lg_requests lg) \<and> unat (reported_errors lg lg) = num_in (\<lambda>rq. rq = Finished None) (lg_requests lg))"
proof -
  note c = lg_counters [OF assms]
  have le: "unat (totalSuccesses lg) \<le> unat (totalResponses lg)" "unat (totalResponses lg) \<le> unat (totalSent lg)"
    "unat (totalStale lg) \<le> unat (totalSent lg)" "unat (totalSent lg) \<le> length (lg_requests lg)"
    unfolding c by (auto intro!: num_in_mono num_in_length simp: request_views split: request.splits)
  then have sub: "unat (reported_errors lg lg) + unat (totalSuccesses lg) = unat (totalResponses lg)"
    by (simp add: reported_errors_def unat_sub word_le_nat_alt)
  have "unat (totalResponses lg) = length (lg_requests lg) \<and> unat (reported_errors lg lg) = num_in (\<lambda>rq. rq = Finished None) (lg_requests lg)"
    if "list_all (\<lambda>rq. \<exists>a. rq = Finished a) (lg_requests lg)"
  proof -
    have "num_in was_counted rqs = length rqs \<and> num_in was_success rqs + num_in (\<lambda>rq. rq = Finished None) rqs = length rqs"
      if "list_all (\<lambda>rq. \<exists>a. rq = Finished a) rqs" for rqs
      using that by (induction rqs) (auto simp: num_in_def request_views)
    from this [OF that] show ?thesis using sub c by simp
  qed
  then show ?thesis using le sub by blast
qed

theorem loadgen_counters_witness:
  "unat (totalSuccesses (one_request (Answered (Some False)))) \<le> unat (totalResponses (one_request (Answered (Some False))))"
  using loadgen_counters [OF one_request_reach] by (simp add: one_request_def)

text \<open>C40: The reported number of errors can be wrong by \<open>2 ^ 64\<close>: \<open>reportStats\<close> reads the responses before the successes, so
  when a request succeeds between the two reads, the difference wraps around.\<close>

theorem loadgen_errors_wrap:
  "\<exists>first later. reach (\<lambda>lg. lg = lg_start) lg_step first \<and> lg_step\<^sup>*\<^sup>* first later \<and>
     unat (reported_errors first later) = 2 ^ 64 - 1"
proof -
  have "lg_step\<^sup>*\<^sup>* (one_request (Answered (Some False))) (one_request (Finished (Some False)))"
    using one_request_step(3-5) by (meson converse_rtranclp_into_rtranclp r_into_rtranclp)
  moreover have "unat (reported_errors (one_request (Answered (Some False))) (one_request (Finished (Some False)))) = 2 ^ 64 - 1"
    by (simp add: reported_errors_def one_request_def lg_start_def request_views unsigned_minus_1_eq_mask mask_eq_exp_minus_1)
  ultimately show ?thesis using one_request_reach by blast
qed

end
