(* ===== verification/Lab1_Servers.thy ===== *)
theory Lab1_Servers
  imports Lab1_Clients
begin

text \<open>
  The three server programs of lab 1 (\<open>lab1/user_service/server/server.go\<close>, \<open>lab1/video_service/server/server.go\<close>,
  \<open>lab1/video_rec_service/server/server.go\<close>) with their flags, and how a deployment with the default flags fits
  together. \<open>listen\<close> stands for \<open>net.Listen\<close> on an address (\<open>Some err\<close> when it fails); a program that
  could listen is described by what it hands to \<open>grpc\<close>, and \<open>after_Serve\<close> is what it does when \<open>Serve\<close> returns.
\<close>

subsection \<open>Flags\<close>

record user_flags =
  uf_port :: int
  uf_seed :: int
  uf_sleepNs :: int
  uf_failureRate :: int
  uf_responseOmissionRate :: int
  uf_maxBatchSize :: int

definition default_user_flags :: user_flags where
  "default_user_flags =
     \<lparr>uf_port = 8081, uf_seed = 42, uf_sleepNs = 0, uf_failureRate = 0, uf_responseOmissionRate = 0, uf_maxBatchSize = 250\<rparr>"

record video_flags =
  vf_port :: int
  vf_seed :: int
  vf_ttlSeconds :: int
  vf_sleepNs :: int
  vf_failureRate :: int
  vf_responseOmissionRate :: int
  vf_maxBatchSize :: int

definition default_video_flags :: video_flags where
  "default_video_flags =
     \<lparr>vf_port = 8082, vf_seed = 42, vf_ttlSeconds = 60, vf_sleepNs = 0, vf_failureRate = 0, vf_responseOmissionRate = 0,
      vf_maxBatchSize = 2000\<rparr>"

record rec_flags =
  rf_port :: int
  rf_userServiceAddr :: string
  rf_videoServiceAddr :: string
  rf_maxBatchSize :: int

definition default_rec_flags :: rec_flags where
  "default_rec_flags =
     \<lparr>rf_port = 8080, rf_userServiceAddr = ''[::1]:8081'', rf_videoServiceAddr = ''[::1]:8082'', rf_maxBatchSize = 250\<rparr>"

subsection \<open>The programs\<close>

record 's program =
  pg_addr :: string
  pg_server :: 's
  pg_injection :: injection

definition listen_addr :: "int \<Rightarrow> string" where
  "listen_addr port = '':'' @ show_int port"

definition after_Serve :: "string option \<Rightarrow> unit go" where
  "after_Serve err = (case err of Some e \<Rightarrow> Fatal (''failed to serve: '' @ e) | None \<Rightarrow> Ret ())"

definition user_server_main ::
    "'g faker \<Rightarrow> (int \<Rightarrow> rng \<times> 'g) \<Rightarrow> (string \<Rightarrow> string option) \<Rightarrow> user_flags \<Rightarrow> injection \<Rightarrow> UserServiceServer program go" where
  "user_server_main fk seed listen fl g =
     (case listen (listen_addr (uf_port fl)) of
        Some err \<Rightarrow> Fatal (''failed to listen: '' @ err)
      | None \<Rightarrow>
          (let (server, g') = MakeUserServiceServer fk seed
                 \<lparr>uo_Seed = uf_seed fl, uo_SleepNs = uf_sleepNs fl, uo_FailureRate = uf_failureRate fl,
                  uo_ResponseOmissionRate = uf_responseOmissionRate fl, uo_MaxBatchSize = uf_maxBatchSize fl\<rparr> g
           in Ret \<lparr>pg_addr = listen_addr (uf_port fl), pg_server = server, pg_injection = g'\<rparr>))"

definition video_server_main ::
    "'g faker \<Rightarrow> (int \<Rightarrow> rng \<times> 'g) \<Rightarrow> (string \<Rightarrow> string option) \<Rightarrow> video_flags \<Rightarrow> injection \<Rightarrow> VideoServiceServer program go" where
  "video_server_main fk seed listen fl g =
     (case listen (listen_addr (vf_port fl)) of
        Some err \<Rightarrow> Fatal (''failed to listen: '' @ err)
      | None \<Rightarrow>
          (let (server, g') = MakeVideoServiceServer fk seed
                 \<lparr>vo_Seed = vf_seed fl, vo_TtlSeconds = vf_ttlSeconds fl, vo_SleepNs = vf_sleepNs fl, vo_FailureRate = vf_failureRate fl,
                  vo_ResponseOmissionRate = vf_responseOmissionRate fl, vo_MaxBatchSize = vf_maxBatchSize fl\<rparr> g
           in Ret \<lparr>pg_addr = listen_addr (vf_port fl), pg_server = server, pg_injection = g'\<rparr>))"

text \<open>The flags that this program does not have keep their zero value; it does not touch the injection configuration.\<close>

definition video_rec_server_main :: "(string \<Rightarrow> string option) \<Rightarrow> rec_flags \<Rightarrow> injection \<Rightarrow> VideoRecServiceServer program go" where
  "video_rec_server_main listen fl g =
     (case listen (listen_addr (rf_port fl)) of
        Some err \<Rightarrow> Fatal (''failed to listen: '' @ err)
      | None \<Rightarrow>
          Ret \<lparr>pg_addr = listen_addr (rf_port fl),
               pg_server = MakeVideoRecServiceServer
                 \<lparr>ro_UserServiceAddr = rf_userServiceAddr fl, ro_VideoServiceAddr = rf_videoServiceAddr fl,
                  ro_MaxBatchSize = rf_maxBatchSize fl, ro_DisableFallback = False, ro_DisableRetry = False\<rparr>,
               pg_injection = g\<rparr>)"

subsection \<open>Batches of known ids\<close>

lemma GetUser_known:
  assumes "db = fst (MakeUserServiceServer fk seed opts g)" "ids \<noteq> []" "int (length ids) \<le> uo_MaxBatchSize opts"
    and "\<forall>i \<in> set ids. gm_get (us_users db) i \<noteq> None"
  shows "\<exists>users. GetUser (ClearInjectionConfig g') r db ids = Ret (Inr users) \<and> map ui_UserId users = ids \<and>
    (\<forall>u \<in> set users. \<exists>i \<in> set ids. gm_get (us_users db) i = Some u)"
proof -
  have db: "us_users db = makeRandomUsers fk (seed (uo_Seed opts))" "us_options db = opts"
    by (simp_all add: assms(1) MakeUserServiceServer_def)
  let ?users = "map (\<lambda>i. the (gm_get (us_users db) i)) ids"
  have "ui_UserId (the (gm_get (us_users db) i)) = i" if "i \<in> set ids" for i
    using assms(4) that makeRandomUsers_ok [of fk "seed (uo_Seed opts)" i] db(1) by (fastforce simp: user_ok_def)
  then have "map ui_UserId ?users = ids" by (simp add: map_idI)
  moreover have "GetUser (ClearInjectionConfig g') r db ids = Ret (Inr ?users)"
    using assms(2,3) db(2) find_known [OF assms(4)] by (simp add: GetUser_def injected_clear find_all_spec)
  moreover have "\<forall>u \<in> set ?users. \<exists>i \<in> set ids. gm_get (us_users db) i = Some u" using assms(4) by fastforce
  ultimately show ?thesis by blast
qed

lemma GetVideo_known:
  assumes "db = fst (MakeVideoServiceServer fk seed opts g)" "ids \<noteq> []" "distinct ids" "int (length ids) \<le> vo_MaxBatchSize opts"
    and "\<forall>i \<in> set ids. gm_get (vs_videos db) i \<noteq> None"
  shows "\<exists>infos. GetVideo (ClearInjectionConfig g') r db ids = Ret (Inr infos) \<and> map vi_VideoId infos = ids"
proof -
  let ?infos = "map (\<lambda>i. the (gm_get (vs_videos db) i)) ids"
  have "vi_VideoId (the (gm_get (vs_videos db) i)) = i" if "i \<in> set ids" for i
    using assms(5) that makeRandomVideos_ids [of fk "seed (vo_Seed opts)" i] by (fastforce simp: assms(1) MakeVideoServiceServer_simps)
  then have "map vi_VideoId ?infos = ids" by (simp add: map_idI)
  moreover have "GetVideo (ClearInjectionConfig g') r db ids = Ret (Inr ?infos)"
    using assms(2-4) find_known [OF assms(5)]
    by (simp add: GetVideo_def length_deduplicateIds injected_clear find_all_spec assms(1) MakeVideoServiceServer_simps)
  ultimately show ?thesis by blast
qed

subsection \<open>The default deployment\<close>

lemma default_addrs: "listen_addr 8080 = '':8080''" "listen_addr 8081 = '':8081''" "listen_addr 8082 = '':8082''"
  by (simp_all add: listen_addr_def show_int_def decimal.simps char_of_def bit_0)

lemma default_user_main:
  assumes "user_server_main fk seed listen default_user_flags g = Ret us"
  shows "pg_addr us = '':8081''" "pg_server us = fst (MakeUserServiceServer fk seed DefaultUserServiceOptions g)"
    "pg_injection us = ClearInjectionConfig g"
  using assms
  by (auto simp: user_server_main_def default_user_flags_def default_addrs DefaultUserServiceOptions_def MakeUserServiceServer_def
      ClearInjectionConfig_def split: option.splits)

lemma default_video_main:
  assumes "video_server_main fk seed listen default_video_flags g = Ret vs"
  shows "pg_addr vs = '':8082''"
    "pg_server vs = fst (MakeVideoServiceServer fk seed (DefaultVideoServiceOptions\<lparr>vo_MaxBatchSize := 2000\<rparr>) g)"
    "pg_injection vs = ClearInjectionConfig g"
  using assms
  by (auto simp: video_server_main_def default_video_flags_def default_addrs DefaultVideoServiceOptions_def MakeVideoServiceServer_def
      ClearInjectionConfig_def Let_def case_prod_beta split: option.splits)

lemma default_rec_main:
  assumes "video_rec_server_main listen default_rec_flags g = Ret rs"
  shows "pg_addr rs = '':8080''" "rs_options (pg_server rs) = DefaultVideoRecServiceOptions"
  using assms
  by (auto simp: video_rec_server_main_def default_rec_flags_def default_addrs MakeVideoRecServiceServer_def
      DefaultVideoRecServiceOptions_def split: option.splits)

text \<open>C21: A deployment with the default flags fits together. The recommendation server is given the addresses on which the two other
  servers listen, and in batches of at most its own batch size everything it has to ask for is answered: the users
  whom a known user follows, together with that user, and any different videos that those users like, each answer
  in the order of the request.\<close>

theorem default_deployment_serves:
  assumes "user_server_main fk seed listen1 default_user_flags g1 = Ret us"
    and "video_server_main fk' seed listen2 default_video_flags g2 = Ret vs"
    and "video_rec_server_main listen3 default_rec_flags g3 = Ret rs"
    and "gm_get (us_users (pg_server us)) k = Some u"
  shows "ro_UserServiceAddr (rs_options (pg_server rs)) = ''[::1]'' @ pg_addr us \<and>
    ro_VideoServiceAddr (rs_options (pg_server rs)) = ''[::1]'' @ pg_addr vs \<and>
    (\<forall>ids. ids \<noteq> [] \<and> int (length ids) \<le> ro_MaxBatchSize (rs_options (pg_server rs)) \<and> set ids \<subseteq> insert k (set (ui_SubscribedTo u)) \<longrightarrow>
      (\<exists>users. GetUser (pg_injection us) r (pg_server us) ids = Ret (Inr users) \<and> map ui_UserId users = ids \<and>
        (\<forall>vids. vids \<noteq> [] \<and> distinct vids \<and> int (length vids) \<le> ro_MaxBatchSize (rs_options (pg_server rs)) \<and>
           set vids \<subseteq> (\<Union>w \<in> set users. set (ui_LikedVideos w)) \<longrightarrow>
           (\<exists>infos. GetVideo (pg_injection vs) r' (pg_server vs) vids = Ret (Inr infos) \<and> map vi_VideoId infos = vids))))"
proof (intro conjI allI impI)
  note us = default_user_main [OF assms(1)] and vs = default_video_main [OF assms(2)] and rs = default_rec_main [OF assms(3)]
  show "ro_UserServiceAddr (rs_options (pg_server rs)) = ''[::1]'' @ pg_addr us"
    "ro_VideoServiceAddr (rs_options (pg_server rs)) = ''[::1]'' @ pg_addr vs"
    by (simp_all add: us vs rs DefaultVideoRecServiceOptions_def)
  have seeds: "uo_Seed DefaultUserServiceOptions = vo_Seed (DefaultVideoServiceOptions\<lparr>vo_MaxBatchSize := 2000\<rparr>)"
    by (simp add: DefaultUserServiceOptions_def DefaultVideoServiceOptions_def)
  have users_known: "gm_get (us_users (pg_server us)) s \<noteq> None" if "s \<in> set (ui_SubscribedTo u)" for s
    using liked_videos_exist [OF refl refl seeds assms(4) [unfolded us(2)]] that unfolding us(2) by blast
  have videos_known: "gm_get (vs_videos (pg_server vs)) v \<noteq> None"
    if "gm_get (us_users (pg_server us)) i = Some w" "v \<in> set (ui_LikedVideos w)" for i w v
    using liked_videos_exist [OF refl refl seeds that(1) [unfolded us(2)]] that(2) unfolding vs(2) by blast
  fix ids assume ids: "ids \<noteq> [] \<and> int (length ids) \<le> ro_MaxBatchSize (rs_options (pg_server rs)) \<and> set ids \<subseteq> insert k (set (ui_SubscribedTo u))"
  then have "\<forall>i \<in> set ids. gm_get (us_users (pg_server us)) i \<noteq> None" using users_known assms(4) by auto
  moreover have "int (length ids) \<le> uo_MaxBatchSize DefaultUserServiceOptions"
    using ids by (simp add: rs DefaultVideoRecServiceOptions_def DefaultUserServiceOptions_def)
  ultimately obtain users where users: "GetUser (pg_injection us) r (pg_server us) ids = Ret (Inr users)" "map ui_UserId users = ids"
    "\<forall>w \<in> set users. \<exists>i \<in> set ids. gm_get (us_users (pg_server us)) i = Some w"
    using GetUser_known [OF us(2)] ids unfolding us(3) by metis
  have "\<exists>infos. GetVideo (pg_injection vs) r' (pg_server vs) vids = Ret (Inr infos) \<and> map vi_VideoId infos = vids"
    if "vids \<noteq> [] \<and> distinct vids \<and> int (length vids) \<le> ro_MaxBatchSize (rs_options (pg_server rs)) \<and>
      set vids \<subseteq> (\<Union>w \<in> set users. set (ui_LikedVideos w))" for vids
  proof -
    have "int (length vids) \<le> vo_MaxBatchSize (DefaultVideoServiceOptions\<lparr>vo_MaxBatchSize := 2000\<rparr>)"
      using that by (simp add: rs DefaultVideoRecServiceOptions_def)
    moreover have "\<forall>v \<in> set vids. gm_get (vs_videos (pg_server vs)) v \<noteq> None" using that users(3) videos_known by blast
    ultimately show ?thesis using GetVideo_known [OF vs(2)] that unfolding vs(3) by blast
  qed
  then show "\<exists>users. GetUser (pg_injection us) r (pg_server us) ids = Ret (Inr users) \<and> map ui_UserId users = ids \<and>
      (\<forall>vids. vids \<noteq> [] \<and> distinct vids \<and> int (length vids) \<le> ro_MaxBatchSize (rs_options (pg_server rs)) \<and>
         set vids \<subseteq> (\<Union>w \<in> set users. set (ui_LikedVideos w)) \<longrightarrow>
         (\<exists>infos. GetVideo (pg_injection vs) r' (pg_server vs) vids = Ret (Inr infos) \<and> map vi_VideoId infos = vids))"
    using users(1,2) by blast
qed

theorem default_deployment_serves_witness:
  "\<exists>us users. user_server_main (\<lambda>n g. (n, g)) (\<lambda>s. (sconst (nat s), ())) (\<lambda>_. None) default_user_flags None = Ret us \<and>
     GetUser (pg_injection us) (sconst 1) (pg_server us) [200001] = Ret (Inr users)"
proof -
  let ?fk = "\<lambda>n (g :: unit). (n :: string, g)" and ?seed = "\<lambda>s. (sconst (nat s), ())" and ?l = "\<lambda>_ :: string. None :: string option"
  obtain us where us: "user_server_main ?fk ?seed ?l default_user_flags None = Ret us"
    by (simp add: user_server_main_def case_prod_beta)
  obtain vs where vs: "video_server_main ?fk ?seed ?l default_video_flags None = Ret vs"
    by (simp add: video_server_main_def case_prod_beta)
  obtain rs where rs: "video_rec_server_main ?l default_rec_flags None = Ret rs" by (simp add: video_rec_server_main_def)
  obtain u where u: "gm_get (us_users (pg_server us)) 200001 = Some u"
    using user_exists [of 200001 ?fk ?seed DefaultUserServiceOptions None] default_user_main(2) [OF us] by auto
  have "int (length [200001 :: u64]) \<le> ro_MaxBatchSize (rs_options (pg_server rs))"
    by (simp add: default_rec_main(2) [OF rs] DefaultVideoRecServiceOptions_def)
  then have "\<exists>users. GetUser (pg_injection us) (sconst 1) (pg_server us) [200001] = Ret (Inr users)"
    using default_deployment_serves [OF us vs rs u, of "sconst 1" "sconst 1", THEN conjunct2, THEN conjunct2, THEN spec, of "[200001]"]
    by auto
  then show ?thesis using us by blast
qed

end
