(* ===== verification/Lab1_Stats.thy ===== *)
theory Lab1_Stats
  imports Complex_Main Lab1_Clients
begin

text \<open>
  The statistics printer of lab 1 (\<open>lab1/cmd/stats/stats.go\<close>): a header, and once a second a line of nine columns made from the
  answer to \<open>GetStats\<close>. The two floating-point fields are exact rational numbers, the negative zero, or not numbers at all; \<open>format2\<close> is the verb
  \<open>%.2f\<close>, which rounds the exact value to two decimals, ties to even.
\<close>

subsection \<open>Formatting\<close>

datatype float_value = Finite rat | NegZero | NaN | PosInf | NegInf

definition round_even :: "rat \<Rightarrow> int" where
  "round_even x =
     (let f = \<lfloor>x\<rfloor>; d = x - of_int f
      in if d < 1 / 2 then f else if 1 / 2 < d then f + 1 else if even f then f else f + 1)"

definition two_digits :: "nat \<Rightarrow> string" where
  "two_digits n = [char_of (48 + n div 10 mod 10), char_of (48 + n mod 10)]"

definition hundredths :: "rat \<Rightarrow> nat" where
  "hundredths x = nat (round_even (100 * \<bar>x\<bar>))"

definition format2 :: "float_value \<Rightarrow> string" where
  "format2 v =
     (case v of
        Finite x \<Rightarrow> (if x < 0 then ''-'' else '''') @ decimal (hundredths x div 100) @ ''.'' @ two_digits (hundredths x mod 100)
      | NegZero \<Rightarrow> ''-0.00'' | NaN \<Rightarrow> ''NaN'' | PosInf \<Rightarrow> ''+Inf'' | NegInf \<Rightarrow> ''-Inf'')"

subsection \<open>The program\<close>

record GetStatsResponse =
  TotalRequests :: u64
  TotalErrors :: u64
  ActiveRequests :: u64
  UserServiceErrors :: u64
  VideoServiceErrors :: u64
  AverageLatencyMs :: float_value
  P99LatencyMs :: float_value
  StaleResponses :: u64

definition tab :: char where
  "tab = char_of (9 :: nat)"

fun join :: "char \<Rightarrow> string list \<Rightarrow> string" where
  "join sep [] = []"
| "join sep [x] = x"
| "join sep (x # xs) = x @ sep # join sep xs"

definition printHeader :: string where
  "printHeader = join tab [''now_us'', ''total_requests'', ''total_errors'', ''active_requests'', ''user_service_errors'',
     ''video_service_errors'', ''average_latency_ms'', ''p99_latency_ms'', ''stale_responses'']"

definition stats_columns :: "int \<Rightarrow> GetStatsResponse \<Rightarrow> string list" where
  "stats_columns now_us r =
     [show_int now_us, decimal (unat (TotalRequests r)), decimal (unat (TotalErrors r)), decimal (unat (ActiveRequests r)),
      decimal (unat (UserServiceErrors r)), decimal (unat (VideoServiceErrors r)), format2 (AverageLatencyMs r), format2 (P99LatencyMs r),
      decimal (unat (StaleResponses r))]"

definition printStats :: "int \<Rightarrow> GetStatsResponse \<Rightarrow> string" where
  "printStats now_us r = join tab (stats_columns now_us r)"

text \<open>What one call writes: a line of the table, or a log message.\<close>

datatype stats_output = Row string | Logged string

definition gatherStats :: "(string + GetStatsResponse) \<Rightarrow> int \<Rightarrow> stats_output" where
  "gatherStats answer now_us =
     (case answer of Inl err \<Rightarrow> Logged (''Error retrieving stats: '' @ err) | Inr out \<Rightarrow> Row (printStats now_us out))"

text \<open>\<open>calls\<close> are the answers and the times of the first call and of the ticks so far.\<close>

definition stats_main :: "string option \<Rightarrow> ((string + GetStatsResponse) \<times> int) list \<Rightarrow> stats_output list go" where
  "stats_main dial_err calls =
     (case dial_err of
        Some err \<Rightarrow> Fatal (''fail to dial: '' @ err)
      | None \<Rightarrow> Ret (Row printHeader # map (\<lambda>(answer, now_us). gatherStats answer now_us) calls))"

subsection \<open>Rounding\<close>

lemma round_even_near: "\<bar>of_int (round_even x) - x\<bar> \<le> 1 / 2"
proof -
  define f where "f = \<lfloor>x\<rfloor>"
  have "of_int f \<le> x" "x < of_int f + 1" using floor_correct [of x] by (simp_all add: f_def)
  then show ?thesis unfolding round_even_def Let_def abs_le_iff f_def [symmetric] by (auto split: if_splits)
qed

lemma round_even_nonneg: "0 \<le> x \<Longrightarrow> 0 \<le> round_even x"
  by (simp add: round_even_def Let_def)

text \<open>The printed number differs from the value by at most half a hundredth.\<close>

lemma hundredths_near: "\<bar>of_nat (hundredths x) / 100 - \<bar>x\<bar>\<bar> \<le> (1 / 200 :: rat)"
proof -
  have "(of_nat (hundredths x) :: rat) = of_int (round_even (100 * \<bar>x\<bar>))"
    using round_even_nonneg [of "100 * \<bar>x\<bar>"] by (simp add: hundredths_def)
  moreover define k where "k = round_even (100 * \<bar>x\<bar>)"
  ultimately show ?thesis using round_even_near [of "100 * \<bar>x\<bar>"] unfolding abs_le_iff k_def [symmetric] by (simp add: field_simps)
qed

subsection \<open>Columns\<close>

text \<open>Reading a line: the fields between the separators.\<close>

fun fields :: "char \<Rightarrow> string \<Rightarrow> string list" where
  "fields sep [] = [[]]"
| "fields sep (c # cs) = (if c = sep then [] # fields sep cs else (case fields sep cs of f # fs \<Rightarrow> (c # f) # fs | [] \<Rightarrow> [[c]]))"

lemma fields_nonempty: "fields sep s \<noteq> []"
  by (induction s) (auto split: list.splits)

lemma fields_word: "sep \<notin> set x \<Longrightarrow> fields sep x = [x]"
  by (induction x) auto

lemma fields_append: "sep \<notin> set x \<Longrightarrow> fields sep (x @ sep # s) = x # fields sep s"
  by (induction x) auto

lemma fields_join: "xs \<noteq> [] \<Longrightarrow> \<forall>x \<in> set xs. sep \<notin> set x \<Longrightarrow> fields sep (join sep xs) = xs"
  by (induction sep xs rule: join.induct) (simp_all add: fields_word fields_append)

text \<open>Numbers are printed with the characters 48 to 57, which are neither the separator nor a sign nor a point.\<close>

definition is_digit :: "char \<Rightarrow> bool" where
  "is_digit c \<longleftrightarrow> 48 \<le> (of_char c :: nat) \<and> (of_char c :: nat) < 58"

lemma is_digit_char: "d < 10 \<Longrightarrow> is_digit (char_of (48 + d :: nat))"
  by (simp add: is_digit_def)

lemma decimal_digits: "list_all is_digit (decimal n)"
proof (induction n rule: decimal.induct)
  case (1 n)
  then show ?case by (subst decimal.simps) (simp add: is_digit_char)
qed

lemma two_digits_digits: "list_all is_digit (two_digits n)"
  by (simp add: two_digits_def is_digit_char)

lemma not_digit: "\<not> is_digit tab" "\<not> is_digit (CHR ''-'')" "\<not> is_digit (CHR ''.'')"
  by (simp_all add: is_digit_def tab_def)

lemma not_in_digits: "list_all is_digit s \<Longrightarrow> \<not> is_digit c \<Longrightarrow> c \<notin> set s"
  by (auto simp: list_all_iff)

lemmas tab_decimal = not_in_digits [OF decimal_digits not_digit(1)]
lemmas tab_two_digits = not_in_digits [OF two_digits_digits not_digit(1)]

lemma tab_other: "tab \<noteq> CHR ''-''" "tab \<noteq> CHR ''.''" "tab \<notin> set ''-0.00''" "tab \<notin> set ''NaN''" "tab \<notin> set ''+Inf''" "tab \<notin> set ''-Inf''"
  by (simp_all add: tab_def char_of_def bit_simps)

lemma tab_format2: "tab \<notin> set (format2 v)"
  using tab_decimal tab_two_digits tab_other by (cases v) (auto simp: format2_def)

lemma tab_show_int: "tab \<notin> set (show_int n)"
  using tab_decimal tab_other by (auto simp: show_int_def)

subsection \<open>Reading numbers back\<close>

lemma undecimal_digit: "d < 10 \<Longrightarrow> undecimal (s @ [char_of (48 + d)]) = 10 * undecimal s + d"
  by (simp add: undecimal_def)

lemma undecimal_hundredths: "undecimal (decimal n @ two_digits m) = 100 * n + m mod 100"
proof -
  have "undecimal ((decimal n @ [char_of (48 + m div 10 mod 10)]) @ [char_of (48 + m mod 10)]) = 10 * (10 * n + m div 10 mod 10) + m mod 10"
    by (subst undecimal_digit, simp, subst undecimal_digit) (simp_all add: undecimal_decimal)
  moreover have "10 * (m div 10 mod 10) + m mod 10 = m mod 100" using mod_mult2_eq [of m 10 10] by simp
  ultimately show ?thesis by (simp add: two_digits_def)
qed

text \<open>The hundredths of a printed number: its digits without the sign and the point.\<close>

definition read_hundredths :: "string \<Rightarrow> nat" where
  "read_hundredths s = undecimal (filter is_digit s)"

lemma filter_digits: "list_all is_digit s \<Longrightarrow> filter is_digit s = s"
  by (simp add: list_all_iff filter_id_conv)

lemma read_format2: "read_hundredths (format2 (Finite x)) = hundredths x"
  by (simp add: read_hundredths_def format2_def filter_digits decimal_digits two_digits_digits not_digit undecimal_hundredths)

text \<open>Reading a printed latency gives the value up to half a hundredth.\<close>

definition close_to :: "string \<Rightarrow> float_value \<Rightarrow> bool" where
  "close_to s v =
     (case v of
        Finite x \<Rightarrow> \<bar>of_nat (read_hundredths s) / 100 - \<bar>x\<bar>\<bar> \<le> (1 / 200 :: rat) \<and> (hd s = CHR ''-'') = (x < 0)
      | NegZero \<Rightarrow> s = ''-0.00'' | NaN \<Rightarrow> s = ''NaN'' | PosInf \<Rightarrow> s = ''+Inf'' | NegInf \<Rightarrow> s = ''-Inf'')"

lemma hd_decimal: "hd (decimal n @ s) \<noteq> CHR ''-''"
proof -
  have "decimal n \<noteq> []" by (subst decimal.simps) simp
  then have "hd (decimal n @ s) \<in> set (decimal n)" by simp
  then show ?thesis using not_in_digits [OF decimal_digits not_digit(2)] by metis
qed

lemma format2_close: "close_to (format2 v) v"
proof (cases v)
  case (Finite x)
  have "(hd (format2 (Finite x)) = CHR ''-'') = (x < 0)" using hd_decimal by (simp add: format2_def)
  then show ?thesis using hundredths_near [of x] by (simp add: close_to_def Finite read_format2)
qed (simp_all add: close_to_def format2_def)

subsection \<open>Properties\<close>

text \<open>The table as a reader sees it: the entry of a row under a name of the header.\<close>

definition column :: "string \<Rightarrow> string \<Rightarrow> string \<Rightarrow> string option" where
  "column header row name = map_of (zip (fields tab header) (fields tab row)) name"

text \<open>C34: Whoever reads the printed table by its header gets the response back. The header names nine different columns and every row has
  nine fields; under the name of each counter stands that counter, to be recovered from its digits, and under the names of the
  two latencies stand numbers with the sign of the measured ones that differ from them by at most half a hundredth of a
  millisecond.\<close>

theorem stats_table_lines_up:
  "distinct (fields tab printHeader) \<and> length (fields tab printHeader) = 9 \<and> length (fields tab (printStats now_us r)) = 9 \<and>
   map_option undecimal (column printHeader (printStats now_us r) ''total_requests'') = Some (unat (TotalRequests r)) \<and>
   map_option undecimal (column printHeader (printStats now_us r) ''total_errors'') = Some (unat (TotalErrors r)) \<and>
   map_option undecimal (column printHeader (printStats now_us r) ''active_requests'') = Some (unat (ActiveRequests r)) \<and>
   map_option undecimal (column printHeader (printStats now_us r) ''user_service_errors'') = Some (unat (UserServiceErrors r)) \<and>
   map_option undecimal (column printHeader (printStats now_us r) ''video_service_errors'') = Some (unat (VideoServiceErrors r)) \<and>
   map_option undecimal (column printHeader (printStats now_us r) ''stale_responses'') = Some (unat (StaleResponses r)) \<and>
   column printHeader (printStats now_us r) ''now_us'' = Some (show_int now_us) \<and>
   (\<exists>s. column printHeader (printStats now_us r) ''average_latency_ms'' = Some s \<and> close_to s (AverageLatencyMs r)) \<and>
   (\<exists>s. column printHeader (printStats now_us r) ''p99_latency_ms'' = Some s \<and> close_to s (P99LatencyMs r))"
proof -
  have row: "fields tab (printStats now_us r) = stats_columns now_us r"
    unfolding printStats_def
    by (rule fields_join) (simp_all add: stats_columns_def tab_decimal tab_format2 tab_show_int)
  have header: "fields tab printHeader = [''now_us'', ''total_requests'', ''total_errors'', ''active_requests'', ''user_service_errors'',
     ''video_service_errors'', ''average_latency_ms'', ''p99_latency_ms'', ''stale_responses'']"
    unfolding printHeader_def by (rule fields_join) (simp_all add: tab_def char_of_def bit_simps)
  show ?thesis unfolding column_def row header by (simp add: stats_columns_def undecimal_decimal format2_close)
qed

end
