(* ===== verification/Kv_Commands.thy ===== *)
theory Kv_Commands
  imports File_Shard_Map Client_Pool Shard_Map_Conc
begin

text \<open>
  The programs around the key-value store: the command-line client (\<open>lab4/cmd/client/client.go\<close>), the entry point of a
  node (\<open>lab4/cmd/server/server.go\<close>), and the set-up of logging (\<open>lab4/logging/logging.go\<close>). The calls of the store are
  the students' to implement and are arguments; so are opening files, listening and serving.
\<close>

subsection \<open>Logging\<close>

datatype log_level = ErrorLevel | WarnLevel | InfoLevel | DebugLevel | TraceLevel

text \<open>The levels are ordered from the most severe to the most verbose.\<close>

primrec level_rank :: "log_level \<Rightarrow> nat" where
  "level_rank ErrorLevel = 0" | "level_rank WarnLevel = 1" | "level_rank InfoLevel = 2"
| "level_rank DebugLevel = 3" | "level_rank TraceLevel = 4"

instantiation log_level :: linorder
begin

definition less_eq_log_level :: "log_level \<Rightarrow> log_level \<Rightarrow> bool" where
  "less_eq_log_level a b \<longleftrightarrow> level_rank a \<le> level_rank b"

definition less_log_level :: "log_level \<Rightarrow> log_level \<Rightarrow> bool" where
  "less_log_level a b \<longleftrightarrow> level_rank a < level_rank b"

instance
proof
  fix a b :: log_level
  show "a \<le> b \<Longrightarrow> b \<le> a \<Longrightarrow> a = b" by (cases a; cases b; simp add: less_eq_log_level_def)
qed (auto simp: less_eq_log_level_def less_log_level_def)

end

record logger =
  lr_level :: log_level
  lr_file :: "string option"

definition ToLower :: "string \<Rightarrow> string" where
  "ToLower s = map (\<lambda>c. if 65 \<le> (of_char c :: nat) \<and> (of_char c :: nat) \<le> 90 then char_of ((of_char c :: nat) + 32) else c) s"

definition named_level :: "string \<Rightarrow> log_level option" where
  "named_level name =
     (if name = ''error'' then Some ErrorLevel
      else if name = ''warn'' then Some WarnLevel
      else if name = ''info'' then Some InfoLevel
      else if name = ''debug'' then Some DebugLevel
      else if name = ''trace'' then Some TraceLevel
      else None)"

text \<open>\<open>opens\<close> tells whether the log file can be opened.\<close>

definition InitLogging :: "string \<Rightarrow> string \<Rightarrow> (string \<Rightarrow> bool) \<Rightarrow> logger \<Rightarrow> logger go" where
  "InitLogging logLevel logFile opens lr =
     (let lr1 = (case named_level (ToLower logLevel) of Some l \<Rightarrow> lr\<lparr>lr_level := l\<rparr> | None \<Rightarrow> lr)
      in if logFile \<noteq> []
         then if opens logFile then Ret (lr1\<lparr>lr_file := Some logFile\<rparr>) else Fatal ''failed to open log file''
         else Ret lr1)"

text \<open>An entry is printed when its level is at least as severe as the logger's.\<close>

definition printed_at :: "logger \<Rightarrow> log_level \<Rightarrow> bool" where
  "printed_at lr l \<longleftrightarrow> l \<le> lr_level lr"

subsection \<open>The client\<close>

definition is_dec :: "char \<Rightarrow> bool" where
  "is_dec c \<longleftrightarrow> 48 \<le> (of_char c :: nat) \<and> (of_char c :: nat) \<le> 57"

text \<open>\<open>strconv.ParseInt(s, 10, 64)\<close>: an optional sign, digits, and a value that fits.\<close>

definition ParseInt :: "string \<Rightarrow> int option" where
  "ParseInt s =
     (let neg = (s \<noteq> [] \<and> hd s = CHR ''-'');
          ds = (if s \<noteq> [] \<and> (hd s = CHR ''-'' \<or> hd s = CHR ''+'') then tl s else s);
          n = (if neg then - int (undecimal ds) else int (undecimal ds))
      in if ds \<noteq> [] \<and> list_all is_dec ds \<and> - (2 ^ 63) \<le> n \<and> n < 2 ^ 63 then Some n else None)"

text \<open>\<open>time.Duration(ttlMs) * time.Millisecond\<close>: nanoseconds as a 64-bit integer.\<close>

definition ttl_ns :: "int \<Rightarrow> 64 word" where
  "ttl_ns ttlMs = of_int ttlMs * 1000000"

datatype cli_output = Value string | NoValue | LoggedError string | Quiet

record kv_ops =
  op_Get :: "string \<Rightarrow> (string \<times> bool \<times> string option) go"
  op_Set :: "string \<Rightarrow> string \<Rightarrow> 64 word \<Rightarrow> string option go"
  op_Delete :: "string \<Rightarrow> string option go"

definition usage :: "'a go" where
  "usage = Fatal ''Usage: client.go [get|set|delete] key [value] [ttl]''"

definition log_error :: "string option \<Rightarrow> cli_output go" where
  "log_error err = Ret (case err of None \<Rightarrow> Quiet | Some e \<Rightarrow> LoggedError e)"

definition client_main :: "fs_env \<Rightarrow> reading \<Rightarrow> (FileShardMap \<Rightarrow> kv_ops) \<Rightarrow> string \<Rightarrow> string list \<Rightarrow> cli_output go" where
  "client_main env readFile kv shardMapFile args =
     (if length args < 2 then usage
      else case WatchShardMapFile env readFile shardMapFile of
             Inl err \<Rightarrow> Fatal err
           | Inr fileSm \<Rightarrow>
               (let client = kv fileSm; subcommand = args ! 0; key = args ! 1
                in if subcommand = ''get'' then
                     go_bind (op_Get client key) (\<lambda>(value, isSet, err).
                       case err of Some e \<Rightarrow> Ret (LoggedError e)
                       | None \<Rightarrow> Ret (if \<not> isSet then NoValue else Value value))
                   else if subcommand = ''set'' then
                     (if length args < 4 then usage
                      else case ParseInt (args ! 3) of
                             None \<Rightarrow> Fatal ''expected int value for ttlMs''
                           | Some ttlMs \<Rightarrow> go_bind (op_Set client key (args ! 2) (ttl_ns ttlMs)) log_error)
                   else if subcommand = ''delete'' then go_bind (op_Delete client key) log_error
                   else usage))"

subsection \<open>A node\<close>

text \<open>What a started node is: its address to listen on, the server, and the shard map with its listener.\<close>

record node =
  nd_port :: int
  nd_server :: KvServerImpl
  nd_shardMap :: ShardMap

definition server_main :: "fs_env \<Rightarrow> reading \<Rightarrow> (int \<Rightarrow> string option) \<Rightarrow> chan_id \<Rightarrow> string \<Rightarrow> string \<Rightarrow> node go" where
  "server_main env readFile listen ch shardMapFile name =
     (if shardMapFile = [] \<or> name = [] then Fatal ''--shardmap and --node are required''
      else case WatchShardMapFile env readFile shardMapFile of
             Inl err \<Rightarrow> Fatal err
           | Inr fileSm \<Rightarrow>
               go_bind (sm_Nodes (fsm_ShardMap fileSm)) (\<lambda>nodes.
                 case gm_get nodes name of
                   None \<Rightarrow> Fatal ''node not found in shard map''
                 | Some nodeInfo \<Rightarrow>
                     (case listen (sint (Port nodeInfo)) of
                        Some err \<Rightarrow> Fatal err
                      | None \<Rightarrow>
                          (let (server, sm) = MakeKvServer name ch (fsm_ShardMap fileSm)
                           in Ret \<lparr>nd_port = sint (Port nodeInfo), nd_server = server, nd_shardMap = sm\<rparr>))))"

subsection \<open>Lifetimes\<close>

lemma decimal_is_dec: "list_all is_dec (decimal n)"
proof (induction n rule: decimal.induct)
  case (1 n)
  have "is_dec (char_of (48 + n mod 10))" "n < 10 \<Longrightarrow> is_dec (char_of (48 + n))" by (simp_all add: is_dec_def)
  then show ?case using 1 by (subst decimal.simps) simp
qed

lemma ParseInt_decimal:
  assumes "int n < 2 ^ 63"
  shows "ParseInt (decimal n) = Some (int n)" "ParseInt (CHR ''-'' # decimal n) = Some (- int n)"
proof -
  have "hd (decimal n) \<noteq> CHR ''-''" "hd (decimal n) \<noteq> CHR ''+''"
    using decimal_is_dec [of n] by (cases "decimal n"; auto simp: is_dec_def)+
  then show "ParseInt (decimal n) = Some (int n)" "ParseInt (CHR ''-'' # decimal n) = Some (- int n)"
    using assms by (simp_all add: ParseInt_def Let_def decimal_is_dec undecimal_decimal)
qed

text \<open>The lifetime is exact as long as it fits into 64 bits of nanoseconds.\<close>

lemma ttl_ns_exact:
  assumes "\<bar>ttlMs\<bar> \<le> 9223372036854"
  shows "sint (ttl_ns ttlMs) = ttlMs * 1000000"
proof -
  have "ttl_ns ttlMs = of_int (ttlMs * 1000000)" by (simp add: ttl_ns_def)
  moreover have "signed_take_bit 63 (ttlMs * 1000000) = ttlMs * 1000000"
    by (rule signed_take_bit_int_eq_self) (use assms in auto)
  ultimately show ?thesis by (simp only: signed_of_int) simp
qed

subsection \<open>Starting a node\<close>

text \<open>What a node needs to start: both flags, a watched directory, a file that can be read and decoded to a state \<open>st\<close>, its own entry
  \<open>info\<close> in that state, and a free port.\<close>

definition startable :: "fs_env \<Rightarrow> reading \<Rightarrow> (int \<Rightarrow> string option) \<Rightarrow> string \<Rightarrow> string \<Rightarrow> ShardMapState \<Rightarrow> NodeInfo \<Rightarrow> bool" where
  "startable env rd listen file name st info \<longleftrightarrow> file \<noteq> [] \<and> name \<noteq> [] \<and> NewWatcher_err env = None \<and>
     Watcher_Add_err env (filepath_Dir env file) = None \<and> decoded env file (WEvent file 0 rd) = Some st \<and>
     gm_get (Nodes st) name = Some info \<and> listen (sint (Port info)) = None"

lemma WatchShardMapFile_loaded:
  "WatchShardMapFile env rd file = Inr f \<longleftrightarrow> NewWatcher_err env = None \<and> Watcher_Add_err env (filepath_Dir env file) = None \<and>
     (\<exists>st. decoded env file (WEvent file 0 rd) = Some st \<and>
        f = \<lparr>fsm_ShardMap = sm_Swap st zero_ShardMap, fsm_filename = file, fsm_done = None\<rparr>)"
  by (auto simp: WatchShardMapFile_def applyFromFile_def decoded_def Let_def split: option.splits sum.splits)

text \<open>The node as it starts: its listener is the first one of the shard map.\<close>

definition started_node :: "chan_id \<Rightarrow> string \<Rightarrow> ShardMapState \<Rightarrow> NodeInfo \<Rightarrow> node" where
  "started_node ch name st info =
     \<lparr>nd_port = sint (Port info), nd_server = \<lparr>nodeName = name, srv_listener = \<lparr>l_ch = ch, l_id = 0\<rparr>, srv_running = True\<rparr>,
      nd_shardMap = \<lparr>sm_state = Some st, updateChannels = [(0, ch)], updateChannelCounter = 1\<rparr>\<rparr>"

lemma server_main_startable:
  assumes "startable env rd listen file name st info"
  shows "server_main env rd listen ch file name = Ret (started_node ch name st info)"
proof -
  let ?f = "\<lparr>fsm_ShardMap = sm_Swap st zero_ShardMap, fsm_filename = file, fsm_done = None\<rparr>"
  have "WatchShardMapFile env rd file = Inr ?f" unfolding WatchShardMapFile_loaded using assms by (simp add: startable_def)
  then have "server_main env rd listen ch file name =
      (let (server, sm) = MakeKvServer name ch (sm_Swap st zero_ShardMap) in Ret \<lparr>nd_port = sint (Port info), nd_server = server, nd_shardMap = sm\<rparr>)"
    using assms by (simp add: startable_def server_main_def sm_Nodes_def GetState_def sm_Swap_def)
  then show ?thesis
    by (simp add: MakeKvServer_def MakeListener_def handleShardMapUpdate_def zero_ShardMap_def sm_Swap_def started_node_def Let_def)
qed

lemma server_main_fails:
  assumes "\<nexists>st info. startable env rd listen file name st info"
  shows "\<exists>e. server_main env rd listen ch file name = Fatal e"
proof (cases "file = [] \<or> name = []")
  case False
  show ?thesis
  proof (cases "WatchShardMapFile env rd file")
    case (Inr f)
    then obtain st where st: "NewWatcher_err env = None" "Watcher_Add_err env (filepath_Dir env file) = None"
      "decoded env file (WEvent file 0 rd) = Some st" "f = \<lparr>fsm_ShardMap = sm_Swap st zero_ShardMap, fsm_filename = file, fsm_done = None\<rparr>"
      unfolding WatchShardMapFile_loaded by blast
    then have "sm_Nodes (fsm_ShardMap f) = Ret (Nodes st)" by (simp add: sm_Nodes_def GetState_def sm_Swap_def)
    moreover have "gm_get (Nodes st) name = None \<or> (\<exists>info e. gm_get (Nodes st) name = Some info \<and> listen (sint (Port info)) = Some e)"
      using assms False st by (cases "gm_get (Nodes st) name") (auto simp: startable_def)
    ultimately show ?thesis using False Inr by (auto simp: server_main_def)
  qed (use False in \<open>simp add: server_main_def\<close>)
qed (simp add: server_main_def)

lemma server_main_unknown:
  assumes "file \<noteq> []" "name \<noteq> []" "WatchShardMapFile env rd file = Inr f" "decoded env file (WEvent file 0 rd) = Some st" "gm_get (Nodes st) name = None"
  shows "server_main env rd listen ch file name = Fatal ''node not found in shard map''"
proof -
  have "fsm_ShardMap f = sm_Swap st zero_ShardMap" using assms(3,4) unfolding WatchShardMapFile_loaded by auto
  then show ?thesis using assms(1-3,5) by (simp add: server_main_def sm_Nodes_def GetState_def sm_Swap_def)
qed

text \<open>Watching the file changes the state of the shard map only.\<close>

lemma watch_keeps_channels: "updateChannels (fsm_ShardMap (snd (watchForUpdates env ins f))) = updateChannels (fsm_ShardMap f)"
proof (induction env ins f rule: watchForUpdates.induct)
  case (2 env name evop rd ins f)
  have "updateChannels (fsm_ShardMap (watch_event env name evop rd f)) = updateChannels (fsm_ShardMap f)"
    by (auto simp: watch_event_def applyFromFile_def sm_Swap_def split: sum.split)
  then show ?case using 2 by simp
qed auto

lemma node_watches:
  assumes "f' = snd (watchForUpdates env ins \<lparr>fsm_ShardMap = nd_shardMap (started_node ch name st info), fsm_filename = file, fsm_done = None\<rparr>)"
  shows "updateChannels (fsm_ShardMap f') = [(0, ch)]" "GetState (fsm_ShardMap f') = Ret (last (st # good_states env file ins))"
proof -
  let ?f = "\<lparr>fsm_ShardMap = nd_shardMap (started_node ch name st info), fsm_filename = file, fsm_done = None\<rparr>"
  show "updateChannels (fsm_ShardMap f') = [(0, ch)]" by (simp add: assms watch_keeps_channels started_node_def)
  have "sm_state (fsm_ShardMap f') = last (Some st # map Some (good_states env file ins))"
    using watch_nil_done [of ?f env ins] by (simp add: assms started_node_def)
  also have "\<dots> = Some (last (st # good_states env file ins))" by (metis last_map list.distinct(1) list.simps(9))
  finally show "GetState (fsm_ShardMap f') = Ret (last (st # good_states env file ins))" by (simp add: GetState_def)
qed

subsection \<open>Properties\<close>

text \<open>C36: When a node starts, and what becomes of it. It starts exactly if both flags are given, the shard map file can be watched, read and
  decoded, the file names the node, and its port is free; in every other case the process exits with an error, it never panics or
  blocks, and without the flags or without an entry for the node the error says so. A node that starts listens on the port which the file
  gives for it, serves under its own name, and is running; after whatever happens to the file later, the shard map holds the last
  content that could be loaded, and the channel of the node's listener is registered, so that it gets the signal of each update.\<close>

theorem server_main_starts:
  "((\<exists>nd. server_main env rd listen ch file name = Ret nd) \<longleftrightarrow> (\<exists>st info. startable env rd listen file name st info)) \<and>
   ((\<exists>e. server_main env rd listen ch file name = Fatal e) \<longleftrightarrow> (\<nexists>st info. startable env rd listen file name st info)) \<and>
   (file = [] \<or> name = [] \<longrightarrow> server_main env rd listen ch file name = Fatal ''--shardmap and --node are required'') \<and>
   (file \<noteq> [] \<and> name \<noteq> [] \<and> WatchShardMapFile env rd file = Inr f \<and> decoded env file (WEvent file 0 rd) = Some st \<and> gm_get (Nodes st) name = None \<longrightarrow>
      server_main env rd listen ch file name = Fatal ''node not found in shard map'') \<and>
   (server_main env rd listen ch file name = Ret nd \<and> startable env rd listen file name st info \<and>
      f' = snd (watchForUpdates env ins \<lparr>fsm_ShardMap = nd_shardMap nd, fsm_filename = file, fsm_done = None\<rparr>) \<longrightarrow>
      nd_port nd = sint (Port info) \<and> nodeName (nd_server nd) = name \<and> srv_running (nd_server nd) \<and>
      GetState (fsm_ShardMap f') = Ret (last (st # good_states env file ins)) \<and>
      gm_get (updateChannels (fsm_ShardMap f')) (l_id (srv_listener (nd_server nd))) = Some (UpdateChannel (srv_listener (nd_server nd))))"
proof (intro conjI)
  show "(\<exists>nd. server_main env rd listen ch file name = Ret nd) \<longleftrightarrow> (\<exists>st info. startable env rd listen file name st info)"
    "(\<exists>e. server_main env rd listen ch file name = Fatal e) \<longleftrightarrow> (\<nexists>st info. startable env rd listen file name st info)"
    using server_main_startable server_main_fails by (metis go.distinct(3))+
  show "file = [] \<or> name = [] \<longrightarrow> server_main env rd listen ch file name = Fatal ''--shardmap and --node are required''"
    by (auto simp: server_main_def)
  show "file \<noteq> [] \<and> name \<noteq> [] \<and> WatchShardMapFile env rd file = Inr f \<and> decoded env file (WEvent file 0 rd) = Some st \<and>
      gm_get (Nodes st) name = None \<longrightarrow> server_main env rd listen ch file name = Fatal ''node not found in shard map''"
    using server_main_unknown by blast
  show "server_main env rd listen ch file name = Ret nd \<and> startable env rd listen file name st info \<and>
      f' = snd (watchForUpdates env ins \<lparr>fsm_ShardMap = nd_shardMap nd, fsm_filename = file, fsm_done = None\<rparr>) \<longrightarrow>
      nd_port nd = sint (Port info) \<and> nodeName (nd_server nd) = name \<and> srv_running (nd_server nd) \<and>
      GetState (fsm_ShardMap f') = Ret (last (st # good_states env file ins)) \<and>
      gm_get (updateChannels (fsm_ShardMap f')) (l_id (srv_listener (nd_server nd))) = Some (UpdateChannel (srv_listener (nd_server nd)))"
  proof (intro impI, elim conjE)
    assume nd: "server_main env rd listen ch file name = Ret nd" and ok: "startable env rd listen file name st info"
      and f': "f' = snd (watchForUpdates env ins \<lparr>fsm_ShardMap = nd_shardMap nd, fsm_filename = file, fsm_done = None\<rparr>)"
    have eq: "nd = started_node ch name st info" using nd server_main_startable [OF ok] by simp
    from node_watches [OF f' [unfolded eq]] show "nd_port nd = sint (Port info) \<and> nodeName (nd_server nd) = name \<and>
      srv_running (nd_server nd) \<and> GetState (fsm_ShardMap f') = Ret (last (st # good_states env file ins)) \<and>
      gm_get (updateChannels (fsm_ShardMap f')) (l_id (srv_listener (nd_server nd))) = Some (UpdateChannel (srv_listener (nd_server nd)))"
      unfolding eq by (simp add: started_node_def UpdateChannel_def)
  qed
qed

text \<open>The client's \<open>set key value ttl\<close> with a decimal lifetime stores the value with exactly that many milliseconds, up to the
  9223372036854 that fit into 64 bits of nanoseconds; a negative one is passed on as it is. Fewer than two
  arguments, a missing lifetime and an unknown command end the program without touching the store.\<close>

theorem client_main_set:
  assumes "WatchShardMapFile env readFile file = Inr fileSm" "n \<le> 9223372036854"
  shows "client_main env readFile kv file [''set'', key, val, decimal n] = go_bind (op_Set (kv fileSm) key val (ttl_ns (int n))) log_error \<and>
    client_main env readFile kv file [''set'', key, val, CHR ''-'' # decimal n] = go_bind (op_Set (kv fileSm) key val (ttl_ns (- int n))) log_error \<and>
    sint (ttl_ns (int n)) = int n * 1000000 \<and> sint (ttl_ns (- int n)) = - int n * 1000000 \<and>
    client_main env readFile kv file [''set'', key, val] = usage \<and>
    (length args < 2 \<longrightarrow> client_main env readFile kv file args = usage) \<and>
    (cmd \<notin> {''get'', ''set'', ''delete''} \<longrightarrow> client_main env readFile kv file (cmd # key # args) = usage)"
  using assms ParseInt_decimal [of n] ttl_ns_exact [of "int n"] ttl_ns_exact [of "- int n"]
  by (simp add: client_main_def Let_def)

theorem server_main_starts_witness:
  "\<exists>info nd. startable env0 file_ok (\<lambda>_. None) ''m.json'' ''n1'' example_state info \<and>
     server_main env0 file_ok (\<lambda>_. None) 3 ''m.json'' ''n1'' = Ret nd \<and> nd_port nd = sint (Port info) \<and>
     GetState (fsm_ShardMap (snd (watchForUpdates env0 [WEvent ''m.json'' 2 file_bad]
       \<lparr>fsm_ShardMap = nd_shardMap nd, fsm_filename = ''m.json'', fsm_done = None\<rparr>))) = Ret example_state"
proof -
  obtain info where "gm_get (Nodes example_state) ''n1'' = Some info" using example_map_node(2) by blast
  then have ok: "startable env0 file_ok (\<lambda>_. None) ''m.json'' ''n1'' example_state info"
    by (simp add: startable_def env0_def decoded_def file_ok_def)
  then obtain nd where nd: "server_main env0 file_ok (\<lambda>_. None) 3 ''m.json'' ''n1'' = Ret nd" using server_main_startable by blast
  have "good_states env0 ''m.json'' [WEvent ''m.json'' 2 file_bad] = []"
    by (simp add: good_states_def List.map_filter_def decoded_def env0_def file_bad_def)
  then show ?thesis
    using server_main_starts [of env0 file_ok "\<lambda>_. None" 3 "''m.json''" "''n1''" file0 example_state nd info _ "[WEvent ''m.json'' 2 file_bad]"] nd ok
    by auto
qed

theorem client_main_set_witness:
  "client_main env0 file_ok (\<lambda>_. \<lparr>op_Get = \<lambda>k. Hang, op_Set = \<lambda>k v t. Ret (if sint t = 5000000000 then None else Some ''ttl''), op_Delete = \<lambda>k. Hang\<rparr>)
     ''m.json'' [''set'', ''abc'', ''123'', decimal 5000] = Ret Quiet"
  using client_main_set [OF Watch_env0, of 5000] by (simp add: log_error_def)

end
