(* ===== verification/Spec2Isabelle.thy ===== *)
theory Spec2Isabelle
  imports Test_Workflows Stress_Report Shard_Map_Delivery Test_Clusters Labgob Raft_Agreement Raft_Names Lab1_Servers Lab1_Stats Kv_Commands
begin

text \<open>
  Verification of the labs of a distributed-systems course (Go, under \<open>src/lab1\<close>, \<open>src/lab2\<close>, \<open>src/lab4\<close>).
  The repository holds the infrastructure of the labs: services and hashes, a simulated network with a
  tester for Raft, and the shard map, client pool, tester and checker of a sharded key-value store. What the
  students write is left out of it: those functions are empty, panic, or answer "unimplemented", and the model has them
  that way.

  \<^bold>\<open>How Go is modelled\<close> (\<open>Lab_Prelude\<close>). The outcome of a call is a value of \<open>'a go\<close>: \<open>Ret\<close>, \<open>Panic\<close>, \<open>Fatal\<close>
  (\<open>log.Fatal\<close> or \<open>t.Fatal\<close>) or \<open>Hang\<close> (blocked for ever); \<open>go_bind\<close> sequences them. A Go map is an association
  list \<open>('k, 'v) gomap\<close>, so that iteration has an order; theorems that must not depend on that order say so. A pair of
  a value and an error is a pair of options or a sum. Unsigned integers are words of their width; Go's
  \<open>int\<close> is \<open>int\<close> where it counts or indexes, and a word where a product or a conversion can
  overflow. Random sources are streams \<open>rng\<close> of natural numbers. Concurrency is a step relation over a record of
  the shared state and the position of every thread: \<open>reach\<close>, \<open>trace\<close> and the locales \<open>inv_system\<close> (invariants of reachable
  states), \<open>simulation\<close> and \<open>labelled_simulation\<close> (refinement) are shared by all of them. Code outside the repository (gRPC,
  fsnotify, the JSON decoder, encoding/gob, reflection, Blowfish, gofakeit, the listening socket) is an argument
  of the definitions that use it.

  \<^bold>\<open>Lab 4, the sharded key-value store.\<close>
  \<^item> \<open>Fnv_Hash\<close>: \<open>kv/util.go\<close> (\<open>GetShardForKey\<close>) and the front end's \<open>getUserId\<close>, over FNV-1.
  \<^item> \<open>Shard_Map\<close>: \<open>kv/shardmap.go\<close>. \<open>ShardMapState\<close>, \<open>IsValid\<close> as its two loops and equal to a loop-free specification,
    the lookups in both directions as an interface (locale \<open>shard_directory\<close>), listeners.
  \<^item> \<open>Shard_Map_Conc\<close>: the same file under concurrency with the listener loop and \<open>Shutdown\<close> of \<open>kv/server.go\<close>: \<open>cstep\<close> has one
    rule per atomic action (swap, lock, send, unlock, register, close, receive, shut down). Updates signal every
    registered channel once and never a closed one; and the deadlock of an update with a server that shuts down. A second \<open>Close\<close> of a
    listener panics.
  \<^item> \<open>Shard_Map_Delivery\<close>: these runs with a history, in which states are numbered: in every history, when an update has signalled everybody, each listener
    has received while its state or a later one was in place.
  \<^item> \<open>File_Shard_Map\<close>: \<open>kv/file_shardmap.go\<close>. The watched map always holds the last good content; its \<open>Shutdown\<close> never returns.
  \<^item> \<open>Client_Pool\<close>: \<open>kv/clientpool.go\<close>, \<open>kv/test/test_clientpool.go\<close>, \<open>kv/client.go\<close>. The interface \<open>ClientPool\<close> is the
    locale \<open>client_pool\<close>, interpreted on the gRPC pool and on the pool of the tests; \<open>gp_step\<close> interleaves
    callers of \<open>GetClient\<close> and shows that a node gets one client.
  \<^item> \<open>Checker\<close>, \<open>Stress_Tester\<close>, \<open>Stress_Run\<close>: \<open>checker/checker.go\<close> and \<open>cmd/stress/tester.go\<close>. \<open>wstep\<close> interleaves requests with
    a store that applies writes at some moment within them and lets values expire: no false alarm while every write succeeds,
    what is detected, and exactly how long a failed first write makes the checker report correct answers. \<open>run_step\<close> is the surrounding machinery:
    the two loops, the semaphore, the wait group, and the printed numbers.
  \<^item> \<open>Stress_Report\<close>: the flags and the start of the tester, and \<open>stress_step\<close>, which counts each request of \<open>wstep\<close> when it completes: the
    printed integers add up, and report only correct responses when no \<open>Set\<close> has failed.
  \<^item> \<open>Kv_Commands\<close>: \<open>logging/logging.go\<close>, \<open>cmd/client/client.go\<close>, \<open>cmd/server/server.go\<close>. Exactly when a node starts and
    what it keeps while the file changes.
  \<^item> \<open>Test_Setup\<close>, \<open>Test_Clusters\<close>: \<open>kv/test/test_setup.go\<close>: moving, draining and dropping shards with \<open>rand.Perm\<close>, and the fixed and
    random clusters, all of them valid. The loops that draw until they succeed are partial functions
    into \<open>option\<close>; they are proved to end for random sources that produce every residue again and again (\<open>fair\<close>).
  \<^item> \<open>Test_Workflows\<close>: sequences of these changes. \<open>place_step\<close> is the abstract specification, steps on the set of hosts of each shard; every workflow,
    on its error paths too, refines the step of the same workflow and outcome (an interpretation of \<open>labelled_simulation\<close>) and keeps the map valid.

  \<^bold>\<open>Lab 2, Raft's test bed.\<close>
  \<^item> \<open>Labgob\<close>: \<open>labgob/labgob.go\<close>: the walk over a (possibly recursive) type, as a work list whose termination is that every visit marks one
    more type or shortens the list, and the check for default values to depth three.
  \<^item> \<open>Labrpc\<close>: \<open>labrpc/labrpc.go\<close>: servers live in a store by address, so that a server which replaces another under
    the same name is distinguished. A call gets a positive answer only from the server registered all
    along; on a reliable network it returns the method's reply; and when a request returns at all and after how long, polls and handler included.
  \<^item> \<open>Raft_Peer\<close>: \<open>raft/persister.go\<close> (locale \<open>persistence\<close>) and the skeleton in \<open>raft/raft.go\<close>.
  \<^item> \<open>Raft_Config\<close>, \<open>Raft_Checks\<close>, \<open>Raft_Agreement\<close>: \<open>raft/config.go\<close>. \<open>cfg_step\<close> is what a test can do to a cluster: start, crash, connect,
    disconnect, persist. Its invariant ties the network's enabled ends to the connected servers and isolates old
    instances. The checks: leaders, terms, \<open>nCommitted\<close>, \<open>wait\<close> (at most 30.71 seconds of sleep in its 30 rounds), \<open>one\<close>. The applier's bookkeeping
    refines an abstract system in which all servers apply prefixes of one sequence of commands.
  \<^item> \<open>Raft_Names\<close>: \<open>randstring\<close> and \<open>makeSeed\<close> of \<open>raft/config.go\<close>. Names made from different random bytes are different, which is what the
    set-up of a cluster needs.

  \<^bold>\<open>Lab 1, video recommendations.\<close>
  \<^item> \<open>Base64\<close>, \<open>Det_Bcrypt\<close>: \<open>det_bcrypt/det_bcrypt.go\<close>: round trips of the encoding and of the printed hash, generation followed by
    comparison, and the inputs on which the code fails.
  \<^item> \<open>Ranker\<close>: \<open>ranker/ranker.go\<close>, the wrapped dot product.
  \<^item> \<open>Failure_Injection\<close>, \<open>Video_Service\<close>, \<open>User_Service\<close>: \<open>failure_injection\<close>, \<open>video_service\<close>, \<open>user_service\<close> with their mock clients: the random data
    bases made from a seed, the handlers and each of their errors.
  \<^item> \<open>Lab1_Clients\<close>, \<open>Lab1_Servers\<close>: the recommendation service's skeleton, \<open>cmd/frontend\<close>, \<open>cmd/loadgen\<close> (its counters as a step relation \<open>lg_step\<close> of atomic
    additions), and the three server programs with their flags.
  \<^item> \<open>Lab1_Stats\<close>: \<open>cmd/stats/stats.go\<close>, the table it prints and what can be read back from a line.

  This theory has the properties that span the key-value components. \<open>key_routing\<close> composes file watching,
  validity, hashing, lookups and the client pool; \<open>default_deployment_serves\<close> in \<open>Lab1_Servers\<close> does the same for lab 1,
  and \<open>server_main_starts\<close> in \<open>Kv_Commands\<close> for the start of a node.

  \<^bold>\<open>Bounds.\<close> No definition has fuel. Loops limited by the clock in the source (\<open>one\<close>, \<open>wait\<close>, \<open>stressLoop\<close>) take the list of what they observe in
  each round, or end at any moment; unlimited loops take the list of their inputs. Counters are words of 64 bits, and
  theorems that read them as numbers assume fewer than \<open>2 ^ 64\<close> requests.

  \<^bold>\<open>Not modelled.\<close> \<open>lab0\<close> and the exercise bodies of lab 1, 2 and 4 (there is no code). Generated protobuf code. The
  cipher itself. Rate limiting and other real-time behaviour: which step comes first is left open instead.
  Percentages and averages that \<open>cmd/loadgen\<close> and \<open>cmd/stress\<close> compute in floating point, the texts of most log messages and of \<open>String\<close> and
  \<open>Error\<close> methods, and \<open>raft/util.go\<close> (printing only). Locks that are released before every return are not part of
  sequential states.
\<close>

section \<open>Properties that span components\<close>

text \<open>A state that can serve every key: valid, with at least one shard, and a node for each shard.\<close>

definition serving :: "ShardMapState \<Rightarrow> bool" where
  "serving st \<longleftrightarrow> IsValid st \<and> state_wf st \<and> 0 < NumShards st \<and>
     list_all (\<lambda>shard. nodes_for_shard st shard \<noteq> []) [1..NumShards st]"

lemma lookups_of_state:
  assumes "GetState sm = Ret st"
  shows "sm_NumShards sm = Ret (NumShards st)" "NodesForShard sm shard = Ret (nodes_for_shard st shard)"
    "ShardsForNode sm node = Ret (shards_for_node st node)" "sm_Nodes sm = Ret (Nodes st)"
  by (simp_all add: assms sm_NumShards_def NodesForShard_def ShardsForNode_def sm_Nodes_def)

text \<open>A pool that has no client yet dials the address and the port of a known node and keeps the client.\<close>

lemma first_GetClient:
  assumes "GetState sm = Ret st" "gm_get (Nodes st) node = Some ni"
    and "dial (Address ni @ '':'' @ sint_decimal (Port ni)) = Inr ch"
  shows "GetClient dial nc node (MakeClientPool sm) =
    Ret ((Some (nc ch), None), \<lparr>pool_shardMap = sm, pool_clients = [(node, nc ch)]\<rparr>)"
  using assms(3)
  by (simp add: GetClient_def get_client_locked_def MakeClientPool_def lookups_of_state [OF assms(1)] assms(2) makeConnection_def)

lemma serving_route:
  assumes "serving st"
  obtains shard where "GetShardForKey key (NumShards st) = Ret shard" "nodes_for_shard st shard \<noteq> []"
    "distinct (nodes_for_shard st shard)"
    "\<And>node. node \<in> set (nodes_for_shard st shard) \<Longrightarrow> shard \<in> set (shards_for_node st node) \<and> gm_get (Nodes st) node \<noteq> None"
proof -
  have st: "IsValid st" "state_wf st" "0 < NumShards st" using assms(1) by (simp_all add: serving_def)
  obtain shard where shard: "GetShardForKey key (NumShards st) = Ret shard" "1 \<le> shard" "shard \<le> NumShards st"
    using GetShardForKey_range [OF st(3)] by blast
  have "nodes_for_shard st shard \<noteq> []" using assms(1) shard(2,3) by (simp add: serving_def list_all_iff)
  moreover have "shard \<in> set (shards_for_node st node) \<and> gm_get (Nodes st) node \<noteq> None"
    if "node \<in> set (nodes_for_shard st shard)" for node
    using that IsValid_nodes_for_shard(2) [OF st(1,2)] shards_for_node_dual [of st shard node] st(2)
    by (auto simp: state_wf_def map_of_eq_None_iff)
  ultimately show ?thesis using that [OF shard(1)] IsValid_nodes_for_shard(1) [OF st(1,2)] by blast
qed

text \<open>C6: Every key can be served. A client watches a shard map file of which every content that could be loaded is able to
  serve, and dialling works. Then after whatever happened to the file, the lookups give for every key a shard, for
  that shard at least one node and no node twice; each of these nodes hosts the shard, and the client pool connects
  to the address and port which the state in force gives for the node, and hands out the same client again.\<close>

theorem key_routing:
  assumes "WatchShardMapFile env rd filename = Inr f" "watchForUpdates env ins f = (ended, f')"
    and "\<forall>st \<in> set (good_states env filename ins). serving st"
    and "\<forall>st. decoded env filename (WEvent filename 0 rd) = Some st \<longrightarrow> serving st"
    and "\<forall>addr. \<exists>ch. dial addr = Inr ch"
  shows "\<exists>st shard. GetState (fsm_ShardMap f') = Ret st \<and>
    go_bind (sm_NumShards (fsm_ShardMap f')) (GetShardForKey key) = Ret shard \<and>
    nodes_for_shard st shard \<noteq> [] \<and> distinct (nodes_for_shard st shard) \<and>
    NodesForShard (fsm_ShardMap f') shard = Ret (nodes_for_shard st shard) \<and>
    (\<forall>node \<in> set (nodes_for_shard st shard). shard \<in> set (shards_for_node st node) \<and>
      (\<exists>ni ch pool. gm_get (Nodes st) node = Some ni \<and> dial (Address ni @ '':'' @ sint_decimal (Port ni)) = Inr ch \<and>
        GetClient dial newClient node (MakeClientPool (fsm_ShardMap f')) = Ret ((Some (newClient ch), None), pool) \<and>
        GetClient dial newClient node pool = Ret ((Some (newClient ch), None), pool)))"
proof -
  let ?sm = "fsm_ShardMap f'"
  obtain data st0 where st0: "rd filename = Inr data" "json_Unmarshal env data = Inr st0"
    and st: "GetState ?sm = Ret (last (st0 # good_states env filename ins))"
    using watched_state [OF assms(1,2)] by blast
  let ?st = "last (st0 # good_states env filename ins)"
  have "serving st0" using assms(4) st0 by (simp add: decoded_def)
  then have "serving ?st" using assms(3) last_in_set [of "good_states env filename ins"] by auto
  from serving_route [OF this, of key] obtain shard where shard: "GetShardForKey key (NumShards ?st) = Ret shard"
    "nodes_for_shard ?st shard \<noteq> []" "distinct (nodes_for_shard ?st shard)"
    and node: "\<And>node. node \<in> set (nodes_for_shard ?st shard) \<Longrightarrow>
      shard \<in> set (shards_for_node ?st node) \<and> gm_get (Nodes ?st) node \<noteq> None" by metis
  have "\<exists>ni ch pool. gm_get (Nodes ?st) n = Some ni \<and> dial (Address ni @ '':'' @ sint_decimal (Port ni)) = Inr ch \<and>
      GetClient dial newClient n (MakeClientPool ?sm) = Ret ((Some (newClient ch), None), pool) \<and>
      GetClient dial newClient n pool = Ret ((Some (newClient ch), None), pool)" if n: "n \<in> set (nodes_for_shard ?st shard)" for n
  proof -
    obtain ni where ni: "gm_get (Nodes ?st) n = Some ni" using node [OF n] by blast
    obtain ch where ch: "dial (Address ni @ '':'' @ sint_decimal (Port ni)) = Inr ch" using assms(5) by blast
    show ?thesis using ni ch first_GetClient [of ?sm ?st n ni dial ch newClient] st
      by (intro exI [of _ ni] exI [of _ ch] exI [of _ "\<lparr>pool_shardMap = ?sm, pool_clients = [(n, newClient ch)]\<rparr>"])
        (simp add: GetClient_def)
  qed
  with shard node show ?thesis using st lookups_of_state [OF st] by (intro exI [of _ ?st] exI [of _ shard]) simp
qed

text \<open>A file that holds the four nodes and five shards of the tests.\<close>

definition four_env :: fs_env where
  "four_env = env0\<lparr>json_Unmarshal := (\<lambda>d. if d = ''ok'' then Inr MakeFourNodesWithFiveShards else Inl ''invalid character'')\<rparr>"

definition four_file :: FileShardMap where
  "four_file = \<lparr>fsm_ShardMap = sm_Swap MakeFourNodesWithFiveShards zero_ShardMap, fsm_filename = ''m.json'', fsm_done = None\<rparr>"

theorem key_routing_witness:
  "\<exists>shard. go_bind (sm_NumShards (fsm_ShardMap four_file)) (GetShardForKey ''abc'') = Ret shard \<and>
     nodes_for_shard MakeFourNodesWithFiveShards shard \<noteq> []"
proof -
  let ?ins = "[WEventsClosed]"
  have w: "WatchShardMapFile four_env file_ok ''m.json'' = Inr four_file"
    by (simp add: WatchShardMapFile_def four_env_def env0_def file_ok_def four_file_def applyFromFile_def Let_def)
  have u: "watchForUpdates four_env ?ins four_file = (False, four_file)" by simp
  have g: "\<forall>st \<in> set (good_states four_env ''m.json'' ?ins). serving st" by (simp add: good_states_Cons relevant_def)
  have "serving MakeFourNodesWithFiveShards" by code_simp
  then have d: "\<forall>st. decoded four_env ''m.json'' (WEvent ''m.json'' 0 file_ok) = Some st \<longrightarrow> serving st"
    by (simp add: decoded_def file_ok_def four_env_def env0_def)
  have "GetState (fsm_ShardMap four_file) = Ret MakeFourNodesWithFiveShards" by (simp add: four_file_def GetState_def sm_Swap_def)
  then show ?thesis
    using key_routing [OF w u g d, of "\<lambda>a. Inr a :: string + string" "''abc''" "\<lambda>c. c"] by auto
qed

end
